(* ===== verification/Prelude.thy ===== *)
theory Prelude
  imports Main "HOL-Library.Word" "HOL-Library.Signed_Division" "HOL-Library.Multiset" "HOL-Library.AList"
begin

text \<open>
  The vocabulary every component shares: Go's fixed-width integers as words, the \<open>math/bits\<close>
  functions of Go's standard library, the \<^verbatim>\<open>for row != 0\<close> loop that two components use to walk
  a bitset, and the generic facts on lists, folds and words that carry the component proofs.
\<close>

unbundle bit_operations_syntax

section \<open>Collections of facts\<close>

named_theorems wf_simps \<open>how operations act on well-formedness invariants\<close>
named_theorems alive_simps \<open>what an operation does to the cells that are alive\<close>
named_theorems frame_simps \<open>what an operation leaves unchanged\<close>

section \<open>Go's integer types\<close>

type_synonym i64 = "64 word"  \<comment> \<open>\<open>int64\<close> and \<open>int\<close>: read with \<open>sint\<close>, compared with \<open>\<le>s\<close>\<close>
type_synonym u64 = "64 word"
type_synonym u16 = "16 word"
type_synonym u8 = "8 word"

text \<open>
  Go's \<open>/\<close> and \<open>%\<close> on \<open>int64\<close> truncate towards zero; the result is stored back in 64 bits.
\<close>

definition go_div :: "i64 \<Rightarrow> i64 \<Rightarrow> i64" where
  "go_div a b = word_of_int (sint a sdiv sint b)"

definition go_rem :: "i64 \<Rightarrow> i64 \<Rightarrow> i64" where
  "go_rem a b = word_of_int (sint a smod sint b)"

section \<open>The functions of \<open>math/bits\<close>\<close>

text \<open>The number of trailing zero bits, 64 for the word 0.\<close>

definition TrailingZeros64 :: "u64 \<Rightarrow> nat" where
  "TrailingZeros64 w = length (takeWhile (\<lambda>n. \<not> bit w n) [0..<64])"

definition OnesCount64 :: "u64 \<Rightarrow> nat" where
  "OnesCount64 w = length (filter (bit w) [0..<64])"

text \<open>The set bits of a row in increasing order: the order in which the loops visit them.\<close>

definition set_bits_list :: "u64 \<Rightarrow> nat list" where
  "set_bits_list w = filter (bit w) [0..<64]"

lemma bit_u64_bound: "bit (w::u64) n \<Longrightarrow> n < 64"
  using bit_imp_le_length[of w n] by simp

lemma set_set_bits_list: "set (set_bits_list w) = {n. bit w n}"
  by (auto simp: set_bits_list_def dest: bit_u64_bound)

lemma distinct_set_bits_list: "distinct (set_bits_list w)"
  by (simp add: set_bits_list_def)

lemma OnesCount64_length: "OnesCount64 w = length (set_bits_list w)"
  by (simp add: OnesCount64_def set_bits_list_def)

lemma u64_nonzero_bit: "(w::u64) \<noteq> 0 \<Longrightarrow> \<exists>n<64. bit w n"
proof -
  assume "w \<noteq> 0"
  then obtain n where "bit w n" by (auto simp: bit_eq_iff)
  then show ?thesis using bit_u64_bound by blast
qed

lemma TrailingZeros64_split:
  assumes "w \<noteq> 0"
  shows "TrailingZeros64 w < 64" and "bit w (TrailingZeros64 w)"
    and "\<And>m. m < TrailingZeros64 w \<Longrightarrow> \<not> bit w m"
proof -
  let ?t = "TrailingZeros64 w"
  obtain n where n: "n < 64" "bit w n" using u64_nonzero_bit[OF assms] by blast
  show lt: "?t < 64"
  proof (rule ccontr)
    assume "\<not> ?t < 64"
    moreover have "?t \<le> 64"
      using length_takeWhile_le[of "\<lambda>n. \<not> bit w n" "[0..<64]"] by (simp add: TrailingZeros64_def)
    ultimately have "?t = length [0..<64]" by simp
    then have "takeWhile (\<lambda>n. \<not> bit w n) [0..<64] = [0..<64]"
      unfolding TrailingZeros64_def by (metis takeWhile_eq_take take_all order_refl)
    then have "\<forall>m\<in>set [0..<64]. \<not> bit w m" by (simp only: takeWhile_eq_all_conv)
    with n show False by simp
  qed
  show "bit w ?t"
    using nth_length_takeWhile[of "\<lambda>n. \<not> bit w n" "[0..<64]"] lt
    by (simp add: TrailingZeros64_def)
  fix m assume m: "m < ?t"
  then have "takeWhile (\<lambda>n. \<not> bit w n) [0..<64] ! m \<in> set (takeWhile (\<lambda>n. \<not> bit w n) [0..<64])"
    unfolding TrailingZeros64_def by (rule nth_mem)
  moreover have "takeWhile (\<lambda>n. \<not> bit w n) [0..<64] ! m = m"
    using m lt by (simp add: TrailingZeros64_def takeWhile_nth)
  ultimately show "\<not> bit w m" by (metis set_takeWhileD)
qed

section \<open>Walking the set bits of a row\<close>

text \<open>
  The loop \<^verbatim>\<open>for row != 0 { x := bits.TrailingZeros64(row); row &^= 1 << x; body }\<close>
  of \<open>RowsToOffsets\<close> and \<open>addToScratch\<close>, with the loop body as an argument. It ends because
  each round clears a bit.
\<close>

text \<open>Single-bit masks: the simplifier's normal form of \<^term>\<open>push_bit n 1\<close> is \<^term>\<open>2 ^ n\<close>.\<close>

lemma bit_clear_iff: "bit (w AND NOT (2 ^ n)) m \<longleftrightarrow> bit w m \<and> m \<noteq> n" for w :: u64
  by (auto simp: bit_simps dest: bit_u64_bound)

lemma bit_set_iff: "bit (w OR 2 ^ n) m \<longleftrightarrow> bit w m \<or> (m = n \<and> n < 64)" for w :: u64
  by (auto simp: bit_simps dest: bit_u64_bound)

lemma set_bits_list_clear:
  assumes "w \<noteq> 0"
  shows "set_bits_list w = TrailingZeros64 w # set_bits_list (w AND NOT (2 ^ TrailingZeros64 w))"
proof -
  let ?t = "TrailingZeros64 w"
  note t = TrailingZeros64_split[OF assms]
  have split: "[0..<64] = [0..<?t] @ ?t # [Suc ?t..<64]"
    using t(1) upt_add_eq_append[of 0 ?t "64 - ?t"] by (simp add: upt_conv_Cons)
  have low: "filter (bit w) [0..<?t] = []" using t(3) by (auto simp: filter_empty_conv)
  have low': "filter (bit (w AND NOT (2 ^ ?t))) [0..<?t] = []"
    using t(3) by (auto simp: filter_empty_conv bit_clear_iff)
  have high: "filter (bit (w AND NOT (2 ^ ?t))) [Suc ?t..<64] = filter (bit w) [Suc ?t..<64]"
    by (rule filter_cong) (auto simp: bit_clear_iff)
  have "filter P [0..<64] = filter P [0..<?t] @ filter P [?t] @ filter P [Suc ?t..<64]" for P
    using arg_cong[OF split, of "filter P"] by (simp only: filter_append append_Cons append_Nil flip: filter_append)
  from this[of "bit w"] this[of "bit (w AND NOT (2 ^ ?t))"] show ?thesis
    unfolding set_bits_list_def low low' high by (simp add: t(2) bit_clear_iff)
qed

function for_bits :: "(nat \<Rightarrow> 's \<Rightarrow> 's) \<Rightarrow> u64 \<Rightarrow> 's \<Rightarrow> 's" where
  "for_bits body row s =
     (if row = 0 then s
      else for_bits body (row AND NOT (push_bit (TrailingZeros64 row) 1))
                    (body (TrailingZeros64 row) s))"
  by pat_completeness auto
termination
proof (relation "measure (\<lambda>(body, row, s). OnesCount64 row)", goal_cases)
  case 1
  show ?case by simp
next
  case (2 body row s)
  then show ?case using set_bits_list_clear[of row] by (simp add: OnesCount64_length)
qed

declare for_bits.simps [simp del]

lemma for_bits_fold: "for_bits body row s = fold body (set_bits_list row) s"
proof (induction body row s rule: for_bits.induct)
  case (1 body row s)
  show ?case
  proof (cases "row = 0")
    case True
    then show ?thesis by (simp add: for_bits.simps set_bits_list_def)
  next
    case False
    with "1.IH" show ?thesis by (subst for_bits.simps) (simp add: set_bits_list_clear[OF False])
  qed
qed

section \<open>Generic facts on folds and lists\<close>

lemma fold_append_map: "fold (\<lambda>x out. out @ [f x]) xs out = out @ map f xs"
  by (induction xs arbitrary: out) simp_all

lemma fold_append_concat: "fold (\<lambda>x out. out @ f x) xs out = out @ concat (map f xs)"
  by (induction xs arbitrary: out) simp_all

lemma fold_concat_eq: "fold f (concat xss) s = fold (fold f) xss s"
  by (induction xss arbitrary: s) simp_all

lemma fold_add_sum_list: "fold (\<lambda>x n. n + f x) xs n = n + sum_list (map f xs)" for n :: nat
  by (induction xs arbitrary: n) simp_all

lemma map_add_upt_mult: "map ((+) m) [0..<k] = [m..<m + k]"
  by (simp add: map_add_upt add.commute cong: map_cong)

lemma upt_mult_concat: "[0..<n * k] = concat (map (\<lambda>y. map (\<lambda>x. y * k + x) [0..<k]) [0..<n])"
proof (induction n)
  case (Suc n)
  have "[0..<Suc n * k] = [0..<n * k] @ [n * k..<n * k + k]"
    using upt_add_eq_append[of 0 "n * k" k] by (simp add: add.commute)
  also have "[n * k..<n * k + k] = map (\<lambda>x. n * k + x) [0..<k]"
    by (simp add: map_add_upt_mult)
  finally show ?case using Suc by simp
qed simp

lemma enumerate_map_nth: "enumerate 0 xs = map (\<lambda>i. (i, xs ! i)) [0..<length xs]"
  by (rule nth_equalityI) (simp_all add: nth_enumerate_eq)

end
