(* ===== verification/Cell_Sink.thy ===== *)
theory Cell_Sink
  imports Prelude
begin

text \<open>
  The contract every operation that sets cells alive obeys: it keeps its component's invariant
  and adds at most one cell to the component's set of live cells. The code applies such an
  operation in a loop in three places (decoding persisted offsets, spawning on a chunk, placing a
  pattern on the board); what the loop does is proved here once.
\<close>

locale cell_sink =
  fixes inv :: "'s \<Rightarrow> bool"
    and put :: "'p \<Rightarrow> 's \<Rightarrow> 's"
    and target :: "'p \<Rightarrow> 'c option"
    and cells :: "'s \<Rightarrow> 'c set"
  assumes put_inv: "inv s \<Longrightarrow> inv (put p s)"
    and cells_put: "inv s \<Longrightarrow> cells (put p s) = cells s \<union> set_option (target p)"
begin

lemma fold_inv: "inv s \<Longrightarrow> inv (fold put ps s)"
  by (induction ps arbitrary: s) (simp_all add: put_inv)

lemma cells_fold: "inv s \<Longrightarrow> cells (fold put ps s) = cells s \<union> (\<Union>p\<in>set ps. set_option (target p))"
  by (induction ps arbitrary: s) (auto simp: put_inv cells_put)

lemma cells_fold_cong:
  assumes "inv s" and "set ps = set qs"
  shows "cells (fold put ps s) = cells (fold put qs s)"
  using assms by (simp add: cells_fold)

lemma cells_fold_mono: "inv s \<Longrightarrow> cells s \<subseteq> cells (fold put ps s)"
  by (auto simp: cells_fold)

lemma cells_put_idem: "inv s \<Longrightarrow> cells (put p (put p s)) = cells (put p s)"
  by (auto simp: put_inv cells_put)

end

end
