(* ===== verification/Chunk.thy ===== *)
theory Chunk
  imports Cell_Sink
begin

text \<open>
  \<^verbatim>\<open>simulation/chunk.go\<close>: a chunk's 64 by 64 cells as 64 machine words, one bit per cell, and the
  sparse encoding used on the wire and in Redis. The mutex of the Go struct makes each operation
  here atomic; it has no state of its own.
\<close>

section \<open>Data\<close>

definition ChunkSize :: nat where
  "ChunkSize = 64"

datatype ChunkID = ChunkID (idX: i64) (idY: i64)

text \<open>Chunk identifiers are compared in the order of their coordinates' bit patterns.\<close>

instantiation ChunkID :: linorder
begin

definition less_eq_ChunkID :: "ChunkID \<Rightarrow> ChunkID \<Rightarrow> bool" where
  "less_eq_ChunkID a b \<longleftrightarrow> idX a < idX b \<or> idX a = idX b \<and> idY a \<le> idY b"

definition less_ChunkID :: "ChunkID \<Rightarrow> ChunkID \<Rightarrow> bool" where
  "less_ChunkID a b \<longleftrightarrow> idX a < idX b \<or> idX a = idX b \<and> idY a < idY b"

instance
  by standard (auto simp: less_eq_ChunkID_def less_ChunkID_def ChunkID.expand)

end

text \<open>The Go array \<^verbatim>\<open>[64]uint64\<close>: a list of 64 words, \<open>wf_rows\<close> being its length.\<close>

type_synonym rows = "u64 list"

definition wf_rows :: "rows \<Rightarrow> bool" where
  "wf_rows r \<longleftrightarrow> length r = ChunkSize"

definition zero_rows :: rows where
  "zero_rows = replicate ChunkSize 0"

record Chunk =
  ID :: ChunkID
  rows :: rows

definition NewChunk :: "i64 \<Rightarrow> i64 \<Rightarrow> Chunk" where
  "NewChunk x y = \<lparr>ID = ChunkID x y, rows = zero_rows\<rparr>"

section \<open>Operations\<close>

definition AddCell :: "u8 \<Rightarrow> u8 \<Rightarrow> Chunk \<Rightarrow> Chunk" where
  "AddCell x y c =
     (if ChunkSize \<le> unat x \<or> ChunkSize \<le> unat y then c
      else c\<lparr>rows := (rows c)[unat y := rows c ! unat y OR push_bit (unat x) 1]\<rparr>)"

definition RemoveCell :: "u8 \<Rightarrow> u8 \<Rightarrow> Chunk \<Rightarrow> Chunk" where
  "RemoveCell x y c =
     (if ChunkSize \<le> unat x \<or> ChunkSize \<le> unat y then c
      else c\<lparr>rows := (rows c)[unat y := rows c ! unat y AND NOT (push_bit (unat x) 1)]\<rparr>)"

definition Rows :: "Chunk \<Rightarrow> rows" where
  "Rows c = rows c"

definition SetRows :: "rows \<Rightarrow> Chunk \<Rightarrow> Chunk" where
  "SetRows r c = c\<lparr>rows := r\<rparr>"

definition PopCount :: "Chunk \<Rightarrow> nat" where
  "PopCount c = fold (\<lambda>row n. n + OnesCount64 row) (rows c) 0"

definition RowsToOffsets :: "rows \<Rightarrow> u16 list" where
  "RowsToOffsets r =
     fold (\<lambda>(y, row). for_bits (\<lambda>x out. out @ [of_nat y * 64 + of_nat x]) row)
       (enumerate 0 r) []"

definition OffsetsToRows_step :: "u16 \<Rightarrow> rows \<Rightarrow> rows" where
  "OffsetsToRows_step off r =
     (let x = off mod 64; y = off div 64
      in if unat y < ChunkSize then r[unat y := r ! unat y OR push_bit (unat x) 1] else r)"

definition OffsetsToRows :: "u16 list \<Rightarrow> rows" where
  "OffsetsToRows offsets = fold OffsetsToRows_step offsets zero_rows"

definition Snapshot :: "Chunk \<Rightarrow> u16 list" where
  "Snapshot c = RowsToOffsets (Rows c)"

section \<open>The cells a bitset holds\<close>

definition alive :: "rows \<Rightarrow> nat \<Rightarrow> nat \<Rightarrow> bool" where
  "alive r x y \<longleftrightarrow> y < length r \<and> bit (r ! y) x"

definition live :: "rows \<Rightarrow> (nat \<times> nat) set" where
  "live r = {(x, y). alive r x y}"

lemma alive_bounds: "wf_rows r \<Longrightarrow> alive r x y \<Longrightarrow> x < 64 \<and> y < 64"
  by (auto simp: alive_def wf_rows_def ChunkSize_def dest: bit_u64_bound)

lemma live_subset: "wf_rows r \<Longrightarrow> live r \<subseteq> {..<64} \<times> {..<64}"
  by (auto simp: live_def dest: alive_bounds)

lemma finite_live: "finite (live r)"
proof (rule finite_subset)
  show "live r \<subseteq> {..<64} \<times> {..<length r}" by (auto simp: live_def alive_def dest: bit_u64_bound)
qed simp

lemma rows_eqI:
  assumes "wf_rows r" and "wf_rows s" and "\<And>x y. x < 64 \<Longrightarrow> y < 64 \<Longrightarrow> alive r x y = alive s x y"
  shows "r = s"
proof (rule nth_equalityI)
  show len: "length r = length s" using assms by (simp add: wf_rows_def)
  fix y assume "y < length r"
  then show "r ! y = s ! y"
    using assms by (intro bit_word_eqI) (auto simp: alive_def wf_rows_def ChunkSize_def)
qed

lemma live_inject: "wf_rows r \<Longrightarrow> wf_rows s \<Longrightarrow> live r = live s \<longleftrightarrow> r = s"
  by (auto simp: live_def set_eq_iff intro: rows_eqI)

lemma wf_zero_rows [simp, wf_simps]: "wf_rows zero_rows"
  by (simp add: wf_rows_def zero_rows_def)

lemma alive_zero_rows [simp, alive_simps]: "\<not> alive zero_rows x y"
  by (auto simp: alive_def zero_rows_def)

lemma live_zero_rows [simp]: "live zero_rows = {}"
  by (simp add: live_def)

lemma wf_update_row [simp, wf_simps]: "wf_rows (r[i := w]) = wf_rows r"
  by (simp add: wf_rows_def)

lemma alive_or_bit [alive_simps]:
  "wf_rows r \<Longrightarrow> n < 64 \<Longrightarrow> m < 64 \<Longrightarrow>
   alive (r[n := r ! n OR 2 ^ m]) x y \<longleftrightarrow> alive r x y \<or> (x = m \<and> y = n)"
  by (auto simp: alive_def wf_rows_def ChunkSize_def nth_list_update bit_set_iff)

lemma alive_andnot_bit [alive_simps]:
  "wf_rows r \<Longrightarrow> n < 64 \<Longrightarrow> m < 64 \<Longrightarrow>
   alive (r[n := r ! n AND NOT (2 ^ m)]) x y \<longleftrightarrow> alive r x y \<and> \<not> (x = m \<and> y = n)"
  by (auto simp: alive_def wf_rows_def ChunkSize_def nth_list_update bit_clear_iff)

lemma zero_rows_iff: "wf_rows r \<Longrightarrow> r = zero_rows \<longleftrightarrow> live r = {}"
  using live_inject[of r zero_rows] by simp

section \<open>Adding and removing cells\<close>

lemma wf_AddCell [wf_simps]: "wf_rows (rows (AddCell x y c)) = wf_rows (rows c)"
  by (simp add: AddCell_def)

lemma wf_RemoveCell [wf_simps]: "wf_rows (rows (RemoveCell x y c)) = wf_rows (rows c)"
  by (simp add: RemoveCell_def)

lemma ID_AddCell [simp, frame_simps]: "ID (AddCell x y c) = ID c"
  by (simp add: AddCell_def)

lemma ID_RemoveCell [simp, frame_simps]: "ID (RemoveCell x y c) = ID c"
  by (simp add: RemoveCell_def)

lemma live_AddCell:
  "wf_rows (rows c) \<Longrightarrow>
   live (rows (AddCell x y c)) =
     live (rows c) \<union> (if unat x < 64 \<and> unat y < 64 then {(unat x, unat y)} else {})"
  by (auto simp: AddCell_def live_def ChunkSize_def alive_simps)

lemma live_RemoveCell:
  "wf_rows (rows c) \<Longrightarrow>
   live (rows (RemoveCell x y c)) = live (rows c) - {(unat x, unat y)}"
  by (auto simp: RemoveCell_def live_def ChunkSize_def alive_simps dest: alive_bounds)

interpretation chunk_sink: cell_sink
  "\<lambda>c. wf_rows (rows c)" "\<lambda>(x, y). AddCell x y"
  "\<lambda>(x, y). if unat x < 64 \<and> unat y < 64 then Some (unat x, unat y) else None"
  "\<lambda>c. live (rows c)"
  by unfold_locales (auto simp: wf_simps live_AddCell split: if_splits)

section \<open>The sparse encoding\<close>

text \<open>\<open>cell_offset\<close> is the wire format \<^verbatim>\<open>y*ChunkSize + x\<close>; it fits in 16 bits.\<close>

definition cell_offset :: "nat \<Rightarrow> nat \<Rightarrow> u16" where
  "cell_offset x y = of_nat y * 64 + of_nat x"

lemma cell_offset_of_nat: "cell_offset x y = of_nat (y * 64 + x)"
  by (simp add: cell_offset_def)

lemma unat_of_nat_u16: "n < 65536 \<Longrightarrow> unat (of_nat n :: u16) = n"
  by (simp add: unat_of_nat)

lemma unat_cell_offset: "x < 64 \<Longrightarrow> y < 64 \<Longrightarrow> unat (cell_offset x y) = y * 64 + x"
  unfolding cell_offset_of_nat by (rule unat_of_nat_u16) simp

lemma cell_offset_inject:
  assumes "x < 64" "y < 64" "x' < 64" "y' < 64"
  shows "cell_offset x y = cell_offset x' y' \<longleftrightarrow> x = x' \<and> y = y'"
proof
  assume "cell_offset x y = cell_offset x' y'"
  with assms have eq: "y * 64 + x = y' * 64 + x'" by (metis unat_cell_offset)
  have "(y * 64 + x) mod 64 = x" "(y' * 64 + x') mod 64 = x'"
    "(y * 64 + x) div 64 = y" "(y' * 64 + x') div 64 = y'" using assms by simp_all
  with eq show "x = x' \<and> y = y'" by metis
qed simp

lemma inj_on_cell_offset: "inj_on (\<lambda>(x, y). cell_offset x y) ({..<64} \<times> {..<64})"
  by (auto simp: inj_on_def cell_offset_inject)

lemma RowsToOffsets_concat:
  "RowsToOffsets r = concat (map (\<lambda>y. map (\<lambda>x. cell_offset x y) (set_bits_list (r ! y))) [0..<length r])"
proof -
  have "RowsToOffsets r =
    fold (\<lambda>p out. out @ map (\<lambda>x. cell_offset x (fst p)) (set_bits_list (snd p))) (enumerate 0 r) []"
    by (simp add: RowsToOffsets_def for_bits_fold[abs_def] fold_append_map[abs_def] cell_offset_def
        case_prod_unfold)
  then show ?thesis
    by (simp add: fold_append_concat enumerate_map_nth comp_def)
qed

text \<open>The encoding lists, in increasing order, the offsets below 4096 whose cell is alive.\<close>

lemma RowsToOffsets_filter:
  assumes "wf_rows r"
  shows "RowsToOffsets r =
    map of_nat (filter (\<lambda>n. alive r (n mod 64) (n div 64)) [0..<4096])"
proof -
  have row: "map (\<lambda>x. y * 64 + x) (set_bits_list (r ! y)) =
        filter (\<lambda>n. alive r (n mod 64) (n div 64)) (map (\<lambda>x. y * 64 + x) [0..<64])" if "y < 64" for y
    using that assms
    by (auto simp: filter_map comp_def set_bits_list_def alive_def wf_rows_def ChunkSize_def
        intro!: arg_cong[where f = "map (\<lambda>x. y * 64 + x)"] filter_cong)
  have "[0..<4096] = concat (map (\<lambda>y. map (\<lambda>x. y * 64 + x) [0..<64]) [0..<64::nat])"
    using upt_mult_concat[of 64 64] by simp
  then have "filter (\<lambda>n. alive r (n mod 64) (n div 64)) [0..<4096] =
      concat (map (\<lambda>y. filter (\<lambda>n. alive r (n mod 64) (n div 64)) (map (\<lambda>x. y * 64 + x) [0..<64])) [0..<64])"
    by (simp only: filter_concat map_map comp_def)
  also have "\<dots> = concat (map (\<lambda>y. map (\<lambda>x. y * 64 + x) (set_bits_list (r ! y))) [0..<64])"
    by (intro arg_cong[where f = concat] map_cong refl row[symmetric]) simp
  finally have "filter (\<lambda>n. alive r (n mod 64) (n div 64)) [0..<4096] =
      concat (map (\<lambda>y. map (\<lambda>x. y * 64 + x) (set_bits_list (r ! y))) [0..<64])" .
  then show ?thesis
    using assms
    by (simp add: RowsToOffsets_concat cell_offset_of_nat map_concat comp_def wf_rows_def ChunkSize_def)
qed

lemma set_RowsToOffsets:
  assumes "wf_rows r"
  shows "set (RowsToOffsets r) = (\<lambda>(x, y). cell_offset x y) ` live r"
  using assms
  by (force simp: RowsToOffsets_concat set_set_bits_list live_def alive_def wf_rows_def ChunkSize_def)

lemma map_unat_RowsToOffsets:
  "wf_rows r \<Longrightarrow>
   map unat (RowsToOffsets r) = filter (\<lambda>n. alive r (n mod 64) (n div 64)) [0..<4096]"
  by (simp only: RowsToOffsets_filter map_map, rule map_idI) (simp add: unat_of_nat_u16)

lemma sorted_RowsToOffsets:
  assumes "wf_rows r"
  shows "sorted_wrt (<) (RowsToOffsets r)"
proof -
  have "sorted_wrt (<) (map unat (RowsToOffsets r))"
    unfolding map_unat_RowsToOffsets[OF assms] by (rule sorted_wrt_filter) simp
  then show ?thesis by (simp only: sorted_wrt_map word_less_nat_alt[abs_def])
qed

lemma distinct_RowsToOffsets: "wf_rows r \<Longrightarrow> distinct (RowsToOffsets r)"
  using sorted_RowsToOffsets[of r] by (simp add: strict_sorted_iff)

lemma length_RowsToOffsets:
  assumes "wf_rows r"
  shows "length (RowsToOffsets r) = card (live r)"
proof -
  have "length (RowsToOffsets r) = card (set (RowsToOffsets r))"
    by (simp add: distinct_card distinct_RowsToOffsets assms)
  also have "\<dots> = card (live r)"
    unfolding set_RowsToOffsets[OF assms]
    by (rule card_image) (rule inj_on_subset[OF inj_on_cell_offset live_subset[OF assms]])
  finally show ?thesis .
qed

lemma PopCount_card:
  assumes "wf_rows (rows c)"
  shows "PopCount c = card (live (rows c))"
proof -
  have "PopCount c = sum_list (map OnesCount64 (map ((!) (rows c)) [0..<length (rows c)]))"
    unfolding PopCount_def fold_add_sum_list map_nth by simp
  also have "\<dots> = length (RowsToOffsets (rows c))"
    by (simp only: RowsToOffsets_concat length_concat map_map comp_def length_map OnesCount64_length)
  finally show ?thesis by (simp add: length_RowsToOffsets assms)
qed

lemma PopCount_zero_iff: "wf_rows (rows c) \<Longrightarrow> PopCount c = 0 \<longleftrightarrow> rows c = zero_rows"
  by (simp add: PopCount_card zero_rows_iff finite_live)

lemma RowsToOffsets_empty_iff: "wf_rows r \<Longrightarrow> RowsToOffsets r = [] \<longleftrightarrow> r = zero_rows"
  using length_RowsToOffsets[of r] by (simp add: zero_rows_iff finite_live flip: length_0_conv)

section \<open>Decoding\<close>

text \<open>The cell an offset stands for, when it lies in the chunk.\<close>

definition offset_cell :: "u16 \<Rightarrow> (nat \<times> nat) option" where
  "offset_cell off = (if unat off < 4096 then Some (unat off mod 64, unat off div 64) else None)"

lemma offset_cell_cell_offset: "x < 64 \<Longrightarrow> y < 64 \<Longrightarrow> offset_cell (cell_offset x y) = Some (x, y)"
  by (simp add: offset_cell_def unat_cell_offset)

lemma offset_cell_bounds: "offset_cell off = Some (x, y) \<Longrightarrow> x < 64 \<and> y < 64 \<and> off = cell_offset x y"
proof -
  assume "offset_cell off = Some (x, y)"
  then have lt: "unat off < 4096" and xy: "x = unat off mod 64" "y = unat off div 64"
    by (auto simp: offset_cell_def split: if_splits)
  then have "x < 64" "y < 64" by auto
  moreover have "off = cell_offset x y"
    using calculation by (simp add: word_unat_eq_iff unat_cell_offset xy)
  ultimately show ?thesis by simp
qed

lemma wf_OffsetsToRows_step: "wf_rows (OffsetsToRows_step off r) = wf_rows r"
  by (simp add: OffsetsToRows_step_def Let_def)

lemma live_OffsetsToRows_step:
  assumes "wf_rows r"
  shows "live (OffsetsToRows_step off r) = live r \<union> set_option (offset_cell off)"
proof -
  have "unat (off div 64) = unat off div 64" "unat (off mod 64) = unat off mod 64"
    by (simp_all add: unat_div unat_mod)
  moreover have "unat off div 64 < 64 \<longleftrightarrow> unat off < 4096" by auto
  ultimately show ?thesis
    using assms
    by (auto simp: OffsetsToRows_step_def offset_cell_def live_def ChunkSize_def alive_simps Let_def)
qed

interpretation decode_sink: cell_sink wf_rows OffsetsToRows_step offset_cell live
  by unfold_locales (simp_all add: wf_OffsetsToRows_step live_OffsetsToRows_step)

lemma wf_OffsetsToRows [simp, wf_simps]: "wf_rows (OffsetsToRows offs)"
  unfolding OffsetsToRows_def by (rule decode_sink.fold_inv) simp

lemma live_OffsetsToRows: "live (OffsetsToRows offs) = {c. Some c \<in> offset_cell ` set offs}"
  unfolding OffsetsToRows_def by (subst decode_sink.cells_fold) (auto simp: image_iff eq_commute)

lemma offset_cell_iff: "offset_cell off = Some (x, y) \<longleftrightarrow> x < 64 \<and> y < 64 \<and> off = cell_offset x y"
  using offset_cell_bounds offset_cell_cell_offset by blast

lemma alive_OffsetsToRows:
  "alive (OffsetsToRows offs) x y \<longleftrightarrow> x < 64 \<and> y < 64 \<and> cell_offset x y \<in> set offs"
proof -
  have "alive (OffsetsToRows offs) x y \<longleftrightarrow> (x, y) \<in> live (OffsetsToRows offs)"
    by (simp add: live_def)
  also have "\<dots> \<longleftrightarrow> (\<exists>off\<in>set offs. offset_cell off = Some (x, y))"
    unfolding live_OffsetsToRows mem_Collect_eq image_iff by (rule bex_cong[OF refl]) (rule eq_commute)
  finally show ?thesis by (auto simp: offset_cell_iff)
qed

lemma cell_offset_in_RowsToOffsets:
  assumes "wf_rows r" "x < 64" "y < 64"
  shows "cell_offset x y \<in> set (RowsToOffsets r) \<longleftrightarrow> alive r x y"
proof -
  have "cell_offset x y \<in> set (RowsToOffsets r) \<longleftrightarrow> (\<exists>(u, v)\<in>live r. cell_offset x y = cell_offset u v)"
    by (auto simp: set_RowsToOffsets[OF assms(1)])
  also have "\<dots> \<longleftrightarrow> (x, y) \<in> live r"
    using live_subset[OF assms(1)] assms(2,3) by (force simp: cell_offset_inject)
  finally show ?thesis by (simp add: live_def)
qed

lemma RowsToOffsets_bound: "wf_rows r \<Longrightarrow> off \<in> set (RowsToOffsets r) \<Longrightarrow> unat off < 4096"
  using live_subset[of r] by (force simp: set_RowsToOffsets unat_cell_offset)

lemma in_chunk_offset:
  assumes "unat off < 4096"
  obtains x y where "x < 64" "y < 64" "off = cell_offset x y"
proof -
  from assms have "offset_cell off = Some (unat off mod 64, unat off div 64)"
    by (simp add: offset_cell_def)
  from offset_cell_bounds[OF this] show thesis by (blast intro: that)
qed

section \<open>Properties\<close>

text \<open>
  Adding or removing a cell changes exactly the addressed cell, on every branch: coordinates of
  64 or more leave the chunk as it is, and the identity and the shape of the bitset never change.
\<close>

theorem cell_operations:
  assumes "wf_rows (rows c)"
  shows "(alive (rows (AddCell x y c)) u v \<longleftrightarrow>
            alive (rows c) u v \<or> (u = unat x \<and> v = unat y \<and> u < 64 \<and> v < 64)) \<and>
         (alive (rows (RemoveCell x y c)) u v \<longleftrightarrow>
            alive (rows c) u v \<and> \<not> (u = unat x \<and> v = unat y)) \<and>
         (64 \<le> unat x \<or> 64 \<le> unat y \<longrightarrow> AddCell x y c = c \<and> RemoveCell x y c = c) \<and>
         wf_rows (rows (AddCell x y c)) \<and> wf_rows (rows (RemoveCell x y c)) \<and>
         ID (AddCell x y c) = ID c \<and> ID (RemoveCell x y c) = ID c"
proof -
  have "(u, v) \<in> live (rows (AddCell x y c)) \<longleftrightarrow>
      (u, v) \<in> live (rows c) \<or> (u = unat x \<and> v = unat y \<and> u < 64 \<and> v < 64)"
    using assms by (auto simp: live_AddCell)
  moreover have "(u, v) \<in> live (rows (RemoveCell x y c)) \<longleftrightarrow>
      (u, v) \<in> live (rows c) \<and> \<not> (u = unat x \<and> v = unat y)"
    using assms by (auto simp: live_RemoveCell)
  moreover have "64 \<le> unat x \<or> 64 \<le> unat y \<Longrightarrow> AddCell x y c = c \<and> RemoveCell x y c = c"
    by (auto simp: AddCell_def RemoveCell_def ChunkSize_def)
  ultimately show ?thesis using assms by (auto simp: live_def wf_simps)
qed

text \<open>Encoding a bitset as offsets and decoding it again returns the same bitset.\<close>

lemma OffsetsToRows_RowsToOffsets:
  assumes "wf_rows r"
  shows "OffsetsToRows (RowsToOffsets r) = r"
  by (rule rows_eqI) (simp_all add: alive_OffsetsToRows cell_offset_in_RowsToOffsets assms)

text \<open>
  Decoding any list of offsets and encoding the result gives its canonical form: the offsets
  that lie inside the chunk, each once, in increasing order. Offsets of 4096 or more are dropped.
\<close>

theorem rows_offsets_canonical:
  "RowsToOffsets (OffsetsToRows offs) = sort (remdups (filter (\<lambda>o'. unat o' < 4096) offs))"
proof (rule sorted_distinct_set_unique)
  let ?r = "OffsetsToRows offs"
  show "sorted (RowsToOffsets ?r)" and "distinct (RowsToOffsets ?r)"
    using sorted_RowsToOffsets[of ?r] by (simp_all add: strict_sorted_iff)
  show "set (RowsToOffsets ?r) = set (sort (remdups (filter (\<lambda>o'. unat o' < 4096) offs)))"
  proof (intro set_eqI)
    fix off
    have "off \<in> set (RowsToOffsets ?r) \<longleftrightarrow> unat off < 4096 \<and> off \<in> set offs"
    proof (cases "unat off < 4096")
      case True
      then obtain x y where "x < 64" "y < 64" "off = cell_offset x y" by (rule in_chunk_offset)
      then show ?thesis
        using True by (simp add: cell_offset_in_RowsToOffsets alive_OffsetsToRows)
    qed (auto dest: RowsToOffsets_bound[rotated])
    then show "off \<in> set (RowsToOffsets ?r) \<longleftrightarrow>
        off \<in> set (sort (remdups (filter (\<lambda>o'. unat o' < 4096) offs)))" by auto
  qed
qed simp_all

text \<open>
  C39. A snapshot lists the live cells: offset \<^verbatim>\<open>y*64+x\<close> occurs iff cell (x, y) is alive, in strictly
  increasing order, all below 4096, and there are as many as the population count says.
\<close>

theorem snapshot_spec:
  assumes "wf_rows (rows c)"
  shows "sorted_wrt (<) (Snapshot c) \<and> length (Snapshot c) = PopCount c \<and>
         (\<forall>off\<in>set (Snapshot c). unat off < 4096) \<and>
         (\<forall>x<64. \<forall>y<64. of_nat (y * 64 + x) \<in> set (Snapshot c) \<longleftrightarrow> alive (rows c) x y)"
proof (intro conjI)
  show "sorted_wrt (<) (Snapshot c)"
    by (simp add: Snapshot_def Rows_def sorted_RowsToOffsets assms)
  show "length (Snapshot c) = PopCount c"
    by (simp add: Snapshot_def Rows_def length_RowsToOffsets PopCount_card assms)
  show "\<forall>off\<in>set (Snapshot c). unat off < 4096"
    using RowsToOffsets_bound[OF assms] by (simp add: Snapshot_def Rows_def)
  show "\<forall>x<64. \<forall>y<64. of_nat (y * 64 + x) \<in> set (Snapshot c) \<longleftrightarrow> alive (rows c) x y"
    by (simp add: Snapshot_def Rows_def cell_offset_in_RowsToOffsets assms del: of_nat_add of_nat_mult
        flip: cell_offset_of_nat)
qed

theorem snapshot_spec_witness: "65 \<in> set (Snapshot (AddCell 1 1 (NewChunk 2 3)))"
proof -
  let ?c = "AddCell 1 1 (NewChunk 2 3)"
  have wf: "wf_rows (rows ?c)" by (simp add: wf_simps NewChunk_def)
  have "alive (rows ?c) 1 1"
    by (simp add: AddCell_def NewChunk_def ChunkSize_def alive_def zero_rows_def)
  with snapshot_spec[OF wf] have "of_nat (1 * 64 + 1) \<in> set (Snapshot ?c)"
    by (metis One_nat_def one_less_numeral_iff semiring_norm(76))
  then show ?thesis by simp
qed

text \<open>The loop over the set bits of a row with a bound on its turns: \<open>None\<close> is a loop that has not ended.\<close>

fun for_bits_within :: "nat \<Rightarrow> (nat \<Rightarrow> 's \<Rightarrow> 's) \<Rightarrow> u64 \<Rightarrow> 's \<Rightarrow> 's option" where
  "for_bits_within turns body row s =
     (if row = 0 then Some s
      else case turns of
             0 \<Rightarrow> None
           | Suc n \<Rightarrow> for_bits_within n body (row AND NOT (push_bit (TrailingZeros64 row) 1))
                        (body (TrailingZeros64 row) s))"

declare for_bits_within.simps [simp del]

text \<open>
  C40. The loop \<^verbatim>\<open>for row != 0\<close> of the encoder and of the tick engine ends: it makes exactly one turn for
  each set bit, at most 64, and its turns see the set bits in increasing order.
\<close>

theorem bit_loop_terminates:
  "for_bits_within n body row s = (if OnesCount64 row \<le> n then Some (for_bits body row s) else None) \<and>
   OnesCount64 row \<le> 64 \<and> for_bits (\<lambda>x xs. xs @ [x]) row [] = filter (bit row) [0..<64]"
proof (intro conjI)
  show "for_bits_within n body row s = (if OnesCount64 row \<le> n then Some (for_bits body row s) else None)"
  proof (induction n body row s rule: for_bits_within.induct)
    case (1 n body row s)
    show ?case
    proof (cases "row = 0")
      case True
      then show ?thesis by (simp add: for_bits_within.simps[of n] for_bits.simps OnesCount64_def)
    next
      case False
      let ?row = "row AND NOT (push_bit (TrailingZeros64 row) 1)"
      have c: "OnesCount64 row = Suc (OnesCount64 ?row)"
        using set_bits_list_clear[OF False] by (simp add: OnesCount64_length)
      have "for_bits body row s = for_bits body ?row (body (TrailingZeros64 row) s)"
        using False by (simp add: for_bits.simps[of body row])
      with c show ?thesis
        using False "1.IH"[OF False] by (cases n) (simp_all add: for_bits_within.simps[of _ body row])
    qed
  qed
  show "OnesCount64 row \<le> 64"
    using length_filter_le[of "bit row" "[0..<64]"] by (simp add: OnesCount64_def)
  have "fold (\<lambda>x xs. xs @ [x]) ys zs = zs @ ys" for ys zs :: "nat list"
    by (induction ys arbitrary: zs) simp_all
  then show "for_bits (\<lambda>x xs. xs @ [x]) row [] = filter (bit row) [0..<64]"
    by (simp add: for_bits_fold set_bits_list_def)
qed

end
