(* ===== verification/Life.thy ===== *)
theory Life
  imports Chunk
begin

text \<open>
  What the simulation promises, without chunks: Conway's Life on a torus of \<open>2 ^ 70\<close> by \<open>2 ^ 70\<close>
  cells. Chunk coordinates are \<^verbatim>\<open>int64\<close> and wrap around, so the board the code calls infinite is
  this torus: \<open>2 ^ 64\<close> chunks of 64 cells in each direction. A coordinate is a 70-bit word, and
  \<open>gcell\<close> is the cell at a local position of a chunk.
\<close>

type_synonym coord = "70 word"
type_synonym board = "(coord \<times> coord) set"

section \<open>Life on the torus\<close>

fun moore_list :: "coord \<times> coord \<Rightarrow> (coord \<times> coord) list" where
  "moore_list (x, y) =
     [(x - 1, y - 1), (x, y - 1), (x + 1, y - 1), (x - 1, y), (x + 1, y),
      (x - 1, y + 1), (x, y + 1), (x + 1, y + 1)]"

definition life_count :: "board \<Rightarrow> coord \<times> coord \<Rightarrow> nat" where
  "life_count B g = length (filter (\<lambda>c. c \<in> B) (moore_list g))"

definition life_step :: "board \<Rightarrow> board" where
  "life_step B = {g. life_count B g = 3 \<or> (life_count B g = 2 \<and> g \<in> B)}"

lemma distinct_moore_list: "distinct (moore_list g)"
  by (cases g) simp

lemma life_count_card: "life_count B g = card (B \<inter> set (moore_list g))"
proof -
  have "life_count B g = card (set (filter (\<lambda>c. c \<in> B) (moore_list g)))"
    unfolding life_count_def by (rule distinct_card[symmetric]) (simp add: distinct_moore_list)
  then show ?thesis by (simp add: Int_def conj_commute)
qed

lemma life_count_le: "life_count B g \<le> 8"
proof -
  have "life_count B g \<le> length (moore_list g)" unfolding life_count_def by (rule length_filter_le)
  then show ?thesis by (cases g) simp
qed

lemma life_step_local:
  assumes "B \<inter> insert g (set (moore_list g)) = B' \<inter> insert g (set (moore_list g))"
  shows "g \<in> life_step B \<longleftrightarrow> g \<in> life_step B'"
proof -
  have "B \<inter> set (moore_list g) = B' \<inter> set (moore_list g)" and "g \<in> B \<longleftrightarrow> g \<in> B'"
    using assms by blast+
  then show ?thesis by (simp add: life_step_def life_count_card)
qed

lemma life_step_needs_neighbour: "g \<in> life_step B \<Longrightarrow> B \<inter> set (moore_list g) \<noteq> {}"
  by (auto simp: life_step_def life_count_card)

lemma life_step_empty [simp]: "life_step {} = {}"
  by (auto dest: life_step_needs_neighbour)

text \<open>Two cells are neighbours when each coordinate differs by at most one and they are not equal.\<close>

definition near :: "coord \<Rightarrow> coord \<Rightarrow> bool" where
  "near a b \<longleftrightarrow> b - a \<in> {-1, 0, 1}"

lemma moore_iff: "h \<in> set (moore_list g) \<longleftrightarrow> near (fst g) (fst h) \<and> near (snd g) (snd h) \<and> h \<noteq> g"
proof -
  have eq: "b - a = d \<longleftrightarrow> b = a + d" for a b d :: coord by (auto simp: algebra_simps)
  show ?thesis by (cases g, cases h) (auto simp: near_def eq)
qed

lemma moore_sym: "h \<in> set (moore_list g) \<longleftrightarrow> g \<in> set (moore_list h)"
proof -
  have "near a b \<longleftrightarrow> near b a" for a b by (auto simp: near_def algebra_simps)
  then show ?thesis by (auto simp: moore_iff)
qed

section \<open>Chunks on the torus\<close>

definition gcoord :: "i64 \<Rightarrow> int \<Rightarrow> coord" where
  "gcoord c l = word_of_int (uint c * 64 + l)"

definition gcell :: "ChunkID \<Rightarrow> nat \<times> nat \<Rightarrow> coord \<times> coord" where
  "gcell i p = (gcoord (idX i) (int (fst p)), gcoord (idY i) (int (snd p)))"

definition cells_of :: "ChunkID \<Rightarrow> rows \<Rightarrow> board" where
  "cells_of i r = gcell i ` live r"

definition area :: "ChunkID \<Rightarrow> board" where
  "area i = gcell i ` ({..<64} \<times> {..<64})"

lemma coord_of_int_eq: "(word_of_int a :: coord) = word_of_int b \<longleftrightarrow> (a - b) mod 2 ^ 70 = 0"
  by (simp add: word_of_int_eq_iff take_bit_eq_mod mod_eq_dvd_iff mod_eq_0_iff_dvd)

lemma gcoord_shift: "gcoord (c + word_of_int d) l = gcoord c (l + 64 * d)"
proof -
  have "uint (c + word_of_int d) mod 2 ^ 64 = (uint c + d) mod 2 ^ 64"
    by (simp add: uint_word_ariths uint_word_of_int mod_simps take_bit_eq_mod)
  then have "(2 ^ 64 :: int) dvd uint (c + word_of_int d) - (uint c + d)" by (simp add: mod_eq_dvd_iff)
  then obtain k where "uint (c + word_of_int d) - (uint c + d) = 2 ^ 64 * k" by (rule dvdE)
  then have "(uint (c + word_of_int d) * 64 + l) - (uint c * 64 + (l + 64 * d)) = 2 ^ 70 * k" by simp
  then show ?thesis unfolding gcoord_def coord_of_int_eq by simp
qed

lemma uint_gcoord: "0 \<le> l \<Longrightarrow> l < 64 \<Longrightarrow> uint (gcoord c l) = uint c * 64 + l"
proof -
  assume "0 \<le> l" "l < 64"
  moreover have "0 \<le> uint c" "uint c < 2 ^ 64" using uint_bounded[of c] by simp_all
  ultimately show ?thesis
    unfolding gcoord_def uint_word_of_int by (intro mod_pos_pos_trivial) simp_all
qed

lemma gcoord_inject:
  assumes "0 \<le> l" "l < 64" "0 \<le> l'" "l' < 64"
  shows "gcoord c l = gcoord c' l' \<longleftrightarrow> c = c' \<and> l = l'"
proof
  assume "gcoord c l = gcoord c' l'"
  with assms have "uint c * 64 + l = uint c' * 64 + l'" by (metis uint_gcoord)
  then have "(uint c * 64 + l) div 64 = (uint c' * 64 + l') div 64"
    "(uint c * 64 + l) mod 64 = (uint c' * 64 + l') mod 64" by simp_all
  with assms have "uint c = uint c'" "l = l'" by simp_all
  then show "c = c' \<and> l = l'" by (simp add: word_uint_eq_iff)
qed simp

lemma gcoord_cases:
  obtains c l where "0 \<le> l" "l < 64" "g = gcoord c l"
proof
  let ?c = "word_of_int (uint g div 64) :: i64" and ?l = "uint g mod 64"
  show "0 \<le> ?l" "?l < 64" by simp_all
  have b: "0 \<le> uint g" "uint g < 2 ^ 70" using uint_bounded[of g] by simp_all
  then have "0 \<le> uint g div 64" "uint g div 64 < 2 ^ 64" by (simp_all add: pos_imp_zdiv_nonneg_iff)
  then have "uint ?c = uint g div 64" by (simp add: uint_word_of_int)
  then have "uint (gcoord ?c ?l) = uint g" by (subst uint_gcoord) simp_all
  then show "g = gcoord ?c ?l" by (simp add: word_uint_eq_iff)
qed

lemma gcoord_near:
  assumes "\<bar>l - l'\<bar> < 1000"
  shows "near (gcoord c l) (gcoord c l') \<longleftrightarrow> \<bar>l' - l\<bar> \<le> 1"
    and "gcoord c l = gcoord c l' \<longleftrightarrow> l = l'"
proof -
  have small: "k mod 2 ^ 70 = 0 \<longleftrightarrow> k = 0" if "\<bar>k\<bar> \<le> 1001" for k :: int
    using that by (auto simp: mod_eq_0_iff_dvd dest: zdvd_imp_le[rotated] dvd_imp_le_int)
  have diff: "gcoord c l' - gcoord c l = word_of_int (l' - l)"
    by (simp add: gcoord_def flip: wi_hom_sub)
  have "(word_of_int (l' - l) :: coord) = word_of_int e \<longleftrightarrow> l' - l = e" if "\<bar>e\<bar> \<le> 1" for e
    unfolding coord_of_int_eq using assms that by (subst small) auto
  from this[of "-1"] this[of 0] this[of 1]
  show "near (gcoord c l) (gcoord c l') \<longleftrightarrow> \<bar>l' - l\<bar> \<le> 1"
    unfolding near_def diff by auto
  show "gcoord c l = gcoord c l' \<longleftrightarrow> l = l'"
    unfolding gcoord_def coord_of_int_eq using assms by (subst small) auto
qed

lemma gcell_inject:
  assumes "fst p < 64" "snd p < 64" "fst q < 64" "snd q < 64"
  shows "gcell i p = gcell j q \<longleftrightarrow> i = j \<and> p = q"
  using assms by (auto simp: gcell_def gcoord_inject prod_eq_iff intro: ChunkID.expand)

lemma inj_on_gcell: "inj_on (gcell i) ({..<64} \<times> {..<64})"
  by (rule inj_onI) (auto simp: gcell_inject)

lemma area_disjoint: "i \<noteq> j \<Longrightarrow> area i \<inter> area j = {}"
  by (auto simp: area_def gcell_inject)

lemma area_cover: obtains i where "g \<in> area i"
proof -
  obtain c l where x: "0 \<le> l" "l < 64" "fst g = gcoord c l" by (rule gcoord_cases)
  obtain d m where y: "0 \<le> m" "m < 64" "snd g = gcoord d m" by (rule gcoord_cases)
  have "g = gcell (ChunkID c d) (nat l, nat m)"
    using x y by (simp add: gcell_def prod_eq_iff)
  then have "g \<in> area (ChunkID c d)" using x y by (auto simp: area_def image_iff intro!: bexI)
  then show thesis by (rule that)
qed

lemma cells_of_area: "wf_rows r \<Longrightarrow> cells_of i r \<subseteq> area i"
  unfolding cells_of_def area_def by (rule image_mono) (rule live_subset)

lemma cells_of_zero [simp]: "cells_of i zero_rows = {}"
  by (simp add: cells_of_def)

lemma gcell_in_cells_of: "wf_rows r \<Longrightarrow> x < 64 \<Longrightarrow> y < 64 \<Longrightarrow> gcell i (x, y) \<in> cells_of i r \<longleftrightarrow> alive r x y"
proof -
  assume r: "wf_rows r" and xy: "x < 64" "y < 64"
  have "gcell i (x, y) \<in> cells_of i r \<longleftrightarrow> (x, y) \<in> live r"
    unfolding cells_of_def
    by (rule inj_on_image_mem_iff[OF inj_on_gcell]) (use xy live_subset[OF r] in auto)
  then show ?thesis by (simp add: live_def)
qed

end
