(* ===== verification/Commuting.thy ===== *)
theory Commuting
  imports Prelude
begin

text \<open>
  Go iterates over maps in an unspecified order and lets workers finish in any order. Where the
  steps commute the order does not matter: this locale states the contract and its consequence,
  and the components that iterate over maps interpret it.
\<close>

locale commuting_steps =
  fixes step :: "'a \<Rightarrow> 's \<Rightarrow> 's"
  assumes commute: "step x (step y s) = step y (step x s)"
begin

lemma fold_perm:
  assumes "mset xs = mset ys"
  shows "fold step xs s = fold step ys s"
proof -
  have "fold step xs = fold step ys"
    by (rule fold_multiset_equiv[OF _ assms]) (simp add: fun_eq_iff commute)
  then show ?thesis by simp
qed

lemma step_fold_swap: "step x (fold step ys s) = fold step ys (step x s)"
  by (induction ys arbitrary: s) (simp_all add: commute[of x])

lemma fold_fold_swap: "fold step xs (fold step ys s) = fold step ys (fold step xs s)"
  by (induction xs arbitrary: s) (simp_all add: step_fold_swap)

lemma commuting_fold: "commuting_steps (fold step)"
  by unfold_locales (rule fold_fold_swap)

end

section \<open>Incrementing the entries of an array\<close>

text \<open>\<^verbatim>\<open>c[i]++\<close> on an array of bytes; an index out of range is never used by the callers.\<close>

definition incr :: "nat \<Rightarrow> u8 list \<Rightarrow> u8 list" where
  "incr i c = c[i := c ! i + 1]"

lemma length_incr [simp]: "length (incr i c) = length c"
  by (simp add: incr_def)

interpretation incr_steps: commuting_steps incr
proof
  fix i j and c :: "u8 list"
  show "incr i (incr j c) = incr j (incr i c)"
    by (cases "i = j"; cases "i < length c"; cases "j < length c")
       (auto simp: incr_def list_update_swap list_update_beyond)
qed

lemma length_fold_incr [simp]: "length (fold incr is c) = length c"
  by (induction "is" arbitrary: c) simp_all

lemma nth_fold_incr:
  "j < length c \<Longrightarrow> fold incr is c ! j = c ! j + of_nat (count_list is j)"
  by (induction "is" arbitrary: c) (auto simp: incr_def nth_list_update algebra_simps)

end
