(* ===== verification/Engine.thy ===== *)
theory Engine
  imports Life Commuting
begin

text \<open>
  \<^verbatim>\<open>simulation/engine.go\<close>: one generation of one chunk, computed by counting neighbours into a
  padded 66 by 66 scratch array, and the test that decides which neighbours need a chunk's cells.
\<close>

section \<open>Definitions\<close>

record TickScratch =
  counts :: "u8 list"  \<comment> \<open>\<^verbatim>\<open>[66 * 66]uint8\<close>\<close>

definition zero_scratch :: TickScratch where
  "zero_scratch = \<lparr>counts = replicate (66 * 66) 0\<rparr>"

text \<open>
  The body of the innermost loops of \<open>addToScratch\<close>: the eight neighbours of the padded position
  \<open>(padX, padY)\<close> are incremented, positions outside the array being skipped.
\<close>

definition addToScratch_cell :: "i64 \<Rightarrow> i64 \<Rightarrow> u8 list \<Rightarrow> u8 list" where
  "addToScratch_cell padX padY =
     fold (\<lambda>dy c.
        let ny = padY + dy in
        if ny <s 0 \<or> 66 \<le>s ny then c
        else let base = ny * 66 in
          fold (\<lambda>dx c.
             if dx = 0 \<and> dy = 0 then c
             else let nx = padX + dx in
               if 0 \<le>s nx \<and> nx <s 66 then incr (unat (base + nx)) c else c)
            [-1, 0, 1] c)
       [-1, 0, 1]"

definition addToScratch :: "rows \<Rightarrow> i64 \<Rightarrow> i64 \<Rightarrow> u8 list \<Rightarrow> u8 list" where
  "addToScratch r offX offY =
     fold (\<lambda>localY c.
        let row = r ! localY in
        if row = 0 then c
        else let padY = offY + of_nat localY in
          for_bits (\<lambda>localX. addToScratch_cell (offX + of_nat localX) padY) row c)
       [0..<ChunkSize]"

definition addToScratch_halo :: "ChunkID \<Rightarrow> ChunkID \<times> rows \<Rightarrow> u8 list \<Rightarrow> u8 list" where
  "addToScratch_halo i h =
     (case h of (nid, nrows) \<Rightarrow>
        addToScratch nrows (1 + (idX nid - idX i) * 64) (1 + (idY nid - idY i) * 64))"

text \<open>The rule applied to one row, the bits of the new row being set one after the other.\<close>

definition TickBitset_row :: "u8 list \<Rightarrow> u64 \<Rightarrow> nat \<Rightarrow> u64" where
  "TickBitset_row c srcRow y =
     (let base = (y + 1) * 66 in
      fold (\<lambda>x newRow.
         let count = c ! (base + (x + 1)) in
         if count = 3 \<or> (count = 2 \<and> drop_bit x srcRow AND 1 = 1)
         then newRow OR push_bit x 1 else newRow)
        [0..<ChunkSize] 0)"

text \<open>
  \<open>TickBitset\<close>: the halos are a Go map in the order of its iteration. The result is the new rows
  and the scratch buffer, zeroed for its next use.
\<close>

definition TickBitset ::
  "ChunkID \<Rightarrow> rows \<Rightarrow> (ChunkID \<times> rows) list \<Rightarrow> TickScratch \<Rightarrow> rows \<times> TickScratch" where
  "TickBitset i chunkRows halos scratch =
     (let own = addToScratch chunkRows 1 1 (counts scratch);
          c = fold (addToScratch_halo i) halos own;
          next = map (\<lambda>y. TickBitset_row c (chunkRows ! y) y) [0..<ChunkSize]
      in (next, scratch\<lparr>counts := replicate (66 * 66) 0\<rparr>))"

definition near_const :: nat where  \<comment> \<open>\<^verbatim>\<open>const near = 2\<close>\<close>
  "near_const = 2"

definition hasCellsNearEdge :: "rows \<Rightarrow> i64 \<Rightarrow> i64 \<Rightarrow> bool" where
  "hasCellsNearEdge r dx dy =
     (let xMask = (if dx = -1 then push_bit (near_const + 1) 1 - 1
                   else if dx = 1 then push_bit (ChunkSize - 1 - near_const) (NOT 0)
                   else NOT 0) :: u64;
          yMax = (if dy = -1 then near_const else ChunkSize - 1);
          yMin = (if dy = 1 then ChunkSize - 1 - near_const else 0)
      in list_ex (\<lambda>y. r ! y AND xMask \<noteq> 0) [yMin..<yMax + 1])"

section \<open>The neighbour counts as increments of an array\<close>

text \<open>The array positions that a live cell at padded position \<open>(px, py)\<close> increments.\<close>

definition slot :: "int \<Rightarrow> int \<Rightarrow> nat list" where
  "slot py px = (if 0 \<le> py \<and> py < 66 \<and> 0 \<le> px \<and> px < 66 then [nat (py * 66 + px)] else [])"

definition touched :: "int \<Rightarrow> int \<Rightarrow> nat list" where
  "touched px py =
     slot (py - 1) (px - 1) @ slot (py - 1) px @ slot (py - 1) (px + 1) @
     slot py (px - 1) @ slot py (px + 1) @
     slot (py + 1) (px - 1) @ slot (py + 1) px @ slot (py + 1) (px + 1)"

lemma sint_small:
  assumes "\<bar>sint a + k\<bar> < 2 ^ 63"
  shows "sint (a + word_of_int k :: i64) = sint a + k"
proof -
  have "a + word_of_int k = word_of_int (sint a + k)" by simp
  then have "sint (a + word_of_int k) = signed_take_bit 63 (sint a + k)"
    by (simp only: sint_sbintrunc') simp
  also have "\<dots> = sint a + k"
    using assms by (intro signed_take_bit_int_eq_self) auto
  finally show ?thesis .
qed

lemma sint_nonneg_uint:
  assumes "0 \<le> sint (a :: i64)"
  shows "uint a = sint a"
proof -
  have "uint a = sint a mod 2 ^ 64" by (simp add: uint_sint take_bit_eq_mod)
  also have "\<dots> = sint a"
    using assms sint_lt[of a] by (intro mod_pos_pos_trivial) auto
  finally show ?thesis .
qed

lemma unat_index:
  assumes "0 \<le> sint ny" "sint ny < 66" "0 \<le> sint nx" "sint nx < 66"
  shows "unat (ny * 66 + nx :: i64) = nat (sint ny * 66 + sint nx)"
proof -
  have "uint (ny * 66 + nx) = (uint ny * 66 + uint nx) mod 2 ^ 64"
    by (simp add: uint_word_ariths mod_simps)
  also have "\<dots> = sint ny * 66 + sint nx"
    using assms by (simp add: sint_nonneg_uint)
  finally show ?thesis by (simp flip: nat_uint_eq)
qed

definition bump :: "i64 \<Rightarrow> i64 \<Rightarrow> u8 list \<Rightarrow> u8 list" where
  "bump ny nx c =
     (if ny <s 0 \<or> 66 \<le>s ny then c
      else if 0 \<le>s nx \<and> nx <s 66 then incr (unat (ny * 66 + nx)) c else c)"

lemma bump_slot: "bump ny nx c = fold incr (slot (sint ny) (sint nx)) c"
  by (auto simp: bump_def slot_def word_sless_alt word_sle_eq not_less not_le unat_index)

definition addToScratch_line :: "i64 \<Rightarrow> i64 \<Rightarrow> i64 \<Rightarrow> u8 list \<Rightarrow> u8 list" where
  "addToScratch_line padX padY dy c =
     (if dy = 0 then bump padY (padX + 1) (bump padY (padX - 1) c)
      else bump (padY + dy) (padX + 1) (bump (padY + dy) padX (bump (padY + dy) (padX - 1) c)))"

lemma addToScratch_line_loop:
  "addToScratch_line padX padY dy c =
     (let ny = padY + dy in
      if ny <s 0 \<or> 66 \<le>s ny then c
      else let base = ny * 66 in
        fold (\<lambda>dx c.
           if dx = 0 \<and> dy = 0 then c
           else let nx = padX + dx in
             if 0 \<le>s nx \<and> nx <s 66 then incr (unat (base + nx)) c else c)
          [-1, 0, 1] c)"
proof (cases "padY + dy <s 0 \<or> 66 \<le>s padY + dy")
  case True
  then have "bump (padY + dy) nx k = k" for nx k unfolding bump_def by simp
  then show ?thesis
    using True unfolding addToScratch_line_def Let_def by (cases "dy = 0") simp_all
next
  case False
  then have b: "bump (padY + dy) nx k =
      (if 0 \<le>s nx \<and> nx <s 66 then incr (unat ((padY + dy) * 66 + nx)) k else k)" for nx k
    unfolding bump_def by simp
  show ?thesis
  proof (cases "dy = 0")
    case True
    with b False show ?thesis
      unfolding addToScratch_line_def Let_def by (simp split del: if_split cong: if_cong)
  next
    case dy: False
    show ?thesis
      unfolding addToScratch_line_def Let_def b using dy False by (simp split del: if_split cong: if_cong)
  qed
qed

lemma addToScratch_cell_bump:
  "addToScratch_cell padX padY c =
     bump (padY + 1) (padX + 1) (bump (padY + 1) padX (bump (padY + 1) (padX - 1)
       (bump padY (padX + 1) (bump padY (padX - 1)
         (bump (padY - 1) (padX + 1) (bump (padY - 1) padX (bump (padY - 1) (padX - 1) c)))))))"
proof -
  have "addToScratch_cell padX padY c = fold (addToScratch_line padX padY) [-1, 0, 1] c"
    unfolding addToScratch_cell_def addToScratch_line_loop[abs_def] ..
  also have "\<dots> = addToScratch_line padX padY 1 (addToScratch_line padX padY 0
      (addToScratch_line padX padY (-1) c))" by simp
  also have "\<dots> = bump (padY + 1) (padX + 1) (bump (padY + 1) padX (bump (padY + 1) (padX - 1)
       (bump padY (padX + 1) (bump padY (padX - 1)
         (bump (padY + -1) (padX + 1) (bump (padY + -1) padX (bump (padY + -1) (padX - 1) c)))))))"
    unfolding addToScratch_line_def by simp
  finally show ?thesis by simp
qed

lemma addToScratch_cell_touched:
  assumes "\<bar>sint padX\<bar> < 1000" "\<bar>sint padY\<bar> < 1000"
  shows "addToScratch_cell padX padY c = fold incr (touched (sint padX) (sint padY)) c"
proof -
  have s: "sint (a + 1) = sint a + 1" "sint (a - 1) = sint a - 1" if "\<bar>sint a\<bar> < 1000" for a :: i64
    using sint_small[of a 1] sint_small[of a "-1"] that by simp_all
  show ?thesis
    unfolding addToScratch_cell_bump bump_slot s[OF assms(1)] s[OF assms(2)] touched_def
    by (simp only: fold_append comp_def)
qed

text \<open>The cells of a bitset in the order in which \<open>addToScratch\<close> visits them.\<close>

definition cells_list :: "rows \<Rightarrow> (nat \<times> nat) list" where
  "cells_list r = concat (map (\<lambda>y. map (\<lambda>x. (x, y)) (set_bits_list (r ! y))) [0..<64])"

lemma set_cells_list: "wf_rows r \<Longrightarrow> set (cells_list r) = live r"
  by (auto simp: cells_list_def set_set_bits_list live_def alive_def wf_rows_def ChunkSize_def)

lemma distinct_cells_list: "distinct (cells_list r)"
proof -
  have "distinct (concat (map (\<lambda>y. map (\<lambda>x. (x, y)) (set_bits_list (r ! y))) ys))" if "distinct ys" for ys
    using that
    by (induction ys) (auto simp: distinct_map inj_on_def distinct_set_bits_list)
  then show ?thesis by (simp add: cells_list_def)
qed

lemma addToScratch_cells:
  "addToScratch r offX offY c =
     fold (\<lambda>(x, y). addToScratch_cell (offX + of_nat x) (offY + of_nat y)) (cells_list r) c"
proof -
  let ?f = "\<lambda>(x, y). addToScratch_cell (offX + of_nat x) (offY + of_nat y)"
  have row: "(if r ! y = 0 then k else for_bits (\<lambda>x. addToScratch_cell (offX + of_nat x) (offY + of_nat y)) (r ! y) k)
      = fold ?f (map (\<lambda>x. (x, y)) (set_bits_list (r ! y))) k" for y k
    by (simp add: for_bits_fold fold_map comp_def set_bits_list_def)
  show ?thesis
    unfolding addToScratch_def cells_list_def fold_concat_eq fold_map comp_def Let_def row ChunkSize_def
    by (simp add: comp_def)
qed

lemma addToScratch_incr:
  assumes "\<bar>sint offX\<bar> < 200" "\<bar>sint offY\<bar> < 200" "wf_rows r"
  shows "addToScratch r offX offY c =
    fold incr (concat (map (\<lambda>(x, y). touched (sint offX + int x) (sint offY + int y)) (cells_list r))) c"
proof -
  have cell: "addToScratch_cell (offX + of_nat x) (offY + of_nat y) k =
      fold incr (touched (sint offX + int x) (sint offY + int y)) k"
    if "(x, y) \<in> set (cells_list r)" for x y k
  proof -
    have "x < 64" "y < 64" using that assms(3) live_subset[of r] by (auto simp: set_cells_list)
    then have "sint (offX + of_nat x) = sint offX + int x" "sint (offY + of_nat y) = sint offY + int y"
      using sint_small[of offX "int x"] sint_small[of offY "int y"] assms(1,2) by simp_all
    then show ?thesis
      using addToScratch_cell_touched[of "offX + of_nat x" "offY + of_nat y" k] assms(1,2) \<open>x < 64\<close> \<open>y < 64\<close>
      by simp
  qed
  have "addToScratch r offX offY c =
      fold (\<lambda>(x, y). fold incr (touched (sint offX + int x) (sint offY + int y))) (cells_list r) c"
    unfolding addToScratch_cells by (rule fold_cong) (auto simp: cell)
  also have "\<dots> = fold incr (concat (map (\<lambda>(x, y). touched (sint offX + int x) (sint offY + int y)) (cells_list r))) c"
    by (simp add: fold_concat_eq fold_map comp_def case_prod_unfold)
  finally show ?thesis .
qed

lemma count_list_slot:
  assumes "0 \<le> a" "a < 66" "0 \<le> b" "b < 66"
  shows "count_list (slot py px) (nat (b * 66 + a)) = (if py = b \<and> px = a then 1 else 0)"
proof -
  have "nat (py * 66 + px) = nat (b * 66 + a) \<longleftrightarrow> py = b \<and> px = a"
    if "0 \<le> py" "py < 66" "0 \<le> px" "px < 66"
  proof
    assume "nat (py * 66 + px) = nat (b * 66 + a)"
    then have "py * 66 + px = b * 66 + a" using that assms by simp
    then have "(py * 66 + px) div 66 = (b * 66 + a) div 66" "(py * 66 + px) mod 66 = (b * 66 + a) mod 66"
      by simp_all
    then show "py = b \<and> px = a" using that assms by simp
  qed simp
  then show ?thesis using assms by (auto simp: slot_def)
qed

lemma eight_indicators:
  fixes u v :: int
  shows "(if v = -1 \<and> u = -1 then 1 else 0) + ((if v = -1 \<and> u = 0 then 1 else 0) +
    ((if v = -1 \<and> u = 1 then 1 else 0) + ((if v = 0 \<and> u = -1 then 1 else 0) +
    ((if v = 0 \<and> u = 1 then 1 else 0) + ((if v = 1 \<and> u = -1 then 1 else 0) +
    ((if v = 1 \<and> u = 0 then 1 else 0) + (if v = 1 \<and> u = 1 then 1 else (0::nat)))))))) =
    (if \<bar>u\<bar> \<le> 1 \<and> \<bar>v\<bar> \<le> 1 \<and> \<not> (u = 0 \<and> v = 0) then 1 else 0)"
proof (cases "\<bar>u\<bar> \<le> 1 \<and> \<bar>v\<bar> \<le> 1")
  case True
  then have "u = -1 \<or> u = 0 \<or> u = 1" "v = -1 \<or> v = 0 \<or> v = 1" by auto
  then show ?thesis by (elim disjE) simp_all
next
  case False
  then have "u \<notin> {-1, 0, 1} \<or> v \<notin> {-1, 0, 1}" by auto
  with False show ?thesis by (elim disjE) simp_all
qed

lemma count_list_touched:
  assumes "0 \<le> a" "a < 66" "0 \<le> b" "b < 66"
  shows "count_list (touched px py) (nat (b * 66 + a)) =
    (if \<bar>a - px\<bar> \<le> 1 \<and> \<bar>b - py\<bar> \<le> 1 \<and> \<not> (a = px \<and> b = py) then 1 else 0)"
proof -
  have e: "py - 1 = b \<longleftrightarrow> b - py = -1" "py = b \<longleftrightarrow> b - py = 0" "py + 1 = b \<longleftrightarrow> b - py = 1"
    "px - 1 = a \<longleftrightarrow> a - px = -1" "px = a \<longleftrightarrow> a - px = 0" "px + 1 = a \<longleftrightarrow> a - px = 1"
    "a = px \<longleftrightarrow> a - px = 0" "b = py \<longleftrightarrow> b - py = 0" by auto
  show ?thesis
    unfolding touched_def count_list_append count_list_slot[OF assms] e by (rule eight_indicators)
qed

lemma count_list_concat: "count_list (concat xss) j = sum_list (map (\<lambda>xs. count_list xs j) xss)"
  by (induction xss) simp_all

lemma sum_list_indicator: "sum_list (map (\<lambda>x. if P x then 1 else 0) xs) = length (filter P xs)"
  by (induction xs) simp_all

lemma addToScratch_count:
  assumes "\<bar>sint offX\<bar> < 200" "\<bar>sint offY\<bar> < 200" "wf_rows r"
    and "0 \<le> a" "a < 66" "0 \<le> b" "b < 66" and "length c = 66 * 66"
  shows "addToScratch r offX offY c ! nat (b * 66 + a) = c ! nat (b * 66 + a) +
    of_nat (card {(x, y) \<in> live r. \<bar>a - (sint offX + int x)\<bar> \<le> 1 \<and> \<bar>b - (sint offY + int y)\<bar> \<le> 1 \<and>
                                 \<not> (a = sint offX + int x \<and> b = sint offY + int y)})"
proof -
  define P where "P = (\<lambda>(x, y). \<bar>a - (sint offX + int x)\<bar> \<le> 1 \<and> \<bar>b - (sint offY + int y)\<bar> \<le> 1 \<and>
                                 \<not> (a = sint offX + int x \<and> b = sint offY + int y))"
  let ?is = "concat (map (\<lambda>(x, y). touched (sint offX + int x) (sint offY + int y)) (cells_list r))"
  have "count_list ?is (nat (b * 66 + a)) = sum_list (map (\<lambda>p. if P p then 1 else 0) (cells_list r))"
    by (simp add: count_list_concat comp_def case_prod_unfold count_list_touched assms P_def)
  also have "\<dots> = card (set (filter P (cells_list r)))"
    by (simp only: sum_list_indicator distinct_card distinct_filter distinct_cells_list)
  also have "set (filter P (cells_list r)) = {p \<in> live r. P p}"
    by (simp add: set_cells_list assms)
  finally have "count_list ?is (nat (b * 66 + a)) = card {p \<in> live r. P p}" .
  moreover have "nat (b * 66 + a) < length c" using assms by simp
  ultimately show ?thesis
    unfolding addToScratch_incr[OF assms(1-3)] by (simp add: nth_fold_incr P_def case_prod_unfold)
qed

lemma length_addToScratch:
  assumes "\<bar>sint offX\<bar> < 200" "\<bar>sint offY\<bar> < 200" "wf_rows r"
  shows "length (addToScratch r offX offY c) = length c"
  unfolding addToScratch_incr[OF assms] by simp

section \<open>Neighbouring chunks\<close>

definition neighbourOffsets :: "(i64 \<times> i64) list" where
  "neighbourOffsets =
     [(-1, -1), (0, -1), (1, -1),
      (-1, 0), (1, 0),
      (-1, 1), (0, 1), (1, 1)]"

definition shift_id :: "ChunkID \<Rightarrow> i64 \<times> i64 \<Rightarrow> ChunkID" where
  "shift_id i d = ChunkID (idX i + fst d) (idY i + snd d)"

definition neighbours :: "ChunkID \<Rightarrow> ChunkID set" where
  "neighbours i = shift_id i ` set neighbourOffsets"

lemma neighbourOffsets_cases:
  assumes "d \<in> set neighbourOffsets"
  obtains dx dy :: int where "\<bar>dx\<bar> \<le> 1" "\<bar>dy\<bar> \<le> 1" "d = (word_of_int dx, word_of_int dy)"
    "\<not> (dx = 0 \<and> dy = 0)"
  using assms that[of "-1" "-1"] that[of 0 "-1"] that[of 1 "-1"] that[of "-1" 0] that[of 1 0]
    that[of "-1" 1] that[of 0 1] that[of 1 1]
  by (auto simp: neighbourOffsets_def)

lemma neighbourOffsets_mem:
  assumes "\<bar>dx\<bar> \<le> 1" "\<bar>dy\<bar> \<le> 1" "\<not> (dx = 0 \<and> dy = (0 :: int))"
  shows "(word_of_int dx, word_of_int dy) \<in> set neighbourOffsets"
proof -
  from assms have "dx = -1 \<or> dx = 0 \<or> dx = 1" "dy = -1 \<or> dy = 0 \<or> dy = 1" by auto
  with assms(3) show ?thesis by (elim disjE) (simp_all add: neighbourOffsets_def)
qed

lemma neighbours_cases:
  assumes "n \<in> insert i (neighbours i)"
  obtains dx dy :: int where "\<bar>dx\<bar> \<le> 1" "\<bar>dy\<bar> \<le> 1" "n = shift_id i (word_of_int dx, word_of_int dy)"
proof -
  consider "n = shift_id i (word_of_int 0, word_of_int 0)" | d where "d \<in> set neighbourOffsets" "n = shift_id i d"
    using assms by (auto simp: neighbours_def shift_id_def)
  then show thesis
  proof cases
    case 1
    show thesis by (rule that[OF _ _ 1]) simp_all
  next
    case 2
    then show thesis using that by (auto elim: neighbourOffsets_cases)
  qed
qed

lemma self_not_neighbour: "i \<notin> neighbours i"
  by (cases i) (auto simp: neighbours_def shift_id_def neighbourOffsets_def)

lemma neighbours_sym: "n \<in> neighbours i \<longleftrightarrow> i \<in> neighbours n"
proof -
  have "i \<in> neighbours n" if "n \<in> neighbours i" for i n
  proof -
    from that obtain d where d: "d \<in> set neighbourOffsets" "n = shift_id i d" unfolding neighbours_def by (elim imageE)
    from d(1) obtain dx dy :: int where e: "\<bar>dx\<bar> \<le> 1" "\<bar>dy\<bar> \<le> 1" "d = (word_of_int dx, word_of_int dy)"
      "\<not> (dx = 0 \<and> dy = 0)" by (rule neighbourOffsets_cases)
    have "(word_of_int (- dx), word_of_int (- dy)) \<in> set neighbourOffsets"
      by (rule neighbourOffsets_mem) (use e in auto)
    moreover have "shift_id n (word_of_int (- dx), word_of_int (- dy)) = i"
      by (simp add: d(2) e(3) shift_id_def)
    ultimately show ?thesis unfolding neighbours_def by (metis imageI)
  qed
  then show ?thesis by blast
qed

lemma gcell_shift:
  "gcell (shift_id i (word_of_int dx, word_of_int dy)) (u, v) =
     (gcoord (idX i) (int u + 64 * dx), gcoord (idY i) (int v + 64 * dy))"
  by (simp add: gcell_def shift_id_def gcoord_shift)

lemma moore_shift:
  assumes "\<bar>dx\<bar> \<le> 1" "\<bar>dy\<bar> \<le> 1" "u < 64" "v < 64" "x < 64" "y < 64"
  shows "gcell (shift_id i (word_of_int dx, word_of_int dy)) (u, v) \<in> set (moore_list (gcell i (x, y))) \<longleftrightarrow>
    \<bar>int x - (int u + 64 * dx)\<bar> \<le> 1 \<and> \<bar>int y - (int v + 64 * dy)\<bar> \<le> 1 \<and>
    \<not> (int x = int u + 64 * dx \<and> int y = int v + 64 * dy)"
proof -
  have b: "\<bar>int x - (int u + 64 * dx)\<bar> < 1000" "\<bar>int y - (int v + 64 * dy)\<bar> < 1000" using assms by auto
  have g: "gcell i (x, y) = (gcoord (idX i) (int x), gcoord (idY i) (int y))" by (simp add: gcell_def)
  have "(h1, h2) \<noteq> (k1, k2) \<longleftrightarrow> \<not> (k1 = h1 \<and> k2 = h2)" for h1 h2 k1 k2 :: coord by auto
  then show ?thesis
    unfolding moore_iff gcell_shift g fst_conv snd_conv
    by (simp only: gcoord_near[OF b(1)] gcoord_near[OF b(2)] abs_minus_commute)
qed

lemma sint_halo_offset:
  assumes "\<bar>d\<bar> \<le> 1"
  shows "sint (1 + (c + word_of_int d - c) * 64 :: i64) = 1 + 64 * d"
proof -
  from assms have "d = -1 \<or> d = 0 \<or> d = 1" by auto
  then show ?thesis by (elim disjE) (simp_all)
qed

definition centre :: "nat \<Rightarrow> nat \<Rightarrow> nat" where
  "centre x y = (y + 1) * 66 + (x + 1)"

lemma halo_offsets:
  assumes "n \<in> insert i (neighbours i)"
  obtains dx dy offX offY where "\<bar>dx\<bar> \<le> 1" "\<bar>dy\<bar> \<le> 1"
    "n = shift_id i (word_of_int dx, word_of_int dy)"
    "\<And>r. addToScratch_halo i (n, r) = addToScratch r offX offY"
    "sint offX = 1 + 64 * dx" "sint offY = 1 + 64 * dy" "\<bar>sint offX\<bar> < 200" "\<bar>sint offY\<bar> < 200"
proof -
  from assms obtain dx dy where d: "\<bar>dx\<bar> \<le> 1" "\<bar>dy\<bar> \<le> 1" "n = shift_id i (word_of_int dx, word_of_int dy)"
    by (rule neighbours_cases)
  have "sint (1 + (idX n - idX i) * 64) = 1 + 64 * dx" "sint (1 + (idY n - idY i) * 64) = 1 + 64 * dy"
    unfolding d(3) shift_id_def by (simp_all only: ChunkID.sel fst_conv snd_conv sint_halo_offset d)
  moreover have "\<bar>1 + 64 * dx\<bar> < 200" "\<bar>1 + 64 * dy\<bar> < 200" using d by auto
  ultimately show thesis
    by (intro that[of dx dy "1 + (idX n - idX i) * 64" "1 + (idY n - idY i) * 64"])
       (simp_all only: d addToScratch_halo_def prod.case)
qed

lemma addToScratch_halo_count:
  assumes n: "n \<in> insert i (neighbours i)" and r: "wf_rows r" and xy: "x < 64" "y < 64"
    and c: "length c = 66 * 66"
  shows "addToScratch_halo i (n, r) c ! centre x y =
    c ! centre x y + of_nat (card (cells_of n r \<inter> set (moore_list (gcell i (x, y)))))"
proof -
  from n obtain dx dy offX offY where d: "\<bar>dx\<bar> \<le> 1" "\<bar>dy\<bar> \<le> 1"
    and n': "n = shift_id i (word_of_int dx, word_of_int dy)"
    and h: "\<And>r. addToScratch_halo i (n, r) = addToScratch r offX offY"
    and off: "sint offX = 1 + 64 * dx" "sint offY = 1 + 64 * dy" "\<bar>sint offX\<bar> < 200" "\<bar>sint offY\<bar> < 200"
    by (rule halo_offsets) blast
  have ix: "centre x y = nat ((int y + 1) * 66 + (int x + 1))"
    by (simp add: centre_def nat_add_distrib nat_mult_distrib)
  let ?S = "{(u, v) \<in> live r. gcell n (u, v) \<in> set (moore_list (gcell i (x, y)))}"
  have eq: "{(u, v) \<in> live r. \<bar>(int x + 1) - (sint offX + int u)\<bar> \<le> 1 \<and> \<bar>(int y + 1) - (sint offY + int v)\<bar> \<le> 1 \<and>
        \<not> (int x + 1 = sint offX + int u \<and> int y + 1 = sint offY + int v)} = ?S"
    using live_subset[OF r] xy d unfolding n' off(1,2)
    by (intro Collect_cong) (auto simp: moore_shift algebra_simps)
  have img: "cells_of n r \<inter> set (moore_list (gcell i (x, y))) = gcell n ` ?S"
    by (auto simp: cells_of_def)
  have card: "card (gcell n ` ?S) = card ?S"
    by (rule card_image, rule inj_on_subset[OF inj_on_gcell]) (use live_subset[OF r] in auto)
  have b: "0 \<le> int x + 1" "int x + 1 < 66" "0 \<le> int y + 1" "int y + 1 < 66" using xy by simp_all
  show ?thesis
    unfolding h ix img card by (rule addToScratch_count[OF off(3,4) r b c, unfolded eq])
qed

lemma length_addToScratch_halo:
  assumes n: "n \<in> insert i (neighbours i)" and r: "wf_rows r"
  shows "length (addToScratch_halo i (n, r) c) = length c"
proof -
  from n obtain offX offY where "\<And>r. addToScratch_halo i (n, r) = addToScratch r offX offY"
    "\<bar>sint offX\<bar> < 200" "\<bar>sint offY\<bar> < 200" by (rule halo_offsets) blast
  then show ?thesis by (simp add: length_addToScratch r)
qed

section \<open>One generation of one chunk\<close>

text \<open>What a chunk sees: its own cells and those of the halos it was given.\<close>

definition halo_cells :: "(ChunkID \<times> rows) list \<Rightarrow> board" where
  "halo_cells hs = (\<Union>(n, r)\<in>set hs. cells_of n r)"

definition valid_halos :: "ChunkID set \<Rightarrow> (ChunkID \<times> rows) list \<Rightarrow> bool" where
  "valid_halos N hs \<longleftrightarrow>
     distinct (map fst hs) \<and> fst ` set hs \<subseteq> N \<and> (\<forall>r\<in>snd ` set hs. wf_rows r)"

lemma halo_cells_Nil [simp]: "halo_cells [] = {}"
  by (simp add: halo_cells_def)

lemma halo_cells_Cons [simp]: "halo_cells ((n, r) # hs) = cells_of n r \<union> halo_cells hs"
  by (simp add: halo_cells_def)

lemma valid_halos_Nil [simp]: "valid_halos N []"
  by (simp add: valid_halos_def)

lemma valid_halos_Cons [simp]:
  "valid_halos N ((n, r) # hs) \<longleftrightarrow> n \<in> N \<and> n \<notin> fst ` set hs \<and> wf_rows r \<and> valid_halos N hs"
  by (auto simp: valid_halos_def)

lemma cells_of_halo_disjoint:
  assumes "wf_rows r" "valid_halos N hs" "n \<notin> fst ` set hs"
  shows "cells_of n r \<inter> halo_cells hs = {}"
proof -
  have "cells_of n r \<inter> cells_of m r' = {}" if "(m, r') \<in> set hs" for m r'
  proof -
    have "m \<noteq> n" and "wf_rows r'" using that assms by (force simp: valid_halos_def)+
    then show ?thesis using area_disjoint[of n m] cells_of_area[of r n] cells_of_area[of r' m] assms(1) by blast
  qed
  then show ?thesis by (auto simp: halo_cells_def)
qed

lemma fold_halo_count:
  assumes "valid_halos (insert i (neighbours i)) hs" and "x < 64" "y < 64" and "length c = 66 * 66"
  shows "length (fold (addToScratch_halo i) hs c) = 66 * 66 \<and>
    fold (addToScratch_halo i) hs c ! centre x y =
      c ! centre x y + of_nat (card (halo_cells hs \<inter> set (moore_list (gcell i (x, y)))))"
  using assms(1,4)
proof (induction hs arbitrary: c)
  case Nil
  then show ?case by simp
next
  case (Cons h hs)
  obtain n r where h: "h = (n, r)" by (cases h)
  let ?M = "set (moore_list (gcell i (x, y)))" and ?c = "addToScratch_halo i (n, r) c"
  have n: "n \<in> insert i (neighbours i)" and r: "wf_rows r" and hs: "valid_halos (insert i (neighbours i)) hs"
    and new: "n \<notin> fst ` set hs" using Cons.prems by (auto simp: h)
  have len: "length ?c = 66 * 66" using length_addToScratch_halo[OF n r] Cons.prems by simp
  have "card ((cells_of n r \<union> halo_cells hs) \<inter> ?M) = card (cells_of n r \<inter> ?M) + card (halo_cells hs \<inter> ?M)"
    unfolding Int_Un_distrib2
    by (rule card_Un_disjoint) (use cells_of_halo_disjoint[OF r hs new] in auto)
  with Cons.IH[OF hs len] addToScratch_halo_count[OF n r assms(2,3) Cons.prems(2)]
  show ?case by (simp add: h)
qed

lemma bit_fold_or:
  "bit (fold (\<lambda>x w. if P x then w OR 2 ^ x else w) xs w0) n \<longleftrightarrow>
     bit w0 n \<or> (n \<in> set xs \<and> P n \<and> n < 64)" for w0 :: u64
  by (induction xs arbitrary: w0) (auto simp: bit_set_iff)

lemma drop_bit_and_1: "drop_bit x w AND 1 = 1 \<longleftrightarrow> bit w x" for w :: u64
  by (simp add: and_one_eq bit_iff_odd_drop_bit odd_iff_mod_2_eq_one)

lemma bit_TickBitset_row:
  "bit (TickBitset_row c srcRow y) x \<longleftrightarrow>
     x < 64 \<and> (c ! centre x y = 3 \<or> (c ! centre x y = 2 \<and> bit srcRow x))"
proof -
  have "TickBitset_row c srcRow y =
      fold (\<lambda>x w. if c ! centre x y = 3 \<or> (c ! centre x y = 2 \<and> bit srcRow x) then w OR 2 ^ x else w) [0..<64] 0"
    by (simp add: TickBitset_row_def Let_def drop_bit_and_1 centre_def ChunkSize_def cong: if_cong)
  then show ?thesis by (auto simp: bit_fold_or)
qed

lemma of_nat_u8_eq: "k \<le> 8 \<Longrightarrow> m \<le> 8 \<Longrightarrow> (of_nat k :: u8) = of_nat m \<longleftrightarrow> k = m"
  by (simp add: of_nat_eq_iff word_of_nat_eq_iff take_bit_nat_eq_self)

lemma TickBitset_scratch: "snd (TickBitset i r hs sc) = sc\<lparr>counts := replicate (66 * 66) 0\<rparr>"
  by (simp add: TickBitset_def Let_def)

lemma wf_TickBitset [wf_simps]: "wf_rows (fst (TickBitset i r hs sc))"
  by (simp add: TickBitset_def Let_def wf_rows_def)

lemma own_as_halo: "addToScratch r 1 1 = addToScratch_halo i (i, r)"
  by (simp add: addToScratch_halo_def)

lemma alive_TickBitset:
  assumes "wf_rows r" "valid_halos (neighbours i) hs" "x < 64" "y < 64"
  shows "alive (fst (TickBitset i r hs zero_scratch)) x y \<longleftrightarrow>
    gcell i (x, y) \<in> life_step (cells_of i r \<union> halo_cells hs)"
proof -
  let ?B = "cells_of i r \<union> halo_cells hs" and ?g = "gcell i (x, y)"
  let ?c = "fold (addToScratch_halo i) ((i, r) # hs) (counts zero_scratch)"
  have all: "valid_halos (insert i (neighbours i)) ((i, r) # hs)"
    using assms(1,2) self_not_neighbour[of i] by (auto simp: valid_halos_def)
  have "counts zero_scratch ! centre x y = 0"
    using assms(3,4) by (simp add: zero_scratch_def centre_def)
  then have cnt: "?c ! centre x y = of_nat (life_count ?B ?g)"
    using fold_halo_count[OF all assms(3,4), of "counts zero_scratch"]
    by (simp add: zero_scratch_def life_count_card)
  have "?g \<in> cells_of i r \<longleftrightarrow> alive r x y"
    using assms by (simp add: gcell_in_cells_of)
  moreover have "?g \<notin> halo_cells hs"
  proof -
    have "cells_of i (r[y := 2 ^ x]) \<inter> halo_cells hs = {}"
      by (rule cells_of_halo_disjoint[OF _ assms(2)])
         (use assms self_not_neighbour[of i] in \<open>auto simp: valid_halos_def\<close>)
    moreover have "?g \<in> cells_of i (r[y := 2 ^ x])"
      using assms by (simp add: gcell_in_cells_of alive_def wf_rows_def ChunkSize_def bit_simps)
    ultimately show ?thesis by blast
  qed
  ultimately have own: "?g \<in> ?B \<longleftrightarrow> bit (r ! y) x"
    using assms by (simp add: alive_def wf_rows_def ChunkSize_def)
  have "alive (fst (TickBitset i r hs zero_scratch)) x y \<longleftrightarrow> bit (TickBitset_row ?c (r ! y) y) x"
    using assms by (simp add: TickBitset_def Let_def alive_def ChunkSize_def own_as_halo[of r i])
  also have "\<dots> \<longleftrightarrow> life_count ?B ?g = 3 \<or> (life_count ?B ?g = 2 \<and> ?g \<in> ?B)"
    unfolding bit_TickBitset_row cnt own
    using of_nat_u8_eq[OF life_count_le, of 3 ?B ?g] of_nat_u8_eq[OF life_count_le, of 2 ?B ?g] assms(3) by simp
  finally show ?thesis by (simp add: life_step_def)
qed

lemma cells_of_TickBitset:
  assumes "wf_rows r" "valid_halos (neighbours i) hs"
  shows "cells_of i (fst (TickBitset i r hs zero_scratch)) =
    life_step (cells_of i r \<union> halo_cells hs) \<inter> area i"
proof (intro set_eqI iffI)
  let ?r' = "fst (TickBitset i r hs zero_scratch)"
  fix g
  show "g \<in> cells_of i ?r' \<Longrightarrow> g \<in> life_step (cells_of i r \<union> halo_cells hs) \<inter> area i"
    using cells_of_area[OF wf_TickBitset, of i i r hs zero_scratch]
    by (auto simp: area_def alive_TickBitset[OF assms] gcell_in_cells_of wf_simps)
  show "g \<in> life_step (cells_of i r \<union> halo_cells hs) \<inter> area i \<Longrightarrow> g \<in> cells_of i ?r'"
    by (auto simp: area_def alive_TickBitset[OF assms] gcell_in_cells_of wf_simps)
qed

section \<open>The order of the halos\<close>

interpretation slot_steps: commuting_steps "\<lambda>(ny, nx). bump ny nx"
proof
  fix p q and c :: "u8 list"
  show "(case p of (ny, nx) \<Rightarrow> bump ny nx) ((case q of (ny, nx) \<Rightarrow> bump ny nx) c) =
      (case q of (ny, nx) \<Rightarrow> bump ny nx) ((case p of (ny, nx) \<Rightarrow> bump ny nx) c)"
    by (simp add: case_prod_unfold bump_slot incr_steps.fold_fold_swap)
qed

definition bumps :: "i64 \<times> i64 \<Rightarrow> (i64 \<times> i64) list" where
  "bumps p = (case p of (x, y) \<Rightarrow>
     [(y - 1, x - 1), (y - 1, x), (y - 1, x + 1), (y, x - 1), (y, x + 1),
      (y + 1, x - 1), (y + 1, x), (y + 1, x + 1)])"

lemma addToScratch_cell_bumps:
  "addToScratch_cell x y = fold (\<lambda>(ny, nx). bump ny nx) (bumps (x, y))"
  by (rule ext) (simp add: addToScratch_cell_bump bumps_def)

lemma addToScratch_bumps:
  "addToScratch r offX offY =
     fold (\<lambda>(ny, nx). bump ny nx)
       (concat (map (\<lambda>(x, y). bumps (offX + of_nat x, offY + of_nat y)) (cells_list r)))"
  by (rule ext) (simp add: addToScratch_cells fold_concat_eq fold_map comp_def case_prod_unfold
      addToScratch_cell_bumps[unfolded case_prod_unfold])

interpretation halo_steps: commuting_steps "addToScratch_halo i" for i
  by unfold_locales (simp add: addToScratch_halo_def addToScratch_bumps case_prod_unfold
      slot_steps.fold_fold_swap[unfolded case_prod_unfold])

section \<open>Which neighbours need the cells of a chunk\<close>

lemma bit_low_mask: "bit (7 :: u64) x \<longleftrightarrow> x < 3"
proof -
  have "(7 :: u64) = mask 3" by (simp add: mask_eq_exp_minus_1)
  then have "bit (7 :: u64) x \<longleftrightarrow> bit (mask 3 :: u64) x" by (simp only:)
  then show ?thesis by (auto simp: bit_mask_iff simp del: mask_numeral)
qed

lemma bit_high_mask: "x < 64 \<Longrightarrow> bit (push_bit 61 (NOT 0) :: u64) x \<longleftrightarrow> 61 \<le> x"
  by (auto simp: bit_simps)

lemma hasCellsNearEdge_iff:
  assumes "wf_rows r"
  shows "hasCellsNearEdge r dx dy \<longleftrightarrow>
    (\<exists>(x, y)\<in>live r. (dx = -1 \<longrightarrow> x \<le> 2) \<and> (dx = 1 \<longrightarrow> 61 \<le> x) \<and>
                    (dy = -1 \<longrightarrow> y \<le> 2) \<and> (dy = 1 \<longrightarrow> 61 \<le> y))"
proof -
  define xMask :: u64 where
    "xMask = (if dx = -1 then push_bit (near_const + 1) 1 - 1
              else if dx = 1 then push_bit (ChunkSize - 1 - near_const) (NOT 0) else NOT 0)"
  define yMax where "yMax = (if dy = -1 then near_const else ChunkSize - 1)"
  define yMin where "yMin = (if dy = 1 then ChunkSize - 1 - near_const else 0)"
  have mask: "bit xMask x \<longleftrightarrow> (dx = -1 \<longrightarrow> x \<le> 2) \<and> (dx = 1 \<longrightarrow> 61 \<le> x)" if "x < 64" for x
    using that bit_low_mask[of x] bit_high_mask[of x]
    by (auto simp: xMask_def near_const_def ChunkSize_def bit_simps)
  have row: "r ! y AND xMask \<noteq> 0 \<longleftrightarrow> (\<exists>x<64. bit (r ! y) x \<and> (dx = -1 \<longrightarrow> x \<le> 2) \<and> (dx = 1 \<longrightarrow> 61 \<le> x))" for y
    using u64_nonzero_bit[of "r ! y AND xMask"] mask
    by (auto simp: bit_and_iff bit_eq_iff)
  have rng: "y \<in> set [yMin..<yMax + 1] \<longleftrightarrow> y < 64 \<and> (dy = -1 \<longrightarrow> y \<le> 2) \<and> (dy = 1 \<longrightarrow> 61 \<le> y)" for y
    by (auto simp: yMin_def yMax_def near_const_def ChunkSize_def)
  have "hasCellsNearEdge r dx dy \<longleftrightarrow> (\<exists>y\<in>set [yMin..<yMax + 1]. r ! y AND xMask \<noteq> 0)"
    unfolding hasCellsNearEdge_def xMask_def[symmetric] yMax_def[symmetric] yMin_def[symmetric] Let_def list_ex_iff ..
  also have "\<dots> \<longleftrightarrow> (\<exists>y<64. \<exists>x<64. alive r x y \<and> (dx = -1 \<longrightarrow> x \<le> 2) \<and> (dx = 1 \<longrightarrow> 61 \<le> x) \<and>
                    (dy = -1 \<longrightarrow> y \<le> 2) \<and> (dy = 1 \<longrightarrow> 61 \<le> y))"
    unfolding row rng Bex_def alive_def assms[unfolded wf_rows_def ChunkSize_def] by blast
  also have "\<dots> \<longleftrightarrow> (\<exists>x y. alive r x y \<and> (dx = -1 \<longrightarrow> x \<le> 2) \<and> (dx = 1 \<longrightarrow> 61 \<le> x) \<and>
                    (dy = -1 \<longrightarrow> y \<le> 2) \<and> (dy = 1 \<longrightarrow> 61 \<le> y))"
    using alive_bounds[OF assms] by blast
  finally show ?thesis unfolding live_def Bex_def split_paired_Ex mem_Collect_eq prod.case .
qed

lemma not_near_edge_no_neighbour:
  assumes "wf_rows r" "d \<in> set neighbourOffsets" "\<not> hasCellsNearEdge r (fst d) (snd d)"
    and "g \<in> area (shift_id i d)"
  shows "cells_of i r \<inter> set (moore_list g) = {}"
proof (rule ccontr)
  assume "cells_of i r \<inter> set (moore_list g) \<noteq> {}"
  then obtain u v where uv: "(u, v) \<in> live r" "gcell i (u, v) \<in> set (moore_list g)"
    by (auto simp: cells_of_def)
  from assms(2) obtain dx dy :: int where d: "\<bar>dx\<bar> \<le> 1" "\<bar>dy\<bar> \<le> 1" "d = (word_of_int dx, word_of_int dy)"
    by (rule neighbourOffsets_cases)
  from assms(4) obtain x y where xy: "x < 64" "y < 64" "g = gcell (shift_id i d) (x, y)"
    by (auto simp: area_def)
  have uvb: "u < 64" "v < 64" using uv(1) live_subset[OF assms(1)] by auto
  have "g \<in> set (moore_list (gcell i (u, v)))" using uv(2) by (simp only: moore_sym[of g])
  then have near: "\<bar>int u - (int x + 64 * dx)\<bar> \<le> 1" "\<bar>int v - (int y + 64 * dy)\<bar> \<le> 1"
    using moore_shift[OF d(1,2) xy(1,2) uvb] by (simp_all add: xy(3) d(3))
  have "(fst d = -1 \<longrightarrow> dx = -1) \<and> (fst d = 1 \<longrightarrow> dx = 1) \<and> (snd d = -1 \<longrightarrow> dy = -1) \<and> (snd d = 1 \<longrightarrow> dy = 1)"
  proof -
    from d have "dx = -1 \<or> dx = 0 \<or> dx = 1" "dy = -1 \<or> dy = 0 \<or> dy = 1" by auto
    then show ?thesis by (elim disjE) (simp_all add: d(3))
  qed
  then have "hasCellsNearEdge r (fst d) (snd d)"
    unfolding hasCellsNearEdge_iff[OF assms(1)] using near xy(1,2) uvb
    by (intro bexI[OF _ uv(1)]) auto
  with assms(3) show False by simp
qed

lemma moore_area:
  assumes "g \<in> area i" "h \<in> set (moore_list g)"
  obtains n where "n \<in> insert i (neighbours i)" "h \<in> area n"
proof -
  from assms(1) obtain x y where xy: "x < 64" "y < 64" "g = (gcoord (idX i) (int x), gcoord (idY i) (int y))"
    by (auto simp: area_def gcell_def)
  have split: "\<exists>d u. \<bar>d\<bar> \<le> 1 \<and> u < 64 \<and> gcoord c (int x) + e = gcoord (c + word_of_int d) (int u)"
    if "x < 64" "e \<in> {-1, 0, 1}" for c x and e :: coord
  proof -
    from that(2) obtain k :: int where k: "\<bar>k\<bar> \<le> 1" "e = word_of_int k"
      by (elim insertE emptyE) (auto intro: that[of "-1"] that[of 0] that[of 1])
    let ?d = "(int x + k) div 64" and ?u = "nat ((int x + k) mod 64)"
    have "gcoord c (int x) + e = gcoord c (int x + k)"
      by (simp add: gcoord_def k(2) wi_hom_add algebra_simps)
    also have "\<dots> = gcoord (c + word_of_int ?d) (int ?u)" by (simp add: gcoord_shift)
    finally have "gcoord c (int x) + e = gcoord (c + word_of_int ?d) (int ?u)" .
    moreover have "\<bar>?d\<bar> \<le> 1"
      using zdiv_mono1[of "-64" "int x + k" 64] zdiv_mono1[of "int x + k" 127 64] k(1) that(1) by simp
    moreover have "?u < 64" by simp
    ultimately show ?thesis by blast
  qed
  have e: "fst h - fst g \<in> {-1, 0, 1}" "snd h - snd g \<in> {-1, 0, 1}"
    using assms(2) by (simp_all only: moore_iff near_def)
  have "fst h = gcoord (idX i) (int x) + (fst h - fst g)" "snd h = gcoord (idY i) (int y) + (snd h - snd g)"
    by (simp_all add: xy(3))
  with split[OF xy(1) e(1), of "idX i"] split[OF xy(2) e(2), of "idY i"]
  obtain dx u dy v where h: "\<bar>dx\<bar> \<le> 1" "u < 64" "fst h = gcoord (idX i + word_of_int dx) (int u)"
    "\<bar>dy\<bar> \<le> 1" "v < 64" "snd h = gcoord (idY i + word_of_int dy) (int v)"
    by metis
  let ?n = "shift_id i (word_of_int dx, word_of_int dy)"
  have "h = gcell ?n (u, v)" using h by (simp add: gcell_def shift_id_def prod_eq_iff)
  then have "h \<in> area ?n" using h by (auto simp: area_def image_iff intro!: bexI)
  moreover have "?n \<in> insert i (neighbours i)"
  proof (cases "dx = 0 \<and> dy = 0")
    case True
    then show ?thesis by (simp add: shift_id_def)
  next
    case False
    then show ?thesis using neighbourOffsets_mem[OF h(1,4)] by (auto simp: neighbours_def)
  qed
  ultimately show thesis by (rule that[rotated])
qed

section \<open>Properties\<close>

text \<open>
  C5. One tick of a chunk is one generation of Life: given the chunk's rows and the rows of any of
  its neighbours, \<open>TickBitset\<close> returns exactly the cells of the chunk that are alive in the next
  generation of the board made of those rows, as a 64-row bitset, and hands the scratch buffer back
  zeroed, so the next tick can use it.
\<close>

theorem tick_bitset_is_life:
  assumes "wf_rows r" and "valid_halos (neighbours i) hs"
  shows "cells_of i (fst (TickBitset i r hs zero_scratch)) =
           life_step (cells_of i r \<union> halo_cells hs) \<inter> area i \<and>
         wf_rows (fst (TickBitset i r hs zero_scratch)) \<and>
         snd (TickBitset i r hs zero_scratch) = zero_scratch"
  by (simp add: cells_of_TickBitset[OF assms] wf_simps TickBitset_scratch) (simp add: zero_scratch_def)

theorem tick_bitset_is_life_witness:
  "cells_of (ChunkID 0 0) (fst (TickBitset (ChunkID 0 0) zero_rows [(ChunkID 1 0, zero_rows[3 := 1])] zero_scratch)) =
     life_step (cells_of (ChunkID 0 0) zero_rows \<union> halo_cells [(ChunkID 1 0, zero_rows[3 := 1])]) \<inter> area (ChunkID 0 0)"
proof -
  have "valid_halos (neighbours (ChunkID 0 0)) [(ChunkID 1 0, zero_rows[3 := 1])]"
    by (simp add: neighbours_def neighbourOffsets_def shift_id_def)
  from tick_bitset_is_life[OF wf_zero_rows this] show ?thesis by blast
qed

text \<open>
  The result of a tick does not depend on the order in which Go iterates over the halo map.
\<close>

theorem halo_order_irrelevant:
  assumes "mset hs = mset hs'"
  shows "TickBitset i r hs sc = TickBitset i r hs' sc"
  by (simp add: TickBitset_def halo_steps.fold_perm[OF assms])

theorem halo_order_irrelevant_witness:
  "TickBitset (ChunkID 0 0) zero_rows [(ChunkID 1 0, zero_rows[0 := 1]), (ChunkID 0 1, zero_rows[0 := 2])] zero_scratch =
   TickBitset (ChunkID 0 0) zero_rows [(ChunkID 0 1, zero_rows[0 := 2]), (ChunkID 1 0, zero_rows[0 := 1])] zero_scratch"
  by (rule halo_order_irrelevant) simp

text \<open>
  \<open>hasCellsNearEdge\<close> answers exactly whether a live cell lies within the three outermost lines
  towards the neighbour: columns 0 to 2 or 61 to 63 for the horizontal direction and the same rows
  for the vertical one, with no restriction in a direction whose offset is neither -1 nor 1.
\<close>

theorem near_edge_exact:
  assumes "wf_rows r"
  shows "hasCellsNearEdge r dx dy \<longleftrightarrow>
    (\<exists>(x, y)\<in>live r. (dx = -1 \<longrightarrow> x \<le> 2) \<and> (dx = 1 \<longrightarrow> 61 \<le> x) \<and>
                    (dy = -1 \<longrightarrow> y \<le> 2) \<and> (dy = 1 \<longrightarrow> 61 \<le> y))"
  by (rule hasCellsNearEdge_iff[OF assms])

text \<open>
  C27. Skipping the halo exchange is safe: when \<open>hasCellsNearEdge\<close> is false for an offset, no live cell of
  the chunk is a neighbour of any cell of the chunk at that offset.
\<close>

theorem near_edge_sufficient:
  assumes "wf_rows r" and "d \<in> set neighbourOffsets" and "\<not> hasCellsNearEdge r (fst d) (snd d)"
    and "g \<in> area (shift_id i d)"
  shows "cells_of i r \<inter> set (moore_list g) = {}"
  by (rule not_near_edge_no_neighbour[OF assms])

theorem near_edge_sufficient_witness:
  "cells_of (ChunkID 0 0) zero_rows \<inter> set (moore_list (gcell (shift_id (ChunkID 0 0) (1, 0)) (0, 5))) = {}"
proof (rule near_edge_sufficient)
  show "(1, 0) \<in> set neighbourOffsets" by (simp add: neighbourOffsets_def)
  show "\<not> hasCellsNearEdge zero_rows (fst (1, 0)) (snd (1, 0))" by (simp add: hasCellsNearEdge_iff)
  show "gcell (shift_id (ChunkID 0 0) (1, 0)) (0, 5) \<in> area (shift_id (ChunkID 0 0) (1, 0))"
    by (auto simp: area_def)
qed simp

end
