(* ===== verification/Metrics.thy ===== *)
theory Metrics
  imports Prelude
begin

text \<open>
  \<^verbatim>\<open>metrics/metrics.go\<close>: the four Prometheus instruments. A gauge is its value, a counter its
  count; of a histogram only the number of observations is kept, since the observed durations
  come from the wall clock. Each instrument is written by one component only, so every component
  that holds the shared \<^verbatim>\<open>*Metrics\<close> pointer carries its own copy of the record here, and \<open>None\<close>
  is the nil pointer.
\<close>

record Metrics =
  ActiveChunkActors :: int
  TickDuration :: nat
  RedisSaveLatency :: nat
  WebSocketDropped :: nat

definition New :: Metrics where
  "New = \<lparr>ActiveChunkActors = 0, TickDuration = 0, RedisSaveLatency = 0, WebSocketDropped = 0\<rparr>"

definition ActiveChunkActors_Inc :: "Metrics \<Rightarrow> Metrics" where
  "ActiveChunkActors_Inc m = m\<lparr>ActiveChunkActors := ActiveChunkActors m + 1\<rparr>"

definition ActiveChunkActors_Dec :: "Metrics \<Rightarrow> Metrics" where
  "ActiveChunkActors_Dec m = m\<lparr>ActiveChunkActors := ActiveChunkActors m - 1\<rparr>"

definition TickDuration_Observe :: "Metrics \<Rightarrow> Metrics" where
  "TickDuration_Observe m = m\<lparr>TickDuration := TickDuration m + 1\<rparr>"

definition RedisSaveLatency_Observe :: "Metrics \<Rightarrow> Metrics" where
  "RedisSaveLatency_Observe m = m\<lparr>RedisSaveLatency := RedisSaveLatency m + 1\<rparr>"

definition WebSocketDropped_Inc :: "Metrics \<Rightarrow> Metrics" where
  "WebSocketDropped_Inc m = m\<lparr>WebSocketDropped := WebSocketDropped m + 1\<rparr>"

lemmas metrics_defs = ActiveChunkActors_Inc_def ActiveChunkActors_Dec_def TickDuration_Observe_def
  RedisSaveLatency_Observe_def WebSocketDropped_Inc_def

section \<open>Registration\<close>

text \<open>
  What \<^verbatim>\<open>New\<close> registers with Prometheus: kind, name and help of each instrument, and the upper bounds of the
  buckets of a histogram, in microseconds.
\<close>

datatype instrument =
    NewGauge (Name: string) (Help: string)
  | NewHistogram (Name: string) (Help: string) (Buckets: "nat list")
  | NewCounter (Name: string) (Help: string)

definition New_instruments :: "instrument list" where
  "New_instruments =
     [NewGauge ''golive_active_chunk_actors'' ''Number of currently active chunk actor goroutines.'',
      NewHistogram ''golive_tick_processing_duration_milliseconds'' ''Duration of a single chunk tick computation in milliseconds.''
        [100, 500, 1000, 2500, 5000, 10000, 25000, 50000, 100000],
      NewHistogram ''golive_redis_save_latency_milliseconds'' ''Round-trip latency of Redis chunk save operations in milliseconds.''
        [100, 500, 1000, 2500, 5000, 10000, 25000],
      NewCounter ''golive_websocket_dropped_messages_total'' ''Total WebSocket messages dropped due to send errors.'']"

text \<open>
  Prometheus refuses, with a panic, a name that is taken or that is not made of letters, digits, underscores and colons
  with no digit in front, and buckets that do not increase. So the four instruments are registered.
\<close>

definition valid_name :: "string \<Rightarrow> bool" where
  "valid_name n \<longleftrightarrow> n \<noteq> [] \<and> list_all (\<lambda>c. c \<in> set ''abcdefghijklmnopqrstuvwxyzABCDEFGHIJKLMNOPQRSTUVWXYZ0123456789_:'') n \<and>
     hd n \<notin> set ''0123456789''"

lemma instruments_register:
  "distinct (map Name New_instruments) \<and> list_all (\<lambda>m. valid_name (Name m)) New_instruments \<and>
   list_all (\<lambda>m. case m of NewHistogram n h bs \<Rightarrow> sorted_wrt (<) bs | _ \<Rightarrow> True) New_instruments"
  by (simp add: New_instruments_def valid_name_def)

end
