(* ===== verification/Registry.thy ===== *)
theory Registry
  imports Engine Metrics
begin

text \<open>
  \<^verbatim>\<open>simulation/registry.go\<close>: the map of active chunks, their creation and hydration from storage,
  the tick over all of them by a pool of workers, and hibernation. The callbacks of the
  configuration act on a world \<open>'w\<close> that the registry does not know.

  A Go pointer to a \<^verbatim>\<open>chunkState\<close> is an index into \<open>heap\<close>. Every chunk belongs to the one state
  it was created with, so the pair lives at one address, which also stands for the pointer a
  \<^verbatim>\<open>chunkHandle\<close> holds. Evicting a chunk removes it from the map and leaves the object in the heap,
  where a handle taken earlier still finds it.
\<close>

section \<open>Data\<close>

definition hibernationThreshold :: i64 where
  "hibernationThreshold = 100"

text \<open>A nil callback is \<open>None\<close>. \<open>Load\<close> returns an error (\<open>Inl\<close>) or a chunk pointer that may be nil.\<close>

record 'w RegistryConfig =
  OnTick :: "(ChunkID \<Rightarrow> u16 list \<Rightarrow> 'w \<Rightarrow> 'w) option"
  Persist :: "(Chunk \<Rightarrow> 'w \<Rightarrow> 'w \<times> string option) option"
  Load :: "(ChunkID \<Rightarrow> 'w \<Rightarrow> string + Chunk option) option"
  HasSubscribers :: "(ChunkID \<Rightarrow> 'w \<Rightarrow> bool) option"

record chunkState =
  chunk :: Chunk
  idleTicks :: i64

type_synonym handle = nat  \<comment> \<open>\<^verbatim>\<open>*chunkState\<close> and \<^verbatim>\<open>chunkHandle\<close>\<close>

record tickJob =
  state :: handle
  chunkRows :: rows
  halos :: "(ChunkID \<times> rows) list"

record Registry =
  chunks :: "(ChunkID \<times> handle) list"
  heap :: "chunkState list"
  metrics :: "Metrics option"
  workers :: "TickScratch list"

definition NewRegistry :: "nat \<Rightarrow> Metrics option \<Rightarrow> Registry" where
  "NewRegistry NumCPU m =
     (let n = (if NumCPU < 1 then 1 else NumCPU)
      in \<lparr>chunks = [], heap = [], metrics = m, workers = replicate n zero_scratch\<rparr>)"

abbreviation chunk_at :: "Registry \<Rightarrow> handle \<Rightarrow> Chunk" where
  "chunk_at r a \<equiv> chunk (heap r ! a)"

definition update_state :: "handle \<Rightarrow> (chunkState \<Rightarrow> chunkState) \<Rightarrow> Registry \<Rightarrow> Registry" where
  "update_state a f r = r\<lparr>heap := (heap r)[a := f (heap r ! a)]\<rparr>"

section \<open>Lookup and creation\<close>

definition ProcessSpawn :: "handle \<Rightarrow> u8 \<Rightarrow> u8 \<Rightarrow> Registry \<Rightarrow> Registry" where
  "ProcessSpawn a x y = update_state a (chunk_update (AddCell x y))"

definition GetOrCreate_load :: "'w RegistryConfig \<Rightarrow> 'w \<Rightarrow> ChunkID \<Rightarrow> Chunk" where
  "GetOrCreate_load cfg w i =
     (case Load cfg of
        None \<Rightarrow> NewChunk (idX i) (idY i)
      | Some f \<Rightarrow>
          (case f i w of
             Inl err \<Rightarrow> NewChunk (idX i) (idY i)
           | Inr None \<Rightarrow> NewChunk (idX i) (idY i)
           | Inr (Some loaded) \<Rightarrow> loaded))"

definition GetOrCreate_insert :: "ChunkID \<Rightarrow> Chunk \<Rightarrow> Registry \<Rightarrow> handle \<times> Registry" where
  "GetOrCreate_insert i c r =
     (case map_of (chunks r) i of
        Some a \<Rightarrow> (a, r)
      | None \<Rightarrow>
          let a = length (heap r)
          in (a, r\<lparr>heap := heap r @ [\<lparr>chunk = c, idleTicks = 0\<rparr>],
                   chunks := AList.update i a (chunks r),
                   metrics := map_option ActiveChunkActors_Inc (metrics r)\<rparr>))"

definition GetOrCreate :: "'w RegistryConfig \<Rightarrow> 'w \<Rightarrow> ChunkID \<Rightarrow> Registry \<Rightarrow> handle \<times> Registry" where
  "GetOrCreate cfg w i r =
     (case map_of (chunks r) i of
        Some a \<Rightarrow> (a, r)
      | None \<Rightarrow> GetOrCreate_insert i (GetOrCreate_load cfg w i) r)"

definition PeekChunk :: "'w RegistryConfig \<Rightarrow> 'w \<Rightarrow> ChunkID \<Rightarrow> Registry \<Rightarrow> u16 list" where
  "PeekChunk cfg w i r =
     (case map_of (chunks r) i of
        Some a \<Rightarrow> Snapshot (chunk_at r a)
      | None \<Rightarrow>
          (case Load cfg of
             None \<Rightarrow> []
           | Some f \<Rightarrow>
               (case f i w of
                  Inl err \<Rightarrow> []
                | Inr None \<Rightarrow> []
                | Inr (Some c) \<Rightarrow> Snapshot c)))"

section \<open>Hibernation\<close>

definition evict :: "ChunkID \<Rightarrow> Registry \<Rightarrow> Registry" where
  "evict i r = r\<lparr>chunks := AList.delete i (chunks r),
                 metrics := map_option ActiveChunkActors_Dec (metrics r)\<rparr>"

text \<open>A failed \<open>Persist\<close> is logged; the chunk is evicted in any case.\<close>

definition hibernate :: "'w RegistryConfig \<Rightarrow> Chunk \<Rightarrow> Registry \<times> 'w \<Rightarrow> Registry \<times> 'w" where
  "hibernate cfg c s =
     (case s of (r, w) \<Rightarrow>
       let w' = (case Persist cfg of None \<Rightarrow> w | Some fn \<Rightarrow> fst (fn c w))
       in (evict (ID c) r, w'))"

section \<open>The work of one tick\<close>

definition processJob ::
  "'w RegistryConfig \<Rightarrow> tickJob \<Rightarrow> TickScratch \<Rightarrow> Registry \<times> 'w \<Rightarrow> TickScratch \<times> Registry \<times> 'w" where
  "processJob cfg job scratch s =
     (case s of (r, w) \<Rightarrow>
       let a = state job;
           i = ID (chunk_at r a);
           (nextRows, scratch') = TickBitset i (chunkRows job) (halos job) scratch;
           r1 = update_state a (chunk_update (SetRows nextRows)) r;
           r2 = r1\<lparr>metrics := map_option TickDuration_Observe (metrics r1)\<rparr>;
           w1 = (case OnTick cfg of None \<Rightarrow> w | Some fn \<Rightarrow> fn i (Snapshot (chunk_at r2 a)) w);
           empty = (PopCount (chunk_at r2 a) = 0);
           hasSubs = (case HasSubscribers cfg of None \<Rightarrow> False | Some fn \<Rightarrow> fn i w1)
       in (scratch',
           if empty \<and> \<not> hasSubs then
             (let r3 = update_state a (idleTicks_update (\<lambda>n. n + 1)) r2
              in if hibernationThreshold \<le>s idleTicks (heap r3 ! a)
                 then hibernate cfg (chunk_at r3 a) (r3, w1)
                 else (r3, w1))
           else (update_state a (idleTicks_update (\<lambda>_. 0)) r2, w1)))"

text \<open>Worker \<open>k\<close> takes a job; its scratch buffer stays with it.\<close>

definition runWorker_step ::
  "'w RegistryConfig \<Rightarrow> nat \<times> tickJob \<Rightarrow> Registry \<times> 'w \<Rightarrow> Registry \<times> 'w" where
  "runWorker_step cfg kj s =
     (case kj of (k, job) \<Rightarrow>
       (case processJob cfg job (workers (fst s) ! k) s of
          (scratch', r', w') \<Rightarrow> (r'\<lparr>workers := (workers r')[k := scratch']\<rparr>, w')))"

section \<open>TickAll\<close>

definition TickAll_entries :: "Registry \<Rightarrow> (ChunkID \<times> rows) list" where
  "TickAll_entries r = map (\<lambda>(i, a). (i, Rows (chunk_at r a))) (chunks r)"

definition halo_of :: "(ChunkID \<times> (ChunkID \<times> rows) list) list \<Rightarrow> ChunkID \<Rightarrow> (ChunkID \<times> rows) list" where
  "halo_of h i = (case map_of h i of None \<Rightarrow> [] | Some m \<Rightarrow> m)"

definition TickAll_offset ::
  "'w RegistryConfig \<Rightarrow> 'w \<Rightarrow> ChunkID \<Rightarrow> rows \<Rightarrow> i64 \<times> i64 \<Rightarrow>
   Registry \<times> (ChunkID \<times> (ChunkID \<times> rows) list) list \<Rightarrow>
   Registry \<times> (ChunkID \<times> (ChunkID \<times> rows) list) list" where
  "TickAll_offset cfg w i rs d s =
     (if \<not> hasCellsNearEdge rs (fst d) (snd d) then s
      else case s of (r, h) \<Rightarrow>
        let nid = shift_id i d
        in (snd (GetOrCreate cfg w nid r), AList.update nid (AList.update i rs (halo_of h nid)) h))"

definition TickAll_entry ::
  "'w RegistryConfig \<Rightarrow> 'w \<Rightarrow> ChunkID \<times> rows \<Rightarrow>
   Registry \<times> (ChunkID \<times> (ChunkID \<times> rows) list) list \<Rightarrow>
   Registry \<times> (ChunkID \<times> (ChunkID \<times> rows) list) list" where
  "TickAll_entry cfg w e s =
     (case e of (i, rs) \<Rightarrow>
       if list_all (\<lambda>row. row = 0) rs then s
       else fold (TickAll_offset cfg w i rs) neighbourOffsets s)"

definition TickAll_jobs ::
  "(ChunkID \<times> rows) list \<Rightarrow> Registry \<times> (ChunkID \<times> (ChunkID \<times> rows) list) list \<Rightarrow> (ChunkID \<times> tickJob) list" where
  "TickAll_jobs rowsByID s =
     (case s of (r, h) \<Rightarrow>
       map (\<lambda>(i, a).
         (i, \<lparr>state = a,
              chunkRows = (case map_of rowsByID i of Some rs \<Rightarrow> rs | None \<Rightarrow> Rows (chunk_at r a)),
              halos = halo_of h i\<rparr>)) (chunks r))"

text \<open>
  The first half of \<open>TickAll\<close>: snapshot, distribution of the halos, and the list of jobs to
  dispatch, with the registry in which the neighbours have been woken. \<open>cancelled\<close> says for which
  chunks the \<^verbatim>\<open>select\<close> took the branch of a done context; those jobs are dropped.
\<close>

definition TickAll_prepare ::
  "'w RegistryConfig \<Rightarrow> (ChunkID \<Rightarrow> bool) \<Rightarrow> Registry \<times> 'w \<Rightarrow> tickJob list \<times> Registry" where
  "TickAll_prepare cfg cancelled s =
     (case s of (r, w) \<Rightarrow>
       let entries = TickAll_entries r;
           (r', h) = fold (TickAll_entry cfg w) entries (r, [])
       in (map snd (filter (\<lambda>(i, _). \<not> cancelled i) (TickAll_jobs entries (r', h))), r'))"

text \<open>
  The second half. The pool is a scheduler: it turns the dispatched jobs into the order in which
  they complete, each with the number of the worker that ran it.
\<close>

definition TickAll ::
  "'w RegistryConfig \<Rightarrow> (ChunkID \<Rightarrow> bool) \<Rightarrow> (tickJob list \<Rightarrow> (nat \<times> tickJob) list) \<Rightarrow>
   Registry \<times> 'w \<Rightarrow> Registry \<times> 'w" where
  "TickAll cfg cancelled sched s =
     (case TickAll_prepare cfg cancelled s of
        (jobs, r') \<Rightarrow> fold (runWorker_step cfg) (sched jobs) (r', snd s))"

definition valid_schedule :: "nat \<Rightarrow> (tickJob list \<Rightarrow> (nat \<times> tickJob) list) \<Rightarrow> bool" where
  "valid_schedule n sched \<longleftrightarrow>
     (\<forall>jobs. mset (map snd (sched jobs)) = mset jobs \<and> (\<forall>k\<in>fst ` set (sched jobs). k < n))"

end
