(* ===== verification/Registry_Inv.thy ===== *)
theory Registry_Inv
  imports Registry
begin

text \<open>
  The registry's invariant, the board it holds, and what lookup, creation, spawning and eviction
  do to them.
\<close>

section \<open>Invariant and abstraction\<close>

text \<open>
  No chunk is registered twice, no two entries share a state, every entry's chunk carries the key
  it is registered under, bitsets have 64 rows, the idle counter of an active chunk is below the
  threshold, the gauge counts the active chunks, and every worker's scratch buffer is zero.
\<close>

definition entry_ok :: "chunkState list \<Rightarrow> ChunkID \<times> handle \<Rightarrow> bool" where
  "entry_ok hp e \<longleftrightarrow>
     snd e < length hp \<and> ID (chunk (hp ! snd e)) = fst e \<and>
     0 \<le> sint (idleTicks (hp ! snd e)) \<and> sint (idleTicks (hp ! snd e)) < 100"

definition gauge_ok :: "Registry \<Rightarrow> bool" where
  "gauge_ok r \<longleftrightarrow>
     (case metrics r of None \<Rightarrow> True | Some m \<Rightarrow> ActiveChunkActors m = int (length (chunks r)))"

definition reg_wf :: "Registry \<Rightarrow> bool" where
  "reg_wf r \<longleftrightarrow>
     distinct (map fst (chunks r)) \<and> distinct (map snd (chunks r)) \<and>
     (\<forall>e\<in>set (chunks r). entry_ok (heap r) e) \<and>
     (\<forall>s\<in>set (heap r). wf_rows (rows (chunk s))) \<and>
     gauge_ok r \<and>
     workers r \<noteq> [] \<and> (\<forall>sc\<in>set (workers r). sc = zero_scratch)"

definition board :: "Registry \<Rightarrow> board" where
  "board r = (\<Union>(i, a)\<in>set (chunks r). cells_of i (rows (chunk_at r a)))"

text \<open>What the registry needs of \<open>Load\<close>: a loaded chunk has the identity that was asked for.\<close>

definition load_ok :: "'w RegistryConfig \<Rightarrow> 'w \<Rightarrow> bool" where
  "load_ok cfg w \<longleftrightarrow>
     (\<forall>i. ID (GetOrCreate_load cfg w i) = i \<and> wf_rows (rows (GetOrCreate_load cfg w i)))"

text \<open>The live cells in storage of the chunks that are not active.\<close>

definition cold_cells :: "'w RegistryConfig \<Rightarrow> 'w \<Rightarrow> Registry \<Rightarrow> board" where
  "cold_cells cfg w r =
     (\<Union>i\<in>- dom (map_of (chunks r)). cells_of i (rows (GetOrCreate_load cfg w i)))"

lemma reg_wfD:
  assumes "reg_wf r"
  shows "distinct (map fst (chunks r))" "distinct (map snd (chunks r))"
    "\<And>i a. (i, a) \<in> set (chunks r) \<Longrightarrow> a < length (heap r)"
    "\<And>i a. (i, a) \<in> set (chunks r) \<Longrightarrow> ID (chunk_at r a) = i"
    "\<And>a. a < length (heap r) \<Longrightarrow> wf_rows (rows (chunk_at r a))"
    "\<And>i a. (i, a) \<in> set (chunks r) \<Longrightarrow> wf_rows (rows (chunk_at r a))"
  using assms by (auto simp: reg_wf_def entry_ok_def)

lemma reg_wf_same_handle:
  "reg_wf r \<Longrightarrow> (i, a) \<in> set (chunks r) \<Longrightarrow> (j, a) \<in> set (chunks r) \<Longrightarrow> i = j"
  by (auto dest: reg_wfD(4))

lemma map_of_chunks: "reg_wf r \<Longrightarrow> map_of (chunks r) i = Some a \<longleftrightarrow> (i, a) \<in> set (chunks r)"
  by (simp add: map_of_eq_Some_iff reg_wfD(1))

lemma reg_wf_NewRegistry:
  "(case m of None \<Rightarrow> True | Some ms \<Rightarrow> ActiveChunkActors ms = 0) \<Longrightarrow> reg_wf (NewRegistry n m)"
  by (auto simp: NewRegistry_def reg_wf_def gauge_ok_def Let_def split: option.splits)

lemma board_NewRegistry [simp]: "board (NewRegistry n m) = {}"
  by (simp add: board_def NewRegistry_def Let_def)

text \<open>The board split by chunks: a chunk's part of it is exactly its cells.\<close>

lemma board_area:
  assumes "reg_wf r" "(i, a) \<in> set (chunks r)"
  shows "board r \<inter> area i = cells_of i (rows (chunk_at r a))"
proof -
  have "cells_of j (rows (chunk_at r b)) \<inter> area i = (if j = i then cells_of i (rows (chunk_at r a)) else {})"
    if "(j, b) \<in> set (chunks r)" for j b
  proof (cases "j = i")
    case True
    then have "b = a" using that assms by (metis map_of_chunks option.inject)
    then show ?thesis using True cells_of_area[OF reg_wfD(6)[OF assms(1) that], of i] by auto
  next
    case False
    then show ?thesis
      using cells_of_area[OF reg_wfD(6)[OF assms(1) that], of j] area_disjoint[of j i] by auto
  qed
  then show ?thesis using assms(2) unfolding board_def by (fastforce split: if_splits)
qed

lemma board_area_inactive:
  assumes "reg_wf r" "i \<notin> fst ` set (chunks r)"
  shows "board r \<inter> area i = {}"
proof -
  have "cells_of j (rows (chunk_at r b)) \<inter> area i = {}" if "(j, b) \<in> set (chunks r)" for j b
  proof -
    have "j \<noteq> i" using that assms(2) by force
    then show ?thesis
      using cells_of_area[OF reg_wfD(6)[OF assms(1) that], of j] area_disjoint[of j i] by auto
  qed
  then show ?thesis by (auto simp: board_def)
qed

lemma board_eqI:
  assumes "\<And>i. B \<inter> area i = B' \<inter> area i"
  shows "B = B'"
proof (rule set_eqI)
  fix g
  obtain i where "g \<in> area i" by (rule area_cover)
  then show "g \<in> B \<longleftrightarrow> g \<in> B'" using assms[of i] by blast
qed

section \<open>Updating one state\<close>

lemma update_state_simps [simp]:
  "chunks (update_state a f r) = chunks r" "metrics (update_state a f r) = metrics r"
  "workers (update_state a f r) = workers r" "length (heap (update_state a f r)) = length (heap r)"
  by (simp_all add: update_state_def)

lemma heap_update_state:
  "a < length (heap r) \<Longrightarrow> heap (update_state a f r) ! b = (if b = a then f (heap r ! a) else heap r ! b)"
  by (simp add: update_state_def nth_list_update)

lemma gauge_ok_update_state [simp]: "gauge_ok (update_state a f r) = gauge_ok r"
  by (simp add: gauge_ok_def split: option.split)

lemma reg_wf_update_state:
  assumes "reg_wf r" and "a < length (heap r)"
    and "ID (chunk (f (heap r ! a))) = ID (chunk_at r a)"
    and "wf_rows (rows (chunk (f (heap r ! a))))"
    and "a \<in> snd ` set (chunks r) \<Longrightarrow>
           0 \<le> sint (idleTicks (f (heap r ! a))) \<and> sint (idleTicks (f (heap r ! a))) < 100"
  shows "reg_wf (update_state a f r)"
proof -
  have "entry_ok (heap (update_state a f r)) e" if "e \<in> set (chunks r)" for e
    using that assms by (cases e) (auto simp: reg_wf_def entry_ok_def heap_update_state)
  moreover have "wf_rows (rows (chunk s))" if s: "s \<in> set (heap (update_state a f r))" for s
    using s assms(1,4) set_update_subset_insert[of "heap r" a "f (heap r ! a)"]
    by (auto simp: reg_wf_def update_state_def)
  ultimately show ?thesis
    using assms(1) by (simp add: reg_wf_def)
qed

lemma board_update_state:
  assumes "reg_wf r" "(i, a) \<in> set (chunks r)" "reg_wf (update_state a f r)"
  shows "board (update_state a f r) \<inter> area j =
    (if j = i then cells_of i (rows (chunk (f (heap r ! a)))) else board r \<inter> area j)"
proof (cases "j \<in> fst ` set (chunks r)")
  case True
  then obtain b where b: "(j, b) \<in> set (chunks r)" by force
  then have "board (update_state a f r) \<inter> area j = cells_of j (rows (chunk_at (update_state a f r) b))"
    by (intro board_area assms(3)) simp
  moreover have "a < length (heap r)" using reg_wfD(3)[OF assms(1,2)] .
  moreover have "b = a \<longleftrightarrow> j = i"
    using b assms(1,2) by (metis map_of_chunks option.inject reg_wf_same_handle)
  ultimately show ?thesis using board_area[OF assms(1) b] by (simp add: heap_update_state)
next
  case False
  then have "j \<noteq> i" using assms(2) by force
  then show ?thesis
    using False board_area_inactive[OF assms(1)] board_area_inactive[OF assms(3)] by simp
qed

section \<open>Lookup and creation\<close>

lemma GetOrCreate_existing: "map_of (chunks r) i = Some a \<Longrightarrow> GetOrCreate cfg w i r = (a, r)"
  by (simp add: GetOrCreate_def)

lemma GetOrCreate_new:
  "map_of (chunks r) i = None \<Longrightarrow>
   GetOrCreate cfg w i r =
     (length (heap r),
      r\<lparr>heap := heap r @ [\<lparr>chunk = GetOrCreate_load cfg w i, idleTicks = 0\<rparr>],
        chunks := chunks r @ [(i, length (heap r))],
        metrics := map_option ActiveChunkActors_Inc (metrics r)\<rparr>)"
proof -
  assume n: "map_of (chunks r) i = None"
  have "AList.update i a al = al @ [(i, a)]" if "map_of al i = None" for a and al :: "(ChunkID \<times> handle) list"
    using that by (induction al) (auto split: if_splits)
  with n show ?thesis by (simp add: GetOrCreate_def GetOrCreate_insert_def Let_def)
qed

lemma GetOrCreate_wf:
  assumes "reg_wf r" "load_ok cfg w"
  shows "reg_wf (snd (GetOrCreate cfg w i r))"
    and "(i, fst (GetOrCreate cfg w i r)) \<in> set (chunks (snd (GetOrCreate cfg w i r)))"
proof -
  have "reg_wf (snd (GetOrCreate cfg w i r)) \<and>
    (i, fst (GetOrCreate cfg w i r)) \<in> set (chunks (snd (GetOrCreate cfg w i r)))"
  proof (cases "map_of (chunks r) i")
    case None
    have old: "entry_ok (heap r @ [s]) e" if "e \<in> set (chunks r)" for e s
      using that assms(1) by (auto simp: reg_wf_def entry_ok_def nth_append)
    have this_one: "entry_ok (heap r @ [\<lparr>chunk = GetOrCreate_load cfg w i, idleTicks = 0\<rparr>]) (i, length (heap r))"
      using assms(2) by (simp add: entry_ok_def load_ok_def)
    have gauge: "gauge_ok (snd (GetOrCreate cfg w i r))"
      using assms(1) None by (auto simp: GetOrCreate_new reg_wf_def gauge_ok_def metrics_defs split: option.splits)
    have new: "length (heap r) \<notin> snd ` set (chunks r)" using reg_wfD(3)[OF assms(1)] by fastforce
    have "i \<notin> fst ` set (chunks r)" using None by (simp add: map_of_eq_None_iff)
    then show ?thesis
      using assms None new gauge old this_one
      by (auto simp: GetOrCreate_new reg_wf_def load_ok_def)
  next
    case (Some a)
    then show ?thesis using assms by (simp add: GetOrCreate_existing map_of_chunks)
  qed
  then show "reg_wf (snd (GetOrCreate cfg w i r))"
    and "(i, fst (GetOrCreate cfg w i r)) \<in> set (chunks (snd (GetOrCreate cfg w i r)))" by simp_all
qed

text \<open>Creating a chunk keeps every state there was, at its address.\<close>

lemma GetOrCreate_frame:
  "a < length (heap r) \<Longrightarrow> heap (snd (GetOrCreate cfg w i r)) ! a = heap r ! a"
  "length (heap r) \<le> length (heap (snd (GetOrCreate cfg w i r)))"
  "set (chunks r) \<subseteq> set (chunks (snd (GetOrCreate cfg w i r)))"
  "fst ` set (chunks (snd (GetOrCreate cfg w i r))) = insert i (fst ` set (chunks r))"
  "workers (snd (GetOrCreate cfg w i r)) = workers r"
  by (cases "map_of (chunks r) i";
      force simp: GetOrCreate_new GetOrCreate_existing nth_append dest: map_of_SomeD)+

lemma board_GetOrCreate:
  assumes "reg_wf r" "load_ok cfg w"
  shows "board (snd (GetOrCreate cfg w i r)) =
    board r \<union> (if i \<in> fst ` set (chunks r) then {} else cells_of i (rows (GetOrCreate_load cfg w i)))"
proof (cases "map_of (chunks r) i")
  case None
  have "heap (snd (GetOrCreate cfg w i r)) ! a = heap r ! a" if "(j, a) \<in> set (chunks r)" for j a
    by (rule GetOrCreate_frame(1)) (rule reg_wfD(3)[OF assms(1) that])
  then have "(\<Union>(j, a)\<in>set (chunks r). cells_of j (rows (chunk_at (snd (GetOrCreate cfg w i r)) a))) = board r"
    unfolding board_def by (intro SUP_cong) auto
  with None show ?thesis
    unfolding board_def by (auto simp: GetOrCreate_new map_of_eq_None_iff)
next
  case (Some a)
  then have "i \<in> fst ` set (chunks r)" by (metis domI dom_map_of_conv_image_fst)
  with Some show ?thesis by (simp add: GetOrCreate_existing)
qed

text \<open>Hydration moves cells from storage to the board: together they do not change.\<close>

lemma dom_chunks: "dom (map_of (chunks r)) = fst ` set (chunks r)"
  by (simp add: dom_map_of_conv_image_fst)

lemma full_board_GetOrCreate:
  assumes "reg_wf r" "load_ok cfg w"
  shows "board (snd (GetOrCreate cfg w i r)) \<union> cold_cells cfg w (snd (GetOrCreate cfg w i r)) =
    board r \<union> cold_cells cfg w r"
  unfolding board_GetOrCreate[OF assms] cold_cells_def dom_chunks GetOrCreate_frame(4) by auto

section \<open>Spawning through a handle\<close>

lemma ProcessSpawn_wf:
  assumes "reg_wf r" "a < length (heap r)"
  shows "reg_wf (ProcessSpawn a x y r)"
  unfolding ProcessSpawn_def
  by (rule reg_wf_update_state[OF assms])
     (use assms reg_wfD(5)[OF assms] in \<open>auto simp: wf_simps reg_wf_def entry_ok_def\<close>)

lemma board_ProcessSpawn:
  assumes r: "reg_wf r" and e: "(i, a) \<in> set (chunks r)"
  shows "board (ProcessSpawn a x y r) =
    board r \<union> (if unat x < 64 \<and> unat y < 64 then {gcell i (unat x, unat y)} else {})"
proof (rule board_eqI)
  fix j
  have a: "a < length (heap r)" using reg_wfD(3)[OF r e] .
  have wf: "wf_rows (rows (chunk_at r a))" using reg_wfD(6)[OF r e] .
  have "gcell i (unat x, unat y) \<in> area i" if "unat x < 64" "unat y < 64"
    using that by (auto simp: area_def)
  moreover have "board (ProcessSpawn a x y r) \<inter> area j =
      (if j = i then cells_of i (rows (AddCell x y (chunk_at r a))) else board r \<inter> area j)"
    using board_update_state[OF r e ProcessSpawn_wf[OF r a, unfolded ProcessSpawn_def], of x y j]
    by (simp add: ProcessSpawn_def)
  moreover have "cells_of i (rows (AddCell x y (chunk_at r a))) =
      board r \<inter> area i \<union> (if unat x < 64 \<and> unat y < 64 then {gcell i (unat x, unat y)} else {})"
    unfolding board_area[OF r e] cells_of_def live_AddCell[OF wf] by auto
  ultimately show "board (ProcessSpawn a x y r) \<inter> area j =
      (board r \<union> (if unat x < 64 \<and> unat y < 64 then {gcell i (unat x, unat y)} else {})) \<inter> area j"
    using area_disjoint[of i j] by (auto split: if_splits)
qed

lemma chunks_ProcessSpawn [simp]: "chunks (ProcessSpawn a x y r) = chunks r"
  "workers (ProcessSpawn a x y r) = workers r"
  by (simp_all add: ProcessSpawn_def)

lemma cold_cells_ProcessSpawn [simp]: "cold_cells cfg w (ProcessSpawn a x y r) = cold_cells cfg w r"
  by (simp add: cold_cells_def)

section \<open>Properties\<close>

text \<open>A configuration without callbacks, used by the witnesses.\<close>

definition no_callbacks :: "unit RegistryConfig" where
  "no_callbacks = \<lparr>OnTick = None, Persist = None, Load = None, HasSubscribers = None\<rparr>"

lemma no_callbacks_load: "GetOrCreate_load no_callbacks w i = NewChunk (idX i) (idY i)"
  by (simp add: GetOrCreate_load_def no_callbacks_def)

lemma no_callbacks_ok [simp]: "load_ok no_callbacks w" "cold_cells no_callbacks w r = {}"
  by (simp_all add: load_ok_def cold_cells_def no_callbacks_load NewChunk_def)

lemma reg_wf_fresh [simp]: "reg_wf (NewRegistry n None)"
  by (rule reg_wf_NewRegistry) simp

text \<open>
  C28. \<open>GetOrCreate\<close> registers the chunk under its key and returns its handle; a second call returns the
  same handle and changes nothing, an active chunk is returned as it is, the registry stays well
  formed (so the gauge keeps counting the active chunks), and no live cell is gained or lost: what
  was in storage is now on the board.
\<close>

theorem get_or_create_spec:
  assumes "reg_wf r" and "load_ok cfg w" and "GetOrCreate cfg w i r = (a, r')"
  shows "reg_wf r' \<and> map_of (chunks r') i = Some a \<and>
    (\<forall>w'. GetOrCreate cfg w' i r' = (a, r')) \<and>
    (map_of (chunks r) i = Some b \<longrightarrow> a = b \<and> r' = r) \<and>
    (map_of (chunks r) i = None \<longrightarrow> chunk_at r' a = GetOrCreate_load cfg w i) \<and>
    board r' \<union> cold_cells cfg w r' = board r \<union> cold_cells cfg w r"
proof -
  have a: "a = fst (GetOrCreate cfg w i r)" and r': "r' = snd (GetOrCreate cfg w i r)"
    using assms(3) by simp_all
  have wf: "reg_wf r'" and mem: "(i, a) \<in> set (chunks r')"
    using GetOrCreate_wf[OF assms(1,2), of i] by (simp_all add: a r')
  then have m: "map_of (chunks r') i = Some a" by (simp add: map_of_chunks)
  moreover have "map_of (chunks r) i = None \<Longrightarrow> chunk_at r' a = GetOrCreate_load cfg w i"
    using assms(3) by (auto simp: GetOrCreate_new)
  moreover have "map_of (chunks r) i = Some b \<Longrightarrow> a = b \<and> r' = r"
    using assms(3) by (simp add: GetOrCreate_existing)
  ultimately show ?thesis
    using wf full_board_GetOrCreate[OF assms(1,2), of i] by (auto simp: GetOrCreate_existing r')
qed

theorem get_or_create_spec_witness:
  "map_of (chunks (snd (GetOrCreate no_callbacks () (ChunkID 3 4) (NewRegistry 2 (Some New))))) (ChunkID 3 4) = Some 0"
proof -
  let ?r = "NewRegistry 2 (Some New)"
  have wf: "reg_wf ?r" by (rule reg_wf_NewRegistry) (simp add: New_def)
  have "GetOrCreate no_callbacks () (ChunkID 3 4) ?r = (0, snd (GetOrCreate no_callbacks () (ChunkID 3 4) ?r))"
    by (simp add: GetOrCreate_def GetOrCreate_insert_def NewRegistry_def Let_def)
  from get_or_create_spec[OF wf no_callbacks_ok(1) this] show ?thesis by blast
qed

text \<open>
  \<open>PeekChunk\<close> shows exactly what a chunk would hold once it is created: the snapshot it returns is
  the snapshot of the chunk \<open>GetOrCreate\<close> would return, also when loading fails or finds nothing.
\<close>

theorem peek_agrees_with_create:
  "PeekChunk cfg w i r =
     Snapshot (chunk_at (snd (GetOrCreate cfg w i r)) (fst (GetOrCreate cfg w i r)))"
proof (cases "map_of (chunks r) i")
  case None
  have blank: "Snapshot (NewChunk x y) = []" for x y
    by (simp add: Snapshot_def Rows_def NewChunk_def RowsToOffsets_empty_iff)
  show ?thesis
    using None
    by (auto simp: PeekChunk_def GetOrCreate_new GetOrCreate_load_def blank split: option.splits sum.splits)
qed (simp add: PeekChunk_def GetOrCreate_existing)

end
