(* ===== verification/Tick.thy ===== *)
theory Tick
  imports Registry_Inv
begin

text \<open>
  The tick over all active chunks: what one job does to the registry, why the jobs may run in any
  order on any worker, which halos a chunk receives, and that the whole is one generation of Life.
\<close>

section \<open>Eviction and bookkeeping\<close>

lemma delete_filter: "AList.delete i al = filter (\<lambda>e. fst e \<noteq> i) al"
  by (induction al) auto

lemma set_chunks_evict: "set (chunks (evict i r)) = {e \<in> set (chunks r). fst e \<noteq> i}"
  by (simp add: evict_def delete_filter)

lemma evict_simps [simp]:
  "heap (evict i r) = heap r" "workers (evict i r) = workers r"
  by (simp_all add: evict_def)

lemma length_delete_key:
  "distinct (map fst al) \<Longrightarrow> i \<in> fst ` set al \<Longrightarrow> Suc (length (AList.delete i al)) = length al"
proof (induction al)
  case (Cons x al)
  show ?case
  proof (cases "fst x = i")
    case True
    with Cons.prems have "AList.delete i al = al" by (auto intro: AList.delete_id)
    then show ?thesis using True by (cases x) simp
  next
    case False
    with Cons.prems have "i \<in> fst ` set al" by auto
    with Cons.IH Cons.prems False show ?thesis by (cases x) simp
  qed
qed simp

lemma reg_wf_evict:
  assumes "reg_wf r" "i \<in> fst ` set (chunks r)"
  shows "reg_wf (evict i r)"
proof -
  have d: "distinct (map fst (chunks r))" "distinct (map snd (chunks r))"
    using assms(1) by (simp_all add: reg_wfD)
  have del: "chunks (evict i r) = filter (\<lambda>e. fst e \<noteq> i) (chunks r)"
    by (simp add: evict_def delete_filter)
  have "int (length (chunks (evict i r))) = int (length (chunks r)) - 1"
    using length_delete_key[OF d(1) assms(2)] by (simp add: evict_def)
  then have "gauge_ok (evict i r)"
    using assms(1)
    by (cases "metrics r") (simp_all add: reg_wf_def gauge_ok_def evict_def[of i r] metrics_defs)
  then show ?thesis
    using assms(1) d unfolding reg_wf_def evict_simps set_chunks_evict
    by (simp add: del distinct_map_filter)
qed

lemma board_evict:
  assumes "reg_wf r" "i \<in> fst ` set (chunks r)"
  shows "board (evict i r) = board r - area i"
proof (rule board_eqI)
  fix j
  note wf = reg_wf_evict[OF assms]
  show "board (evict i r) \<inter> area j = (board r - area i) \<inter> area j"
  proof (cases "j \<in> fst ` set (chunks (evict i r))")
    case True
    then obtain a where a: "(j, a) \<in> set (chunks (evict i r))" by force
    then have "(j, a) \<in> set (chunks r)" "j \<noteq> i" by (auto simp: set_chunks_evict)
    then show ?thesis
      using board_area[OF wf a] board_area[OF assms(1)] area_disjoint[of j i] by auto
  next
    case False
    then have "j = i \<or> j \<notin> fst ` set (chunks r)" by (force simp: set_chunks_evict)
    then show ?thesis
      using board_area_inactive[OF wf False] board_area_inactive[OF assms(1), of j] by auto
  qed
qed

lemma reg_wf_metrics:
  assumes "\<And>m. ActiveChunkActors (f m) = ActiveChunkActors m"
  shows "reg_wf (r\<lparr>metrics := map_option f (metrics r)\<rparr>) = reg_wf r"
  by (simp add: reg_wf_def gauge_ok_def assms split: option.split)

lemma board_metrics: "board (r\<lparr>metrics := m\<rparr>) = board r"
  by (simp add: board_def)

lemma evict_update_state: "evict i (update_state a f r) = update_state a f (evict i r)"
  by (simp add: evict_def update_state_def)

lemma board_update_inactive:
  "a \<notin> snd ` set (chunks r) \<Longrightarrow> a < length (heap r) \<Longrightarrow> board (update_state a f r) = board r"
  unfolding board_def by (intro SUP_cong) (force simp: heap_update_state)+

section \<open>One job\<close>

definition next_rows :: "ChunkID \<Rightarrow> tickJob \<Rightarrow> rows" where
  "next_rows i job = fst (TickBitset i (chunkRows job) (halos job) zero_scratch)"

text \<open>The registry after the new rows are stored, before the bookkeeping.\<close>

definition stored :: "ChunkID \<Rightarrow> tickJob \<Rightarrow> Registry \<Rightarrow> Registry" where
  "stored i job r =
     (let r1 = update_state (state job) (chunk_update (SetRows (next_rows i job))) r
      in r1\<lparr>metrics := map_option TickDuration_Observe (metrics r1)\<rparr>)"

lemma stored_simps [simp]:
  "chunks (stored i job r) = chunks r" "workers (stored i job r) = workers r"
  "length (heap (stored i job r)) = length (heap r)"
  by (simp_all add: stored_def Let_def)

lemma heap_stored:
  "state job < length (heap r) \<Longrightarrow>
   heap (stored i job r) ! b =
     (if b = state job then (heap r ! b)\<lparr>chunk := (chunk_at r b)\<lparr>rows := next_rows i job\<rparr>\<rparr> else heap r ! b)"
  by (simp add: stored_def Let_def heap_update_state SetRows_def)

lemma stored_wf_board:
  assumes r: "reg_wf r" and e: "(i, state job) \<in> set (chunks r)"
  shows "reg_wf (stored i job r)"
    and "board (stored i job r) \<inter> area j =
      (if j = i then cells_of i (next_rows i job) else board r \<inter> area j)"
proof -
  let ?r1 = "update_state (state job) (chunk_update (SetRows (next_rows i job))) r"
  have a: "state job < length (heap r)" using reg_wfD(3)[OF r e] .
  have wf1: "reg_wf ?r1"
    by (rule reg_wf_update_state[OF r a])
       (use r e in \<open>auto simp: SetRows_def next_rows_def wf_simps reg_wf_def entry_ok_def\<close>)
  then show "reg_wf (stored i job r)"
    by (simp only: stored_def Let_def) (subst reg_wf_metrics, simp_all add: metrics_defs)
  show "board (stored i job r) \<inter> area j =
      (if j = i then cells_of i (next_rows i job) else board r \<inter> area j)"
    using board_update_state[OF r e wf1, of j]
    by (simp only: stored_def Let_def board_metrics) (simp add: SetRows_def)
qed

text \<open>
  The outcome of a job: the world, and whether the chunk hibernated. A chunk hibernates only when
  its next generation is empty, nobody watches it and this is its hundredth idle tick in a row.
\<close>

definition after_tick_world :: "'w RegistryConfig \<Rightarrow> ChunkID \<Rightarrow> rows \<Rightarrow> 'w \<Rightarrow> 'w" where
  "after_tick_world cfg i rs w =
     (case OnTick cfg of None \<Rightarrow> w | Some fn \<Rightarrow> fn i (RowsToOffsets rs) w)"

definition watched :: "'w RegistryConfig \<Rightarrow> ChunkID \<Rightarrow> 'w \<Rightarrow> bool" where
  "watched cfg i w = (case HasSubscribers cfg of None \<Rightarrow> False | Some fn \<Rightarrow> fn i w)"

definition persisted_world :: "'w RegistryConfig \<Rightarrow> Chunk \<Rightarrow> 'w \<Rightarrow> 'w" where
  "persisted_world cfg c w = (case Persist cfg of None \<Rightarrow> w | Some fn \<Rightarrow> fst (fn c w))"

lemma processJob_cases:
  fixes cfg :: "'w RegistryConfig" and w :: 'w
  assumes r: "reg_wf r" and e: "(i, state job) \<in> set (chunks r)"
  defines "w1 \<equiv> after_tick_world cfg i (next_rows i job) w"
    and "idle \<equiv> sint (idleTicks (heap r ! state job))"
  shows "processJob cfg job zero_scratch (r, w) =
    (zero_scratch,
     if next_rows i job = zero_rows \<and> \<not> watched cfg i w1 then
       (if 99 \<le> idle
        then (update_state (state job) (idleTicks_update (\<lambda>n. n + 1)) (evict i (stored i job r)),
              persisted_world cfg \<lparr>ID = i, rows = zero_rows\<rparr> w1)
        else (update_state (state job) (idleTicks_update (\<lambda>n. n + 1)) (stored i job r), w1))
     else (update_state (state job) (idleTicks_update (\<lambda>_. 0)) (stored i job r), w1))"
proof -
  let ?a = "state job" and ?r2 = "stored i job r"
  have a: "?a < length (heap r)" using reg_wfD(3)[OF r e] .
  have i: "ID (chunk_at r ?a) = i" using reg_wfD(4)[OF r e] .
  have c: "chunk_at ?r2 ?a = (chunk_at r ?a)\<lparr>rows := next_rows i job\<rparr>" by (simp add: heap_stored a)
  have wf: "wf_rows (next_rows i job)" by (simp add: next_rows_def wf_simps)
  have pop: "PopCount (chunk_at ?r2 ?a) = 0 \<longleftrightarrow> next_rows i job = zero_rows"
    by (simp add: PopCount_zero_iff wf c)
  have snap: "Snapshot (chunk_at ?r2 ?a) = RowsToOffsets (next_rows i job)"
    by (simp add: c Snapshot_def Rows_def)
  have idle: "0 \<le> idle" "idle < 100" using r e by (auto simp: reg_wf_def entry_ok_def idle_def)
  have "idleTicks (heap ?r2 ! ?a) = idleTicks (heap r ! ?a)" by (simp add: heap_stored a)
  then have thr: "hibernationThreshold \<le>s idleTicks (heap ?r2 ! ?a) + 1 \<longleftrightarrow> 99 \<le> idle"
    using sint_small[of "idleTicks (heap r ! ?a)" 1] idle
    by (simp add: word_sle_eq hibernationThreshold_def idle_def)
  have sc: "snd (TickBitset i rs hs zero_scratch) = zero_scratch" for rs hs
    by (simp add: TickBitset_scratch) (simp add: zero_scratch_def)
  have cell: "(chunk_at r ?a)\<lparr>rows := zero_rows\<rparr> = \<lparr>ID = i, rows = zero_rows\<rparr>"
    using i by (cases "chunk_at r ?a") simp
  have w1': "w1 = (case OnTick cfg of None \<Rightarrow> w | Some fn \<Rightarrow> fn i (Snapshot (chunk_at ?r2 ?a)) w)"
    by (simp only: w1_def after_tick_world_def snap)
  have "processJob cfg job zero_scratch (r, w) =
    (zero_scratch,
     if PopCount (chunk_at ?r2 ?a) = 0 \<and> \<not> watched cfg i w1 then
       (let r3 = update_state ?a (idleTicks_update (\<lambda>n. n + 1)) ?r2
        in if hibernationThreshold \<le>s idleTicks (heap r3 ! ?a)
           then hibernate cfg (chunk_at r3 ?a) (r3, w1) else (r3, w1))
     else (update_state ?a (idleTicks_update (\<lambda>_. 0)) ?r2, w1))"
    unfolding w1' watched_def stored_def next_rows_def processJob_def Let_def case_prod_unfold
      fst_conv snd_conv i sc ..
  then show ?thesis
    unfolding pop Let_def
    using a i thr
    by (auto simp: heap_update_state hibernate_def persisted_world_def c cell evict_update_state)
qed

text \<open>What a job does to the registry, whatever branch it takes.\<close>

lemma counted_chunk:
  assumes r: "reg_wf r" and e: "(i, state job) \<in> set (chunks r)"
    and f: "0 \<le> sint (f (idleTicks (heap r ! state job))) \<and> sint (f (idleTicks (heap r ! state job))) < 100"
  shows "reg_wf (update_state (state job) (idleTicks_update f) (stored i job r))"
    "board (update_state (state job) (idleTicks_update f) (stored i job r)) \<inter> area j =
      (if j = i then cells_of i (next_rows i job) else board r \<inter> area j)"
proof -
  let ?a = "state job" and ?r2 = "stored i job r"
  note wf2 = stored_wf_board(1)[OF r e]
  have e2: "(i, ?a) \<in> set (chunks ?r2)" and a: "?a < length (heap r)" using e reg_wfD(3)[OF r e] by simp_all
  show wf: "reg_wf (update_state ?a (idleTicks_update f) ?r2)"
    by (rule reg_wf_update_state[OF wf2]) (use a f reg_wfD(6)[OF wf2 e2] in \<open>simp_all add: heap_stored\<close>)
  show "board (update_state ?a (idleTicks_update f) ?r2) \<inter> area j =
      (if j = i then cells_of i (next_rows i job) else board r \<inter> area j)"
    using board_update_state[OF wf2 e2 wf, of j] board_area[OF wf2 e2] stored_wf_board(2)[OF r e, of j]
    by (cases "j = i") simp_all
qed

lemma evicted_chunk:
  assumes r: "reg_wf r" and e: "(i, state job) \<in> set (chunks r)" and zero: "next_rows i job = zero_rows"
  shows "reg_wf (update_state (state job) (idleTicks_update f) (evict i (stored i job r)))"
    "board (update_state (state job) (idleTicks_update f) (evict i (stored i job r))) \<inter> area j =
      (if j = i then cells_of i (next_rows i job) else board r \<inter> area j)"
proof -
  let ?a = "state job" and ?r2 = "stored i job r"
  note wf2 = stored_wf_board(1)[OF r e] and b2 = stored_wf_board(2)[OF r e]
  have e2: "(i, ?a) \<in> set (chunks ?r2)" and a: "?a < length (heap r)" using e reg_wfD(3)[OF r e] by simp_all
  have notin: "?a \<notin> snd ` set (chunks (evict i ?r2))"
    using reg_wf_same_handle[OF r e] by (auto simp: set_chunks_evict)
  have i2: "i \<in> fst ` set (chunks ?r2)" using e by force
  show "reg_wf (update_state ?a (idleTicks_update f) (evict i ?r2))"
    by (rule reg_wf_update_state[OF reg_wf_evict[OF wf2 i2]]) (use a notin reg_wfD(6)[OF wf2 e2] in auto)
  have "board (update_state ?a (idleTicks_update f) (evict i ?r2)) = board ?r2 - area i"
    using board_update_inactive[OF notin] a board_evict[OF wf2 i2] by simp
  then show "board (update_state ?a (idleTicks_update f) (evict i ?r2)) \<inter> area j =
      (if j = i then cells_of i (next_rows i job) else board r \<inter> area j)"
    using b2[of j] area_disjoint[of i j] zero by auto
qed

lemma processJob_effect:
  assumes r: "reg_wf r" and e: "(i, state job) \<in> set (chunks r)"
    and res: "processJob cfg job zero_scratch (r, w) = (sc', r', w')"
  shows "sc' = zero_scratch" "reg_wf r'" "workers r' = workers r"
    and "board r' \<inter> area j = (if j = i then cells_of i (next_rows i job) else board r \<inter> area j)"
    and "{x \<in> set (chunks r). fst x \<noteq> i} \<subseteq> set (chunks r')" "set (chunks r') \<subseteq> set (chunks r)"
    and "b \<noteq> state job \<Longrightarrow> heap r' ! b = heap r ! b"
proof -
  let ?a = "state job" and ?r2 = "stored i job r"
  have a: "?a < length (heap r)" using reg_wfD(3)[OF r e] .
  have idle: "0 \<le> sint (idleTicks (heap r ! ?a))" "sint (idleTicks (heap r ! ?a)) < 100"
    using r e by (auto simp: reg_wf_def entry_ok_def)
  have inc: "sint (idleTicks (heap r ! ?a) + 1) = sint (idleTicks (heap r ! ?a)) + 1"
    using sint_small[of "idleTicks (heap r ! ?a)" 1] idle by simp
  consider (evict) "next_rows i job = zero_rows"
      "(sc', r') = (zero_scratch, update_state ?a (idleTicks_update (\<lambda>n. n + 1)) (evict i ?r2))"
    | (idle) "sint (idleTicks (heap r ! ?a)) < 99"
      "(sc', r') = (zero_scratch, update_state ?a (idleTicks_update (\<lambda>n. n + 1)) ?r2)"
    | (busy) "(sc', r') = (zero_scratch, update_state ?a (idleTicks_update (\<lambda>_. 0)) ?r2)"
    using res unfolding processJob_cases[OF r e] by (auto split: if_splits)
  then have *: "sc' = zero_scratch \<and> reg_wf r' \<and> workers r' = workers r \<and>
    (\<forall>j. board r' \<inter> area j = (if j = i then cells_of i (next_rows i job) else board r \<inter> area j)) \<and>
    {x \<in> set (chunks r). fst x \<noteq> i} \<subseteq> set (chunks r') \<and> set (chunks r') \<subseteq> set (chunks r) \<and>
    (\<forall>b. b \<noteq> ?a \<longrightarrow> heap r' ! b = heap r ! b)"
  proof cases
    case evict
    then show ?thesis
      using evicted_chunk[OF r e evict(1)] a by (auto simp: set_chunks_evict heap_update_state heap_stored)
  next
    case idle
    then show ?thesis using counted_chunk[OF r e, of "\<lambda>n. n + 1"] \<open>0 \<le> _\<close> inc a by (auto simp: heap_update_state heap_stored)
  next
    case busy
    then show ?thesis using counted_chunk[OF r e, of "\<lambda>_. 0"] a by (auto simp: heap_update_state heap_stored)
  qed
  show "sc' = zero_scratch" "reg_wf r'" "workers r' = workers r"
    "board r' \<inter> area j = (if j = i then cells_of i (next_rows i job) else board r \<inter> area j)"
    "{x \<in> set (chunks r). fst x \<noteq> i} \<subseteq> set (chunks r')" "set (chunks r') \<subseteq> set (chunks r)"
    "b \<noteq> state job \<Longrightarrow> heap r' ! b = heap r ! b"
    using * by blast+
qed

section \<open>The worker pool\<close>

lemma runWorker_step_effect:
  assumes r: "reg_wf r" and e: "(i, state job) \<in> set (chunks r)" and k: "k < length (workers r)"
    and res: "runWorker_step cfg (k, job) (r, w) = (r', w')"
  shows "reg_wf r'" "workers r' = workers r"
    and "board r' \<inter> area j = (if j = i then cells_of i (next_rows i job) else board r \<inter> area j)"
    and "{x \<in> set (chunks r). fst x \<noteq> i} \<subseteq> set (chunks r')" "set (chunks r') \<subseteq> set (chunks r)"
proof -
  have z: "workers r ! k = zero_scratch" using r k by (simp add: reg_wf_def)
  obtain sc1 r1 w1 where p: "processJob cfg job zero_scratch (r, w) = (sc1, r1, w1)" by (metis prod_cases3)
  note eff = processJob_effect[OF r e p]
  have "(workers r1)[k := zero_scratch] = workers r1"
    unfolding eff(3) by (rule list_update_same_conv[THEN iffD2]) (use k z in auto)
  then have "r' = r1" using res z p eff(1) by (simp add: runWorker_step_def)
  then show "reg_wf r'" "workers r' = workers r"
    "board r' \<inter> area j = (if j = i then cells_of i (next_rows i job) else board r \<inter> area j)"
    "{x \<in> set (chunks r). fst x \<noteq> i} \<subseteq> set (chunks r')" "set (chunks r') \<subseteq> set (chunks r)"
    using eff by auto
qed

text \<open>The chunks of other jobs stay.\<close>

lemma other_job_stays:
  assumes "reg_wf r" "(i, state job) \<in> set (chunks r)" "k < length (workers r)"
    and "runWorker_step cfg (k, job) (r, w) = (r', w')" and "(j, b) \<in> set (chunks r)" "b \<noteq> state job"
  shows "j \<noteq> i" "(j, b) \<in> set (chunks r')"
proof -
  show "j \<noteq> i" using assms(1,2,5,6) by (metis map_of_chunks option.inject)
  then show "(j, b) \<in> set (chunks r')" using runWorker_step_effect(4)[OF assms(1-4)] assms(5) by auto
qed

text \<open>
  Jobs for distinct chunks may complete in any order on any workers: each chunk that has a job ends
  with the rows computed from its job, every other chunk is untouched.
\<close>

lemma run_jobs:
  assumes "reg_wf r" "distinct (map (\<lambda>kj. state (snd kj)) js)"
    and "\<And>k job. (k, job) \<in> set js \<Longrightarrow> k < length (workers r) \<and> (f (state job), state job) \<in> set (chunks r)"
    and "fold (runWorker_step cfg) js (r, w) = (r', w')"
  shows "reg_wf r' \<and> workers r' = workers r \<and> set (chunks r') \<subseteq> set (chunks r) \<and>
    (\<forall>(k, job)\<in>set js. board r' \<inter> area (f (state job)) = cells_of (f (state job)) (next_rows (f (state job)) job)) \<and>
    (\<forall>j. (\<forall>(k, job)\<in>set js. f (state job) \<noteq> j) \<longrightarrow> board r' \<inter> area j = board r \<inter> area j)"
  using assms
proof (induction js arbitrary: r w)
  case Nil
  then show ?case by simp
next
  case (Cons kj js)
  obtain k job where kj: "kj = (k, job)" by (cases kj)
  let ?i = "f (state job)"
  have e: "(?i, state job) \<in> set (chunks r)" and k: "k < length (workers r)"
    using Cons.prems(3)[of k job] by (simp_all add: kj)
  obtain r1 w1 where s: "runWorker_step cfg (k, job) (r, w) = (r1, w1)" by (metis prod.exhaust)
  note eff = runWorker_step_effect[OF Cons.prems(1) e k s]
  have other: "f (state job') \<noteq> ?i \<and> (f (state job'), state job') \<in> set (chunks r1) \<and> k' < length (workers r1)"
    if "(k', job') \<in> set js" for k' job'
  proof -
    have e': "(f (state job'), state job') \<in> set (chunks r)" "k' < length (workers r)"
      using Cons.prems(3)[of k' job'] that by simp_all
    have "state job' \<noteq> state job" using Cons.prems(2) that by (force simp: kj)
    from other_job_stays[OF Cons.prems(1) e k s e'(1) this] show ?thesis using e'(2) eff(2) by simp
  qed
  have "fold (runWorker_step cfg) js (r1, w1) = (r', w')" using Cons.prems(4) s by (simp add: kj)
  then have IH: "reg_wf r' \<and> workers r' = workers r1 \<and> set (chunks r') \<subseteq> set (chunks r1) \<and>
    (\<forall>(k, job)\<in>set js. board r' \<inter> area (f (state job)) = cells_of (f (state job)) (next_rows (f (state job)) job)) \<and>
    (\<forall>j. (\<forall>(k, job)\<in>set js. f (state job) \<noteq> j) \<longrightarrow> board r' \<inter> area j = board r1 \<inter> area j)"
    using Cons.IH[OF eff(1)] Cons.prems(2) other by (simp add: kj)
  have "\<forall>(k, job)\<in>set js. f (state job) \<noteq> ?i" using other by blast
  then have first: "board r' \<inter> area ?i = cells_of ?i (next_rows ?i job)"
    using IH eff(3)[of ?i] by simp
  have rest: "board r' \<inter> area j = board r \<inter> area j" if "\<forall>(k, job)\<in>set (kj # js). f (state job) \<noteq> j" for j
  proof -
    from that have "j \<noteq> ?i" "\<forall>(k, job)\<in>set js. f (state job) \<noteq> j" by (auto simp: kj)
    then show ?thesis using IH eff(3)[of j] by simp
  qed
  show ?case
    unfolding set_simps ball_simps kj prod.case
    using IH first rest eff(2,5) by (simp add: kj) blast
qed

section \<open>Waking neighbours\<close>

definition wake :: "'w RegistryConfig \<Rightarrow> 'w \<Rightarrow> ChunkID list \<Rightarrow> Registry \<Rightarrow> Registry" where
  "wake cfg w = fold (\<lambda>n r. snd (GetOrCreate cfg w n r))"

lemma wake_effect:
  assumes "reg_wf r" "load_ok cfg w"
  shows "reg_wf (wake cfg w ns r) \<and> workers (wake cfg w ns r) = workers r \<and>
    set (chunks r) \<subseteq> set (chunks (wake cfg w ns r)) \<and>
    fst ` set (chunks (wake cfg w ns r)) = set ns \<union> fst ` set (chunks r) \<and>
    (\<forall>a<length (heap r). heap (wake cfg w ns r) ! a = heap r ! a) \<and>
    length (heap r) \<le> length (heap (wake cfg w ns r)) \<and>
    board r \<subseteq> board (wake cfg w ns r) \<and>
    board (wake cfg w ns r) \<union> cold_cells cfg w (wake cfg w ns r) = board r \<union> cold_cells cfg w r"
  using assms(1)
proof (induction ns arbitrary: r)
  case Nil
  then show ?case by (simp add: wake_def)
next
  case (Cons n ns)
  let ?r1 = "snd (GetOrCreate cfg w n r)"
  have w: "wake cfg w (n # ns) r = wake cfg w ns ?r1" by (simp add: wake_def)
  have "board r \<subseteq> board ?r1" by (simp add: board_GetOrCreate[OF Cons.prems assms(2)])
  with Cons.IH[OF GetOrCreate_wf(1)[OF Cons.prems assms(2)], of n]
    GetOrCreate_frame(1)[of _ r cfg w n] GetOrCreate_frame(2)[of r cfg w n]
    GetOrCreate_frame(3)[of r cfg w n] GetOrCreate_frame(4)[of cfg w n r]
    GetOrCreate_frame(5)[of cfg w n r] full_board_GetOrCreate[OF Cons.prems assms(2), of n]
  show ?case unfolding w by auto
qed

section \<open>The halos that are distributed\<close>

definition send_halo ::
  "ChunkID \<times> rows \<times> ChunkID \<Rightarrow> (ChunkID \<times> (ChunkID \<times> rows) list) list \<Rightarrow>
   (ChunkID \<times> (ChunkID \<times> rows) list) list" where
  "send_halo m h = (case m of (i, rs, n) \<Rightarrow> AList.update n (AList.update i rs (halo_of h n)) h)"

definition sends :: "(ChunkID \<times> rows) list \<Rightarrow> (ChunkID \<times> rows \<times> ChunkID) list" where
  "sends entries =
     concat (map (\<lambda>(i, rs). map (\<lambda>d. (i, rs, shift_id i d))
       (filter (\<lambda>d. hasCellsNearEdge rs (fst d) (snd d)) neighbourOffsets)) entries)"

lemma set_sends:
  "(i, rs, n) \<in> set (sends entries) \<longleftrightarrow>
     (i, rs) \<in> set entries \<and> (\<exists>d\<in>set neighbourOffsets. n = shift_id i d \<and> hasCellsNearEdge rs (fst d) (snd d))"
  by (auto simp: sends_def)

lemma no_edge_zero: "wf_rows rs \<Longrightarrow> list_all (\<lambda>row. row = 0) rs \<Longrightarrow> \<not> hasCellsNearEdge rs dx dy"
proof -
  assume wf: "wf_rows rs" and z: "list_all (\<lambda>row. row = 0) rs"
  have "\<not> alive rs x y" for x y using z by (auto simp: alive_def list_all_length)
  then show ?thesis by (simp add: hasCellsNearEdge_iff wf live_def)
qed

lemma TickAll_scan:
  assumes "\<And>i rs. (i, rs) \<in> set entries \<Longrightarrow> wf_rows rs"
  shows "fold (TickAll_entry cfg w) entries (r, h) =
    (wake cfg w (map (\<lambda>(_, _, n). n) (sends entries)) r, fold send_halo (sends entries) h)"
proof -
  have off: "fold (TickAll_offset cfg w i rs) ds (r, h) =
      (wake cfg w (map (shift_id i) (filter (\<lambda>d. hasCellsNearEdge rs (fst d) (snd d)) ds)) r,
       fold send_halo (map (\<lambda>d. (i, rs, shift_id i d)) (filter (\<lambda>d. hasCellsNearEdge rs (fst d) (snd d)) ds)) h)"
    for i rs ds r h
    by (induction ds arbitrary: r h) (auto simp: wake_def TickAll_offset_def send_halo_def Let_def)
  have entry: "TickAll_entry cfg w (i, rs) (r, h) =
      (wake cfg w (map (\<lambda>(_, _, n). n) (sends [(i, rs)])) r, fold send_halo (sends [(i, rs)]) h)"
    if "wf_rows rs" for i rs r h
    using that by (simp add: TickAll_entry_def sends_def off no_edge_zero wake_def comp_def)
  show ?thesis
    using assms
  proof (induction entries arbitrary: r h)
    case Nil
    then show ?case by (simp add: sends_def wake_def)
  next
    case (Cons e es)
    obtain i rs where e: "e = (i, rs)" by (cases e)
    have "wf_rows rs" using Cons.prems[of i rs] by (simp add: e)
    moreover have "sends (e # es) = sends [e] @ sends es" by (simp add: sends_def)
    moreover have "fold (TickAll_entry cfg w) es (r, h) =
        (wake cfg w (map (\<lambda>(_, _, n). n) (sends es)) r, fold send_halo (sends es) h)" for r h
      by (rule Cons.IH) (use Cons.prems in auto)
    ultimately show ?case by (simp add: e entry) (simp add: wake_def)
  qed
qed

lemma halo_of_update: "halo_of (AList.update n v h) m = (if m = n then v else halo_of h m)"
  by (simp add: halo_of_def update_conv')

lemma set_update_same:
  "\<forall>x\<in>set al. snd x = F (fst x) \<Longrightarrow> set (AList.update i (F i) al) = insert (i, F i) (set al)"
  by (induction al) (auto simp: prod_eq_iff)

lemma halos_received:
  assumes "\<And>i rs n. (i, rs, n) \<in> set ms \<Longrightarrow> rs = F i"
    and "\<And>n i rs. (i, rs) \<in> set (halo_of h n) \<Longrightarrow> rs = F i"
    and "\<And>n. distinct (map fst (halo_of h n))"
  shows "distinct (map fst (halo_of (fold send_halo ms h) n)) \<and>
    set (halo_of (fold send_halo ms h) n) = set (halo_of h n) \<union> {(i, rs). (i, rs, n) \<in> set ms}"
  using assms
proof (induction ms arbitrary: h)
  case Nil
  then show ?case by simp
next
  case (Cons m ms)
  obtain i rs k where m: "m = (i, rs, k)" by (cases m)
  have rs: "rs = F i" using Cons.prems(1)[of i rs k] by (simp add: m)
  let ?h = "send_halo m h"
  have h: "halo_of ?h n' = (if n' = k then AList.update i (F i) (halo_of h k) else halo_of h n')" for n'
    by (simp add: m send_halo_def halo_of_update rs)
  have s: "set (halo_of ?h n') = set (halo_of h n') \<union> (if n' = k then {(i, F i)} else {})" for n'
  proof -
    have "\<forall>x\<in>set (halo_of h k). snd x = F (fst x)" using Cons.prems(2) by force
    from set_update_same[OF this, of i] show ?thesis by (simp add: h)
  qed
  have d: "distinct (map fst (halo_of ?h n'))" for n'
    using Cons.prems(3) by (simp add: h distinct_update)
  have "distinct (map fst (halo_of (fold send_halo ms ?h) n)) \<and>
    set (halo_of (fold send_halo ms ?h) n) = set (halo_of ?h n) \<union> {(i, rs). (i, rs, n) \<in> set ms}"
  proof (rule Cons.IH)
    show "rs' = F i'" if "(i', rs', n') \<in> set ms" for i' rs' n'
      using Cons.prems(1)[of i' rs' n'] that by simp
    show "rs' = F i'" if "(i', rs') \<in> set (halo_of ?h n')" for n' i' rs'
      using that Cons.prems(2)[of i' rs' n'] by (auto simp: s split: if_splits)
  qed (rule d)
  moreover have "{(j, t). (j, t, n) \<in> set (m # ms)} =
      (if n = k then {(i, F i)} else {}) \<union> {(j, t). (j, t, n) \<in> set ms}"
    by (cases "n = k") (simp_all add: m rs set_eq_iff)
  ultimately show ?case by (simp only: fold_simps s Un_assoc)
qed

section \<open>The whole tick\<close>

text \<open>The halos a chunk receives are those of its neighbours that have cells near the shared face.\<close>

definition entry_rows :: "Registry \<Rightarrow> ChunkID \<Rightarrow> rows" where
  "entry_rows r i = rows (chunk_at r (the (map_of (chunks r) i)))"

lemma entry_rows_eq: "reg_wf r \<Longrightarrow> (i, a) \<in> set (chunks r) \<Longrightarrow> entry_rows r i = rows (chunk_at r a)"
  using map_of_chunks[of r i a] by (simp add: entry_rows_def)

lemma entries_iff:
  assumes "reg_wf r"
  shows "(i, rs) \<in> set (TickAll_entries r) \<longleftrightarrow> i \<in> fst ` set (chunks r) \<and> rs = entry_rows r i"
  using entry_rows_eq[OF assms] by (force simp: TickAll_entries_def Rows_def)

lemma entry_rows_board:
  assumes "reg_wf r" "i \<in> fst ` set (chunks r)"
  shows "wf_rows (entry_rows r i)" "board r \<inter> area i = cells_of i (entry_rows r i)"
proof -
  from assms(2) obtain a where a: "(i, a) \<in> set (chunks r)" by force
  show "wf_rows (entry_rows r i)" "board r \<inter> area i = cells_of i (entry_rows r i)"
    using reg_wfD(6)[OF assms(1) a] board_area[OF assms(1) a] entry_rows_eq[OF assms(1) a] by simp_all
qed

lemma map_of_entries:
  assumes "reg_wf r"
  shows "map_of (TickAll_entries r) i = (if i \<in> fst ` set (chunks r) then Some (entry_rows r i) else None)"
proof (cases "map_of (TickAll_entries r) i")
  case None
  have "fst ` set (TickAll_entries r) = fst ` set (chunks r)" by (force simp: TickAll_entries_def)
  with None show ?thesis by (simp add: map_of_eq_None_iff)
next
  case (Some rs)
  then have "(i, rs) \<in> set (TickAll_entries r)" by (rule map_of_SomeD)
  then show ?thesis unfolding entries_iff[OF assms] Some by simp
qed

definition scan_halos :: "Registry \<Rightarrow> (ChunkID \<times> (ChunkID \<times> rows) list) list" where
  "scan_halos r = fold send_halo (sends (TickAll_entries r)) []"

lemma scan_halos_valid:
  assumes "reg_wf r"
  shows "valid_halos (neighbours i) (halo_of (scan_halos r) i)"
    and "(n, rs) \<in> set (halo_of (scan_halos r) i) \<longleftrightarrow>
      n \<in> fst ` set (chunks r) \<and> rs = entry_rows r n \<and>
      (\<exists>d\<in>set neighbourOffsets. i = shift_id n d \<and> hasCellsNearEdge rs (fst d) (snd d))"
proof -
  have "distinct (map fst (halo_of (scan_halos r) i)) \<and>
    set (halo_of (scan_halos r) i) = set (halo_of [] i) \<union> {(n, rs). (n, rs, i) \<in> set (sends (TickAll_entries r))}"
    unfolding scan_halos_def
    by (rule halos_received[where F = "entry_rows r"]) (auto simp: set_sends entries_iff[OF assms] halo_of_def)
  then have d: "distinct (map fst (halo_of (scan_halos r) i))"
    and iff: "(n, rs) \<in> set (halo_of (scan_halos r) i) \<longleftrightarrow>
      n \<in> fst ` set (chunks r) \<and> rs = entry_rows r n \<and>
      (\<exists>d\<in>set neighbourOffsets. i = shift_id n d \<and> hasCellsNearEdge rs (fst d) (snd d))" for n rs
    by (simp_all add: halo_of_def[of "[]"] set_sends entries_iff[OF assms])
  show "(n, rs) \<in> set (halo_of (scan_halos r) i) \<longleftrightarrow>
      n \<in> fst ` set (chunks r) \<and> rs = entry_rows r n \<and>
      (\<exists>d\<in>set neighbourOffsets. i = shift_id n d \<and> hasCellsNearEdge rs (fst d) (snd d))" by (rule iff)
  have "n \<in> neighbours i \<and> wf_rows rs" if "(n, rs) \<in> set (halo_of (scan_halos r) i)" for n rs
  proof
    from that have n: "n \<in> fst ` set (chunks r)" "rs = entry_rows r n" "i \<in> neighbours n"
      unfolding iff neighbours_def by auto
    then show "n \<in> neighbours i" by (simp only: neighbours_sym[of n])
    show "wf_rows rs" unfolding n(2) by (rule entry_rows_board[OF assms n(1)])
  qed
  then show "valid_halos (neighbours i) (halo_of (scan_halos r) i)"
    using d by (auto simp: valid_halos_def)
qed

text \<open>A chunk that was not woken has no live cell next to it.\<close>

lemma reaching_neighbour:
  assumes r: "reg_wf r" and g: "g \<in> area i" and h: "h \<in> board r" "h \<in> set (moore_list g)" "h \<notin> area i"
  obtains n d where "n \<in> fst ` set (chunks r)" "d \<in> set neighbourOffsets" "i = shift_id n d"
    "hasCellsNearEdge (entry_rows r n) (fst d) (snd d)" "h \<in> cells_of n (entry_rows r n)"
proof -
  from moore_area[OF g h(2)] obtain n where n: "n \<in> insert i (neighbours i)" "h \<in> area n" by blast
  with h(3) have "n \<in> neighbours i" by auto
  then have "i \<in> neighbours n" by (simp only: neighbours_sym[of n])
  then obtain d where d: "d \<in> set neighbourOffsets" "i = shift_id n d"
    unfolding neighbours_def by (elim imageE)
  have act: "n \<in> fst ` set (chunks r)"
    using board_area_inactive[OF r, of n] h(1) n(2) by blast
  have cell: "h \<in> cells_of n (entry_rows r n)"
    using entry_rows_board(2)[OF r act] h(1) n(2) by blast
  have "hasCellsNearEdge (entry_rows r n) (fst d) (snd d)"
  proof (rule ccontr)
    assume "\<not> hasCellsNearEdge (entry_rows r n) (fst d) (snd d)"
    from not_near_edge_no_neighbour[OF entry_rows_board(1)[OF r act] d(1) this] g cell h(2)
    show False unfolding d(2) by blast
  qed
  then show thesis using that act d cell by blast
qed

lemma life_step_chunk:
  assumes r: "reg_wf r"
    and own: "cells_of i rs = board r \<inter> area i"
  shows "life_step (cells_of i rs \<union> halo_cells (halo_of (scan_halos r) i)) \<inter> area i = life_step (board r) \<inter> area i"
proof -
  let ?V = "cells_of i rs \<union> halo_cells (halo_of (scan_halos r) i)"
  have halo: "h \<in> halo_cells (halo_of (scan_halos r) i) \<longleftrightarrow>
      (\<exists>n. n \<in> fst ` set (chunks r) \<and> h \<in> cells_of n (entry_rows r n) \<and>
        (\<exists>d\<in>set neighbourOffsets. i = shift_id n d \<and> hasCellsNearEdge (entry_rows r n) (fst d) (snd d)))" for h
    unfolding halo_cells_def UN_iff Bex_def split_paired_Ex prod.case scan_halos_valid(2)[OF r] by blast
  have sub: "?V \<subseteq> board r"
  proof
    fix h assume "h \<in> ?V"
    then consider "h \<in> cells_of i rs" | n where "n \<in> fst ` set (chunks r)" "h \<in> cells_of n (entry_rows r n)"
      unfolding Un_iff halo by blast
    then show "h \<in> board r" by cases (use own entry_rows_board(2)[OF r] in blast)+
  qed
  have "g \<in> life_step ?V \<longleftrightarrow> g \<in> life_step (board r)" if g: "g \<in> area i" for g
  proof (rule life_step_local)
    have "h \<in> ?V" if h: "h \<in> board r" "h \<in> insert g (set (moore_list g))" for h
    proof (cases "h \<in> area i")
      case True
      then show ?thesis using own h by blast
    next
      case False
      then have "h \<in> set (moore_list g)" using h g by auto
      from reaching_neighbour[OF r g h(1) this False] show ?thesis unfolding Un_iff halo by blast
    qed
    then show "?V \<inter> insert g (set (moore_list g)) = board r \<inter> insert g (set (moore_list g))"
      using sub by blast
  qed
  then show ?thesis by blast
qed

lemma TickAll_prepare_unfold:
  assumes "reg_wf r"
  shows "TickAll_prepare cfg cancelled (r, w) =
    (let r1 = wake cfg w (map (\<lambda>(_, _, n). n) (sends (TickAll_entries r))) r
     in (map snd (filter (\<lambda>(i, _). \<not> cancelled i) (TickAll_jobs (TickAll_entries r) (r1, scan_halos r))), r1))"
proof -
  have "wf_rows rs" if "(i, rs) \<in> set (TickAll_entries r)" for i rs
    using that entry_rows_board(1)[OF assms] by (simp add: entries_iff[OF assms])
  then have "fold (TickAll_entry cfg w) (TickAll_entries r) (r, []) =
      (wake cfg w (map (\<lambda>(_, _, n). n) (sends (TickAll_entries r))) r, scan_halos r)"
    unfolding scan_halos_def by (rule TickAll_scan)
  then show ?thesis unfolding TickAll_prepare_def by (simp add: Let_def)
qed

text \<open>What is dispatched: one job for each active chunk, with its own rows and its halos.\<close>

definition job_for :: "Registry \<Rightarrow> Registry \<Rightarrow> ChunkID \<Rightarrow> handle \<Rightarrow> tickJob" where
  "job_for r r1 i a = \<lparr>state = a, chunkRows = rows (chunk_at r1 a), halos = halo_of (scan_halos r) i\<rparr>"

lemma TickAll_prepare_effect:
  assumes r: "reg_wf r" and load: "load_ok cfg w"
    and p: "TickAll_prepare cfg cancelled (r, w) = (jobs, r1)"
  shows "reg_wf r1" "workers r1 = workers r" "set (chunks r) \<subseteq> set (chunks r1)"
    "board r \<subseteq> board r1" "board r1 \<union> cold_cells cfg w r1 = board r \<union> cold_cells cfg w r"
    and "job \<in> set jobs \<longleftrightarrow> (\<exists>i a. \<not> cancelled i \<and> (i, a) \<in> set (chunks r1) \<and> job = job_for r r1 i a)"
    and "distinct (map state jobs)"
    and "n \<in> fst ` set (chunks r) \<Longrightarrow> d \<in> set neighbourOffsets \<Longrightarrow>
      hasCellsNearEdge (entry_rows r n) (fst d) (snd d) \<Longrightarrow> shift_id n d \<in> fst ` set (chunks r1)"
proof -
  let ?ns = "map (\<lambda>(_, _, n). n) (sends (TickAll_entries r))"
  have r1: "r1 = wake cfg w ?ns r"
    and jobs: "jobs = map snd (filter (\<lambda>(i, _). \<not> cancelled i) (TickAll_jobs (TickAll_entries r) (r1, scan_halos r)))"
    using p unfolding TickAll_prepare_unfold[OF r] Let_def by auto
  note wk = wake_effect[OF r load, of ?ns, folded r1]
  show wf1: "reg_wf r1" and "workers r1 = workers r" "set (chunks r) \<subseteq> set (chunks r1)"
    "board r \<subseteq> board r1" "board r1 \<union> cold_cells cfg w r1 = board r \<union> cold_cells cfg w r"
    using wk by blast+
  have rows: "(case map_of (TickAll_entries r) i of Some rs \<Rightarrow> rs | None \<Rightarrow> Rows (chunk_at r1 a)) = rows (chunk_at r1 a)"
    if a: "(i, a) \<in> set (chunks r1)" for i a
  proof (cases "i \<in> fst ` set (chunks r)")
    case True
    then obtain b where b: "(i, b) \<in> set (chunks r)" by force
    then have "(i, b) \<in> set (chunks r1)" using wk by blast
    then have "b = a" using a wf1 by (metis map_of_chunks option.inject)
    moreover have "entry_rows r i = rows (chunk_at r b)" by (rule entry_rows_eq[OF r b])
    moreover have "heap r1 ! b = heap r ! b" using wk reg_wfD(3)[OF r b] by blast
    ultimately show ?thesis using True by (simp add: map_of_entries[OF r])
  next
    case False
    then show ?thesis by (simp add: map_of_entries[OF r] Rows_def)
  qed
  then have alljobs: "TickAll_jobs (TickAll_entries r) (r1, scan_halos r) =
      map (\<lambda>(i, a). (i, job_for r r1 i a)) (chunks r1)"
    unfolding TickAll_jobs_def prod.case by (intro map_cong refl) (auto simp: job_for_def)
  show "job \<in> set jobs \<longleftrightarrow> (\<exists>i a. \<not> cancelled i \<and> (i, a) \<in> set (chunks r1) \<and> job = job_for r r1 i a)"
    unfolding jobs alljobs by force
  have "map state jobs = map snd (filter (\<lambda>(i, a). \<not> cancelled i) (chunks r1))"
    unfolding jobs alljobs by (simp add: filter_map comp_def case_prod_unfold job_for_def)
  then show "distinct (map state jobs)" using reg_wfD(2)[OF wf1] by (simp add: distinct_map_filter)
  show "shift_id n d \<in> fst ` set (chunks r1)"
    if "n \<in> fst ` set (chunks r)" "d \<in> set neighbourOffsets" "hasCellsNearEdge (entry_rows r n) (fst d) (snd d)"
  proof -
    from that have "(n, entry_rows r n, shift_id n d) \<in> set (sends (TickAll_entries r))"
      by (auto simp: set_sends entries_iff[OF r])
    then have "shift_id n d \<in> set ?ns" by (auto intro: rev_image_eqI)
    then show ?thesis using wk by blast
  qed
qed

lemma TickAll_prepare_heap:
  assumes "reg_wf r" "load_ok cfg w" "TickAll_prepare cfg cancelled (r, w) = (jobs, r1)"
  shows "\<forall>a<length (heap r). heap r1 ! a = heap r ! a"
  using wake_effect[OF assms(1,2)] assms(3) unfolding TickAll_prepare_unfold[OF assms(1)] Let_def by auto

text \<open>A valid schedule runs each dispatched job once, on a worker of the pool.\<close>

lemma schedule_jobs:
  assumes sched: "valid_schedule (length (workers r1)) sched" and dist: "distinct (map state jobs)"
    and jobs: "\<forall>job\<in>set jobs. (f (state job), state job) \<in> set (chunks r1)"
  shows "distinct (map (\<lambda>kj. state (snd kj)) (sched jobs))"
    and "(k, job) \<in> set (sched jobs) \<Longrightarrow> k < length (workers r1) \<and> (f (state job), state job) \<in> set (chunks r1)"
    and "job \<in> set jobs \<Longrightarrow> \<exists>k. (k, job) \<in> set (sched jobs)"
    and "snd ` set (sched jobs) = set jobs"
proof -
  have ms: "mset (map snd (sched jobs)) = mset jobs"
    and ks: "\<And>k job. (k, job) \<in> set (sched jobs) \<Longrightarrow> k < length (workers r1)"
    using sched by (force simp: valid_schedule_def)+
  show sj: "snd ` set (sched jobs) = set jobs"
    using arg_cong[OF ms, of set_mset] by simp
  have "mset (map (\<lambda>kj. state (snd kj)) (sched jobs)) = mset (map state jobs)"
    using arg_cong[OF ms, of "image_mset state"] by (simp add: comp_def multiset.map_comp)
  then show "distinct (map (\<lambda>kj. state (snd kj)) (sched jobs))"
    using dist mset_eq_imp_distinct_iff by blast
  show "(k, job) \<in> set (sched jobs) \<Longrightarrow> k < length (workers r1) \<and> (f (state job), state job) \<in> set (chunks r1)"
    using ks jobs sj by force
  show "job \<in> set jobs \<Longrightarrow> \<exists>k. (k, job) \<in> set (sched jobs)"
    unfolding sj[symmetric] by force
qed

text \<open>When nothing is cancelled, the jobs that are scheduled are one for each active chunk.\<close>

lemma scheduled_keys:
  fixes r1 :: Registry
  defines "key \<equiv> \<lambda>kj :: nat \<times> tickJob. ID (chunk_at r1 (state (snd kj)))"
  assumes r: "reg_wf r" and load: "load_ok cfg w" and p: "TickAll_prepare cfg (\<lambda>_. False) (r, w) = (jobs, r1)"
    and sched: "valid_schedule (length (workers r1)) sched"
  shows "kj \<in> set (sched jobs) \<Longrightarrow> (key kj, state (snd kj)) \<in> set (chunks r1) \<and> snd kj = job_for r r1 (key kj) (state (snd kj))"
    and "distinct (map key (sched jobs))" "key ` set (sched jobs) = fst ` set (chunks r1)"
proof -
  note prep = TickAll_prepare_effect[OF r load p]
  have fid: "ID (chunk_at r1 a) = j" if "(j, a) \<in> set (chunks r1)" for j a by (rule reg_wfD(4)[OF prep(1) that])
  have "\<forall>job\<in>set jobs. (ID (chunk_at r1 (state job)), state job) \<in> set (chunks r1)"
    using fid by (auto simp: prep(6) job_for_def)
  note sj = schedule_jobs[OF sched prep(7), of "\<lambda>a. ID (chunk_at r1 a)", OF this]
  show job: "(key kj, state (snd kj)) \<in> set (chunks r1) \<and> snd kj = job_for r r1 (key kj) (state (snd kj))"
    if "kj \<in> set (sched jobs)" for kj
  proof -
    have "snd kj \<in> set jobs" using that sj(4) by auto
    then show ?thesis using fid unfolding prep(6) key_def by (force simp: job_for_def)
  qed
  have "inj_on key (set (sched jobs))"
  proof (rule inj_onI)
    fix x y assume xy: "x \<in> set (sched jobs)" "y \<in> set (sched jobs)" "key x = key y"
    then have "state (snd x) = state (snd y)" using job prep(1) by (metis map_of_chunks option.inject)
    then show "x = y" using sj(1) xy(1,2) by (simp add: distinct_map inj_on_def)
  qed
  then show "distinct (map key (sched jobs))" using sj(1) by (simp add: distinct_map)
  have "i \<in> key ` set (sched jobs)" if "(i, a) \<in> set (chunks r1)" for i a
  proof -
    have "job_for r r1 i a \<in> set jobs" using that unfolding prep(6) by blast
    from sj(3)[OF this] obtain k where "(k, job_for r r1 i a) \<in> set (sched jobs)" by blast
    then show ?thesis using fid[OF that] by (force simp: job_for_def key_def)
  qed
  then show "key ` set (sched jobs) = fst ` set (chunks r1)" using job by force
qed

text \<open>The pool on the dispatched jobs, for any registry in which the jobs' states are active.\<close>

lemma pool_effect:
  assumes r1: "reg_wf r1" and sched: "valid_schedule (length (workers r1)) sched"
    and dist: "distinct (map state jobs)"
    and jobs: "\<forall>job\<in>set jobs. (f (state job), state job) \<in> set (chunks r1)"
    and run: "fold (runWorker_step cfg) (sched jobs) (r1, w) = (r', w')"
  shows "reg_wf r'" "workers r' = workers r1" "set (chunks r') \<subseteq> set (chunks r1)"
    "\<And>job. job \<in> set jobs \<Longrightarrow>
      board r' \<inter> area (f (state job)) = cells_of (f (state job)) (next_rows (f (state job)) job)"
    "(\<forall>job\<in>set jobs. f (state job) \<noteq> j) \<Longrightarrow> board r' \<inter> area j = board r1 \<inter> area j"
proof -
  note sj = schedule_jobs[OF sched dist jobs]
  note eff = run_jobs[OF r1 sj(1) sj(2) run]
  show "reg_wf r'" "workers r' = workers r1" "set (chunks r') \<subseteq> set (chunks r1)" using eff by blast+
  show "board r' \<inter> area (f (state job)) = cells_of (f (state job)) (next_rows (f (state job)) job)"
    if "job \<in> set jobs" for job
    using eff sj(3)[OF that] by blast
  show "board r' \<inter> area j = board r1 \<inter> area j" if "\<forall>job\<in>set jobs. f (state job) \<noteq> j"
    using eff that sj(4) by (metis (mono_tags, lifting) case_prodI2 image_eqI snd_conv)
qed

text \<open>A chunk that holds no cell and that no halo is sent to stays dark.\<close>

lemma unreached_chunk:
  assumes r: "reg_wf r" and out: "i \<notin> fst ` set (chunks r)"
    and no: "\<And>n d. n \<in> fst ` set (chunks r) \<Longrightarrow> d \<in> set neighbourOffsets \<Longrightarrow>
      hasCellsNearEdge (entry_rows r n) (fst d) (snd d) \<Longrightarrow> shift_id n d \<noteq> i"
  shows "life_step (board r) \<inter> area i = {}"
proof -
  have "g \<notin> life_step (board r)" if g: "g \<in> area i" for g
  proof
    assume "g \<in> life_step (board r)"
    from life_step_needs_neighbour[OF this] obtain h where h: "h \<in> board r" "h \<in> set (moore_list g)" by blast
    then have "h \<notin> area i" using board_area_inactive[OF r out] by blast
    from reaching_neighbour[OF r g h this] no show False by metis
  qed
  then show ?thesis by blast
qed

text \<open>The job of an active chunk computes its part of the next generation, and a chunk that was not woken has none.\<close>

lemma dispatched_next:
  assumes r: "reg_wf r" and load: "load_ok cfg w" and cold: "cold_cells cfg w r = {}"
    and p: "TickAll_prepare cfg cancelled (r, w) = (jobs, r1)"
  shows "board r1 = board r"
    and "(i, a) \<in> set (chunks r1) \<Longrightarrow> cells_of i (next_rows i (job_for r r1 i a)) = life_step (board r) \<inter> area i"
    and "i \<notin> fst ` set (chunks r1) \<Longrightarrow> life_step (board r) \<inter> area i = {} \<and> board r \<inter> area i = {}"
proof -
  note prep = TickAll_prepare_effect[OF r load p]
  show b1: "board r1 = board r" using prep(4,5) cold by blast
  show "cells_of i (next_rows i (job_for r r1 i a)) = life_step (board r) \<inter> area i" if a: "(i, a) \<in> set (chunks r1)"
  proof -
    have "cells_of i (next_rows i (job_for r r1 i a)) =
        life_step (cells_of i (rows (chunk_at r1 a)) \<union> halo_cells (halo_of (scan_halos r) i)) \<inter> area i"
      unfolding next_rows_def job_for_def
      by (simp add: cells_of_TickBitset reg_wfD(6)[OF prep(1) a] scan_halos_valid(1)[OF r])
    also have "\<dots> = life_step (board r) \<inter> area i"
      by (rule life_step_chunk[OF r]) (simp add: board_area[OF prep(1) a, symmetric] b1)
    finally show ?thesis .
  qed
  assume out: "i \<notin> fst ` set (chunks r1)"
  have "life_step (board r) \<inter> area i = {}"
  proof (rule unreached_chunk[OF r])
    show "i \<notin> fst ` set (chunks r)" using prep(3) out by blast
  qed (use prep(8) out in blast)
  moreover have "board r \<inter> area i = {}" using board_area_inactive[OF prep(1) out] b1 by simp
  ultimately show "life_step (board r) \<inter> area i = {} \<and> board r \<inter> area i = {}" by blast
qed

lemma TickAll_board:
  assumes r: "reg_wf r" and load: "load_ok cfg w" and cold: "cold_cells cfg w r = {}"
    and sched: "valid_schedule (length (workers r)) sched"
    and res: "TickAll cfg cancelled sched (r, w) = (r', w')"
  shows "reg_wf r'" "workers r' = workers r"
    "board r' \<inter> area i = (if cancelled i then board r else life_step (board r)) \<inter> area i"
proof -
  obtain jobs r1 where p: "TickAll_prepare cfg cancelled (r, w) = (jobs, r1)" by (metis prod.exhaust)
  note prep = TickAll_prepare_effect[OF r load p] and gen = dispatched_next[OF r load cold p]
  have run: "fold (runWorker_step cfg) (sched jobs) (r1, w) = (r', w')"
    using res by (simp add: TickAll_def p)
  define f where "f a = ID (chunk_at r1 a)" for a
  have fid: "f a = j" if "(j, a) \<in> set (chunks r1)" for j a
    unfolding f_def by (rule reg_wfD(4)[OF prep(1) that])
  have act: "\<forall>job\<in>set jobs. (f (state job), state job) \<in> set (chunks r1)"
    using fid by (auto simp: prep(6) job_for_def)
  note pool = pool_effect[OF prep(1) sched[folded prep(2)] prep(7) act run]
  show "reg_wf r'" "workers r' = workers r" using pool(1,2) prep(2) by simp_all
  show "board r' \<inter> area i = (if cancelled i then board r else life_step (board r)) \<inter> area i"
  proof (cases "\<not> cancelled i \<and> i \<in> fst ` set (chunks r1)")
    case True
    then obtain a where a: "(i, a) \<in> set (chunks r1)" by force
    then have "job_for r r1 i a \<in> set jobs" using True unfolding prep(6) by blast
    from pool(4)[OF this] have "board r' \<inter> area i = cells_of i (next_rows i (job_for r r1 i a))"
      by (simp add: job_for_def fid[OF a])
    then show ?thesis using True gen(2)[OF a] by simp
  next
    case False
    have "f (state job) \<noteq> i" if "job \<in> set jobs" for job
      using that fid False unfolding prep(6) by (force simp: job_for_def)
    then have "board r' \<inter> area i = board r \<inter> area i" using pool(5) gen(1) by auto
    then show ?thesis using False gen(3)[of i] by auto
  qed
qed

section \<open>Properties\<close>

definition in_order :: "tickJob list \<Rightarrow> (nat \<times> tickJob) list" where
  "in_order = map (Pair 0)"

lemma in_order_valid: "0 < n \<Longrightarrow> valid_schedule n in_order"
  by (auto simp: valid_schedule_def in_order_def comp_def)

text \<open>A registry with one live cell, used by the witnesses.\<close>

definition demo_registry :: Registry where
  "demo_registry =
     (case GetOrCreate no_callbacks () (ChunkID 0 0) (NewRegistry 4 None) of
        (a, r) \<Rightarrow> ProcessSpawn a 63 5 r)"

lemma demo_registry_facts:
  "reg_wf demo_registry" "map_of (chunks demo_registry) (ChunkID 0 0) = Some 0"
  "length (workers demo_registry) = 4"
proof -
  have g: "GetOrCreate no_callbacks () (ChunkID 0 0) (NewRegistry 4 None) =
      (0, snd (GetOrCreate no_callbacks () (ChunkID 0 0) (NewRegistry 4 None)))"
    by (simp add: GetOrCreate_def GetOrCreate_insert_def NewRegistry_def Let_def)
  let ?r = "snd (GetOrCreate no_callbacks () (ChunkID 0 0) (NewRegistry 4 None))"
  have d: "demo_registry = ProcessSpawn 0 63 5 ?r" unfolding demo_registry_def by (subst g) simp
  have wf: "reg_wf ?r" by (rule GetOrCreate_wf) simp_all
  have m: "(ChunkID 0 0, 0) \<in> set (chunks ?r)"
    using GetOrCreate_wf(2)[OF reg_wf_fresh[of 4] no_callbacks_ok(1)[of "()"], of "ChunkID 0 0"] g by (metis fst_conv)
  show "reg_wf demo_registry" unfolding d by (rule ProcessSpawn_wf[OF wf reg_wfD(3)[OF wf m]])
  then show "map_of (chunks demo_registry) (ChunkID 0 0) = Some 0"
    using map_of_chunks[of demo_registry "ChunkID 0 0" 0] m by (simp add: d)
  show "length (workers demo_registry) = 4"
    unfolding d chunks_ProcessSpawn GetOrCreate_frame(5) by (simp add: NewRegistry_def Let_def)
qed

text \<open>
  C4. The tick is one generation of Life on the whole board: whatever the worker pool does with the
  jobs, \<open>TickAll\<close> turns the board of the active chunks into its next generation, waking the
  neighbours it spreads to and dropping only chunks that hold no cell. It needs that storage holds
  no live cell of an inactive chunk and that the context is not cancelled.
\<close>

theorem tick_all_is_life:
  assumes "reg_wf r" and "load_ok cfg w" and "cold_cells cfg w r = {}"
    and "valid_schedule (length (workers r)) sched"
  shows "board (fst (TickAll cfg (\<lambda>_. False) sched (r, w))) = life_step (board r) \<and>
         reg_wf (fst (TickAll cfg (\<lambda>_. False) sched (r, w)))"
proof -
  obtain r' w' where res: "TickAll cfg (\<lambda>_. False) sched (r, w) = (r', w')" by (metis prod.exhaust)
  note t = TickAll_board[OF assms res]
  have "board r' = life_step (board r)" by (rule board_eqI) (use t(3) in simp)
  then show ?thesis using t(1) res by simp
qed

theorem tick_all_is_life_witness:
  "board (fst (TickAll no_callbacks (\<lambda>_. False) in_order (demo_registry, ()))) = life_step (board demo_registry)"
  using tick_all_is_life[OF demo_registry_facts(1) no_callbacks_ok, of in_order]
    in_order_valid[of 4] demo_registry_facts(3) by simp

text \<open>
  The board after a tick does not depend on the order in which the workers finish their jobs nor
  on which worker runs which job, also when the context is cancelled part of the way: a chunk whose
  job was dropped keeps its cells.
\<close>

theorem tick_schedule_irrelevant:
  assumes "reg_wf r" and "load_ok cfg w" and "cold_cells cfg w r = {}"
    and "valid_schedule (length (workers r)) sched" and "valid_schedule (length (workers r)) sched'"
  shows "board (fst (TickAll cfg cancelled sched (r, w))) = board (fst (TickAll cfg cancelled sched' (r, w))) \<and>
    (cancelled i \<longrightarrow> board (fst (TickAll cfg cancelled sched (r, w))) \<inter> area i = board r \<inter> area i)"
proof -
  obtain r1 w1 where res: "TickAll cfg cancelled sched (r, w) = (r1, w1)" by (metis prod.exhaust)
  obtain r2 w2 where res': "TickAll cfg cancelled sched' (r, w) = (r2, w2)" by (metis prod.exhaust)
  note t = TickAll_board(3)[OF assms(1-4) res] and t' = TickAll_board(3)[OF assms(1-3,5) res']
  have "board r1 = board r2" by (rule board_eqI) (simp only: t t')
  then show ?thesis using t[of i] res res' by simp
qed

theorem tick_schedule_irrelevant_witness:
  "board (fst (TickAll no_callbacks (\<lambda>_. False) in_order (demo_registry, ()))) =
   board (fst (TickAll no_callbacks (\<lambda>_. False) (\<lambda>js. rev (map (Pair 3) js)) (demo_registry, ())))"
proof -
  have "valid_schedule 4 (\<lambda>js. rev (map (Pair 3) js))"
    by (auto simp: valid_schedule_def rev_map[symmetric] comp_def)
  then show ?thesis
    using tick_schedule_irrelevant[OF demo_registry_facts(1) no_callbacks_ok, of in_order]
      in_order_valid[of 4] demo_registry_facts(3) by simp
qed

text \<open>
  C25. Hibernation: a job removes its chunk from the registry exactly when the next generation is empty,
  nobody watches the chunk and this is at least its hundredth idle tick in a row; the chunk handed
  to \<open>Persist\<close> then has no live cell. Otherwise the idle counter goes up by one on an idle tick and
  back to zero on any other.
\<close>

theorem hibernation_exact:
  fixes cfg :: "'w RegistryConfig" and w :: 'w
  assumes "reg_wf r" and "(i, state job) \<in> set (chunks r)"
    and "processJob cfg job zero_scratch (r, w) = (sc', r', w')"
  defines "w1 \<equiv> after_tick_world cfg i (next_rows i job) w"
  defines "idle \<equiv> next_rows i job = zero_rows \<and> \<not> watched cfg i w1"
  shows "(i \<notin> fst ` set (chunks r') \<longleftrightarrow> idle \<and> 99 \<le> sint (idleTicks (heap r ! state job))) \<and>
    w' = (if i \<in> fst ` set (chunks r') then w1 else persisted_world cfg \<lparr>ID = i, rows = zero_rows\<rparr> w1) \<and>
    idleTicks (heap r' ! state job) = (if idle then idleTicks (heap r ! state job) + 1 else 0)"
proof -
  have a: "state job < length (heap r)" using reg_wfD(3)[OF assms(1,2)] .
  have "i \<in> fst ` set (chunks r)" using assms(2) by force
  moreover have "i \<notin> fst ` set (chunks (evict i (stored i job r)))" by (auto simp: set_chunks_evict)
  moreover have "heap (stored i job r) ! state job = (heap r ! state job)\<lparr>chunk := (chunk_at r (state job))\<lparr>rows := next_rows i job\<rparr>\<rparr>"
    by (simp add: heap_stored a)
  ultimately show ?thesis
    using assms(3) processJob_cases[OF assms(1,2), of cfg w] a
    unfolding idle_def w1_def by (auto simp: heap_update_state split: if_splits)
qed

theorem hibernation_exact_witness:
  "ChunkID 0 0 \<in> fst ` set (chunks (fst (snd (processJob no_callbacks
     \<lparr>state = 0, chunkRows = zero_rows, halos = []\<rparr> zero_scratch (demo_registry, ())))))"
proof -
  let ?job = "\<lparr>state = 0, chunkRows = zero_rows, halos = []\<rparr>"
  have e: "(ChunkID 0 0, state ?job) \<in> set (chunks demo_registry)"
    using demo_registry_facts(2) by (simp add: map_of_SomeD)
  obtain sc' r' where res: "processJob no_callbacks ?job zero_scratch (demo_registry, ()) = (sc', r', ())"
    by (metis (full_types) old.unit.exhaust prod_cases3)
  have "sint (idleTicks (heap demo_registry ! 0)) = 0"
    by (simp add: demo_registry_def GetOrCreate_def GetOrCreate_insert_def NewRegistry_def Let_def
        ProcessSpawn_def update_state_def)
  with hibernation_exact[OF demo_registry_facts(1) e res] show ?thesis using res by auto
qed



end
