(* ===== verification/Json.thy ===== *)
theory Json
  imports Prelude
begin

text \<open>
  What the program uses of Go's \<^verbatim>\<open>encoding/json\<close>, at the level of bytes (a \<open>string\<close> is the list of
  the bytes): the values, the scanner and the printer. The parser keeps an explicit stack as Go's scanner does,
  so it is recursive on the list of tokens and needs no fuel. Numbers stay literals.
\<close>

datatype json =
    JNull
  | JBool bool
  | JNum string
  | JStr string
  | JArr "json list"
  | JObj "(string \<times> json) list"

abbreviation byte :: "char \<Rightarrow> nat" where
  "byte \<equiv> of_char"

abbreviation dquote :: char where
  "dquote \<equiv> CHR 0x22"

abbreviation backslash :: char where
  "backslash \<equiv> CHR 0x5C"

section \<open>Decimal numerals\<close>

fun dec_nat :: "nat \<Rightarrow> string" where
  "dec_nat n = (if n < 10 then [char_of (48 + n)] else dec_nat (n div 10) @ [char_of (48 + n mod 10)])"

declare dec_nat.simps [simp del]

definition dec_int :: "int \<Rightarrow> string" where
  "dec_int i = (if i < 0 then CHR ''-'' # dec_nat (nat (- i)) else dec_nat (nat i))"

definition is_digit :: "char \<Rightarrow> bool" where
  "is_digit c \<longleftrightarrow> 48 \<le> byte c \<and> byte c \<le> 57"

definition digits_value :: "string \<Rightarrow> int" where
  "digits_value ds = foldl (\<lambda>n c. 10 * n + (of_char c - 48)) 0 ds"

section \<open>Bytes and runes\<close>

definition continuation :: "nat \<Rightarrow> bool" where
  "continuation b \<longleftrightarrow> 0x80 \<le> b \<and> b \<le> 0xBF"

text \<open>The width of the well-formed UTF-8 sequence at the head of the bytes, 0 if there is none.\<close>

definition utf8_width :: "nat list \<Rightarrow> nat" where
  "utf8_width bs =
     (case bs of
        [] \<Rightarrow> 0
      | b # r \<Rightarrow>
          if b < 0x80 then 1
          else if 0xC2 \<le> b \<and> b \<le> 0xDF \<and> 1 \<le> length r \<and> continuation (r ! 0) then 2
          else if 0xE0 \<le> b \<and> b \<le> 0xEF \<and> 2 \<le> length r \<and> continuation (r ! 0) \<and> continuation (r ! 1) \<and>
             (b = 0xE0 \<longrightarrow> 0xA0 \<le> r ! 0) \<and> (b = 0xED \<longrightarrow> r ! 0 \<le> 0x9F) then 3
          else if 0xF0 \<le> b \<and> b \<le> 0xF4 \<and> 3 \<le> length r \<and> continuation (r ! 0) \<and> continuation (r ! 1) \<and>
             continuation (r ! 2) \<and> (b = 0xF0 \<longrightarrow> 0x90 \<le> r ! 0) \<and> (b = 0xF4 \<longrightarrow> r ! 0 \<le> 0x8F) then 4
          else 0)"

definition utf8_encode :: "nat \<Rightarrow> string" where
  "utf8_encode u = map char_of
     (if u < 0x80 then [u]
      else if u < 0x800 then [0xC0 + u div 64, 0x80 + u mod 64]
      else if u < 0x10000 then [0xE0 + u div 4096, 0x80 + u div 64 mod 64, 0x80 + u mod 64]
      else [0xF0 + u div 262144, 0x80 + u div 4096 mod 64, 0x80 + u div 64 mod 64, 0x80 + u mod 64])"

definition replacement :: string where
  "replacement = utf8_encode 0xFFFD"

definition hex_value :: "char \<Rightarrow> nat option" where
  "hex_value c =
     (if is_digit c then Some (byte c - 48)
      else if 97 \<le> byte c \<and> byte c \<le> 102 then Some (byte c - 87)
      else if 65 \<le> byte c \<and> byte c \<le> 70 then Some (byte c - 55)
      else None)"

text \<open>Four hexadecimal digits, and the same after \<^verbatim>\<open>\u\<close>.\<close>

definition hex4 :: "string \<Rightarrow> nat option" where
  "hex4 s =
     (case map hex_value (take 4 s) of
        [Some a, Some b, Some c, Some d] \<Rightarrow> Some (((a * 16 + b) * 16 + c) * 16 + d)
      | _ \<Rightarrow> None)"

definition getu4 :: "string \<Rightarrow> nat option" where
  "getu4 s = (if take 2 s = [backslash, CHR ''u''] then hex4 (drop 2 s) else None)"

definition escape_char :: "char \<Rightarrow> char option" where
  "escape_char e = map_of
     [(dquote, dquote), (backslash, backslash), (CHR ''/'', CHR ''/''), (CHR ''b'', CHR 0x08),
      (CHR ''f'', CHR 0x0C), (CHR ''n'', CHR 0x0A), (CHR ''r'', CHR 0x0D), (CHR ''t'', CHR 0x09)] e"

definition prepend :: "string \<Rightarrow> (string \<times> string) option \<Rightarrow> (string \<times> string) option" where
  "prepend bs = map_option (\<lambda>(t, r). (bs @ t, r))"

text \<open>The rest of a string literal after the opening quote: its decoded bytes and what follows it.\<close>

function scan_str :: "string \<Rightarrow> (string \<times> string) option" where
  "scan_str [] = None"
| "scan_str (c # r) =
     (if c = dquote then Some ([], r)
      else if c = backslash then
        (case r of
           [] \<Rightarrow> None
         | e # r1 \<Rightarrow>
             (case escape_char e of
                Some b \<Rightarrow> prepend [b] (scan_str r1)
              | None \<Rightarrow>
                  if e \<noteq> CHR ''u'' then None
                  else (case hex4 r1 of
                          None \<Rightarrow> None
                        | Some u \<Rightarrow>
                            if 0xD800 \<le> u \<and> u < 0xE000 then
                              (case getu4 (drop 4 r1) of
                                 Some l \<Rightarrow>
                                   if u < 0xDC00 \<and> 0xDC00 \<le> l \<and> l < 0xE000
                                   then prepend (utf8_encode ((u - 0xD800) * 1024 + (l - 0xDC00) + 0x10000))
                                          (scan_str (drop 10 r1))
                                   else prepend replacement (scan_str (drop 4 r1))
                               | None \<Rightarrow> prepend replacement (scan_str (drop 4 r1)))
                            else prepend (utf8_encode u) (scan_str (drop 4 r1)))))
      else if byte c < 32 then None
      else if utf8_width (map byte (c # r)) = 0 then prepend replacement (scan_str r)
      else prepend (take (utf8_width (map byte (c # r))) (c # r))
             (scan_str (drop (utf8_width (map byte (c # r)) - 1) r)))"
  by pat_completeness auto

termination
  by (relation "measure length") auto

declare scan_str.simps(2) [simp del]

section \<open>Tokens\<close>

text \<open>A number literal at the head of the input.\<close>

definition scan_int :: "string \<Rightarrow> (string \<times> string) option" where
  "scan_int s =
     (case s of
        [] \<Rightarrow> None
      | c # r \<Rightarrow> if c = CHR ''0'' then Some ([c], r)
                 else if is_digit c then Some (takeWhile is_digit s, dropWhile is_digit s)
                 else None)"

definition scan_digits :: "string \<Rightarrow> string \<Rightarrow> (string \<times> string) option" where
  "scan_digits pre s =
     (if takeWhile is_digit s = [] then None else Some (pre @ takeWhile is_digit s, dropWhile is_digit s))"

definition scan_frac :: "string \<Rightarrow> (string \<times> string) option" where
  "scan_frac s =
     (case s of c # r \<Rightarrow> if c = CHR ''.'' then scan_digits [c] r else Some ([], s) | [] \<Rightarrow> Some ([], s))"

definition scan_exp :: "string \<Rightarrow> (string \<times> string) option" where
  "scan_exp s =
     (case s of
        c # r \<Rightarrow>
          if c = CHR ''e'' \<or> c = CHR ''E'' then
            (case r of
               d # r' \<Rightarrow> if d = CHR ''+'' \<or> d = CHR ''-'' then scan_digits [c, d] r' else scan_digits [c] r
             | [] \<Rightarrow> None)
          else Some ([], s)
      | [] \<Rightarrow> Some ([], s))"

definition scan_number :: "string \<Rightarrow> (string \<times> string) option" where
  "scan_number s =
     (let (sgn, s1) = (case s of c # r \<Rightarrow> if c = CHR ''-'' then ([c], r) else ([], s) | [] \<Rightarrow> ([], s))
      in case scan_int s1 of
           None \<Rightarrow> None
         | Some (i, s2) \<Rightarrow>
             (case scan_frac s2 of
                None \<Rightarrow> None
              | Some (f, s3) \<Rightarrow>
                  (case scan_exp s3 of
                     None \<Rightarrow> None
                   | Some (e, s4) \<Rightarrow> Some (sgn @ i @ f @ e, s4))))"

datatype token = LBrace | RBrace | LBrack | RBrack | Comma | Colon | Val json

definition is_space :: "char \<Rightarrow> bool" where
  "is_space c \<longleftrightarrow> byte c \<in> {32, 9, 13, 10}"

definition punctuation :: "char \<Rightarrow> token option" where
  "punctuation c = map_of
     [(CHR ''{'', LBrace), (CHR ''}'', RBrace), (CHR ''['', LBrack), (CHR '']'', RBrack),
      (CHR '','', Comma), (CHR '':'', Colon)] c"

definition scan_value :: "string \<Rightarrow> (json \<times> string) option" where
  "scan_value s =
     (if take 1 s = [dquote] then map_option (\<lambda>(t, r). (JStr t, r)) (scan_str (drop 1 s))
      else if take 4 s = ''null'' then Some (JNull, drop 4 s)
      else if take 4 s = ''true'' then Some (JBool True, drop 4 s)
      else if take 5 s = ''false'' then Some (JBool False, drop 5 s)
      else map_option (\<lambda>(n, r). (JNum n, r)) (scan_number s))"

lemma scan_str_length: "scan_str s = Some (t, r) \<Longrightarrow> length r < length s"
proof (induction "length s" arbitrary: s t r rule: less_induct)
  case less
  have rest: "length r < length s"
    if "prepend bs (scan_str s') = Some (t, r)" "length s' < length s" for bs s'
  proof -
    from that(1) obtain t' where "scan_str s' = Some (t', r)" by (auto simp: prepend_def)
    with less(1)[OF that(2)] that(2) show ?thesis by fastforce
  qed
  show ?case
  proof (cases s)
    case (Cons c s')
    show ?thesis
      using less(2) unfolding Cons scan_str.simps(2)
      by (auto simp: Cons split: if_splits list.splits option.splits dest!: rest)
  qed (use less(2) in simp)
qed

lemma scan_number_length: "scan_number s = Some (t, r) \<Longrightarrow> length r < length s"
proof -
  assume n: "scan_number s = Some (t, r)"
  have drop: "length (dropWhile P xs) \<le> length xs" for P and xs :: string by (rule length_dropWhile_le)
  have d: "scan_digits p u = Some (v, w) \<Longrightarrow> length w \<le> length u" for p u v w
    using drop by (auto simp: scan_digits_def split: if_splits)
  have i: "scan_int u = Some (v, w) \<Longrightarrow> length w < length u" for u v w
    using drop[of is_digit] by (auto simp: scan_int_def le_imp_less_Suc split: list.splits if_splits)
  have f: "scan_frac u = Some (v, w) \<Longrightarrow> length w \<le> length u" for u v w
    by (auto simp: scan_frac_def split: list.splits if_splits dest: d)
  have e: "scan_exp u = Some (v, w) \<Longrightarrow> length w \<le> length u" for u v w
    by (auto simp: scan_exp_def split: list.splits if_splits dest: d)
  show ?thesis
    using n unfolding scan_number_def
    by (auto simp: Let_def split: prod.splits option.splits list.splits if_splits dest!: i f e)
qed

lemma scan_value_length: "scan_value s = Some (v, r) \<Longrightarrow> length r < length s"
  by (auto simp: scan_value_def split: if_splits dest: scan_number_length)
    (cases s; auto dest!: scan_str_length)+

function lex :: "string \<Rightarrow> token list option" where
  "lex [] = Some []"
| "lex (c # r) =
     (if is_space c then lex r
      else (case punctuation c of
              Some t \<Rightarrow> map_option ((#) t) (lex r)
            | None \<Rightarrow>
                (case scan_value (c # r) of
                   None \<Rightarrow> None
                 | Some (v, r') \<Rightarrow> map_option ((#) (Val v)) (lex r'))))"
  by pat_completeness auto

termination
  by (relation "measure length") (auto dest: scan_value_length)

declare lex.simps(2) [simp del]

section \<open>The parser\<close>

text \<open>An open array with its elements, an open object with its members, a member whose value is being read.\<close>

datatype frame = FArr "json list" | FObj "(string \<times> json) list" | FKey string "(string \<times> json) list"

datatype parser =
    BeginValue "frame list"
  | BeginValueOrEmpty "frame list"
  | BeginString "frame list"
  | BeginStringOrEmpty "frame list"
  | AfterKey string "frame list"
  | AfterElement "frame list"
  | Done json

definition maxNestingDepth :: nat where
  "maxNestingDepth = 10000"

fun complete :: "json \<Rightarrow> frame list \<Rightarrow> parser" where
  "complete v [] = Done v"
| "complete v (FArr vs # fs) = AfterElement (FArr (vs @ [v]) # fs)"
| "complete v (FKey k kvs # fs) = AfterElement (FObj (kvs @ [(k, v)]) # fs)"
| "complete v (FObj kvs # fs) = AfterElement (FObj kvs # fs)"

fun begin_value :: "frame list \<Rightarrow> token \<Rightarrow> parser option" where
  "begin_value fs (Val v) = Some (complete v fs)"
| "begin_value fs LBrace =
     (if length fs < maxNestingDepth then Some (BeginStringOrEmpty (FObj [] # fs)) else None)"
| "begin_value fs LBrack =
     (if length fs < maxNestingDepth then Some (BeginValueOrEmpty (FArr [] # fs)) else None)"
| "begin_value fs _ = None"

fun begin_string :: "frame list \<Rightarrow> token \<Rightarrow> parser option" where
  "begin_string fs (Val (JStr k)) = Some (AfterKey k fs)"
| "begin_string fs _ = None"

fun parse_step :: "parser \<Rightarrow> token \<Rightarrow> parser option" where
  "parse_step (BeginValue fs) t = begin_value fs t"
| "parse_step (BeginValueOrEmpty (FArr vs # fs)) RBrack = Some (complete (JArr vs) fs)"
| "parse_step (BeginValueOrEmpty fs) t = begin_value fs t"
| "parse_step (BeginString fs) t = begin_string fs t"
| "parse_step (BeginStringOrEmpty (FObj kvs # fs)) RBrace = Some (complete (JObj kvs) fs)"
| "parse_step (BeginStringOrEmpty fs) t = begin_string fs t"
| "parse_step (AfterKey k (FObj kvs # fs)) Colon = Some (BeginValue (FKey k kvs # fs))"
| "parse_step (AfterElement (FArr vs # fs)) Comma = Some (BeginValue (FArr vs # fs))"
| "parse_step (AfterElement (FArr vs # fs)) RBrack = Some (complete (JArr vs) fs)"
| "parse_step (AfterElement (FObj kvs # fs)) Comma = Some (BeginString (FObj kvs # fs))"
| "parse_step (AfterElement (FObj kvs # fs)) RBrace = Some (complete (JObj kvs) fs)"
| "parse_step _ _ = None"

fun parse_tokens :: "parser \<Rightarrow> token list \<Rightarrow> parser option" where
  "parse_tokens p [] = Some p"
| "parse_tokens p (t # ts) = (case parse_step p t of None \<Rightarrow> None | Some p' \<Rightarrow> parse_tokens p' ts)"

definition parse_json :: "string \<Rightarrow> json option" where
  "parse_json s =
     (case lex s of
        None \<Rightarrow> None
      | Some ts \<Rightarrow> (case parse_tokens (BeginValue []) ts of Some (Done v) \<Rightarrow> Some v | _ \<Rightarrow> None))"

section \<open>The printer\<close>

definition hex_digit :: "nat \<Rightarrow> char" where
  "hex_digit n = char_of (if n < 10 then 48 + n else 87 + n)"

definition escape_byte :: "char \<Rightarrow> string" where
  "escape_byte c =
     (case map_of [(dquote, dquote), (backslash, backslash), (CHR 0x08, CHR ''b''), (CHR 0x0C, CHR ''f''),
                   (CHR 0x0A, CHR ''n''), (CHR 0x0D, CHR ''r''), (CHR 0x09, CHR ''t'')] c of
        Some e \<Rightarrow> [backslash, e]
      | None \<Rightarrow>
          if byte c < 32 \<or> c \<in> {CHR ''<'', CHR ''>'', CHR ''&''}
          then [backslash, CHR ''u'', CHR ''0'', CHR ''0'', hex_digit (byte c div 16), hex_digit (byte c mod 16)]
          else [c])"

function quote_body :: "string \<Rightarrow> string" where
  "quote_body [] = []"
| "quote_body (c # r) =
     (if byte c < 128 then escape_byte c @ quote_body r
      else if utf8_width (map byte (c # r)) = 0 then backslash # ''ufffd'' @ quote_body r
      else if take 3 (c # r) = utf8_encode 0x2028 then backslash # ''u2028'' @ quote_body (drop 2 r)
      else if take 3 (c # r) = utf8_encode 0x2029 then backslash # ''u2029'' @ quote_body (drop 2 r)
      else take (utf8_width (map byte (c # r))) (c # r) @
             quote_body (drop (utf8_width (map byte (c # r)) - 1) r))"
  by pat_completeness auto

termination
  by (relation "measure length") auto

declare quote_body.simps(2) [simp del]

definition quote_json :: "string \<Rightarrow> string" where
  "quote_json s = [dquote] @ quote_body s @ [dquote]"

fun comma_sep :: "string list \<Rightarrow> string" where
  "comma_sep [] = []"
| "comma_sep [s] = s"
| "comma_sep (s # t # ss) = s @ '','' @ comma_sep (t # ss)"

fun print_json :: "json \<Rightarrow> string" where
  "print_json JNull = ''null''"
| "print_json (JBool b) = (if b then ''true'' else ''false'')"
| "print_json (JNum n) = n"
| "print_json (JStr s) = quote_json s"
| "print_json (JArr vs) = ''['' @ comma_sep (map print_json vs) @ '']''"
| "print_json (JObj kvs) =
     ''{'' @ comma_sep (map (\<lambda>kv. quote_json (fst kv) @ '':'' @ print_json (snd kv)) kvs) @ ''}''"

end
