(* ===== verification/Json_Roundtrip.thy ===== *)
theory Json_Roundtrip
  imports Json
begin

text \<open>
  Parsing what was printed gives the value back: for values whose numbers are literals, whose
  strings are printable ASCII without the characters the printer escapes, and which are not nested too
  deeply. Every message and every stored chunk the server prints is such a value.
\<close>

section \<open>Numerals\<close>

definition boundary :: "string \<Rightarrow> bool" where
  "boundary s \<longleftrightarrow> (case s of [] \<Rightarrow> True | c # _ \<Rightarrow> \<not> is_digit c \<and> c \<noteq> CHR ''.'' \<and> c \<noteq> CHR ''e'' \<and> c \<noteq> CHR ''E'')"

definition number_literal :: "string \<Rightarrow> bool" where
  "number_literal n \<longleftrightarrow> scan_number n = Some (n, [])"

lemma span_boundary:
  assumes "boundary rest"
  shows "takeWhile is_digit (s @ rest) = takeWhile is_digit s" "dropWhile is_digit (s @ rest) = dropWhile is_digit s @ rest"
proof -
  have "takeWhile is_digit rest = []" "dropWhile is_digit rest = rest"
    using assms by (auto simp: boundary_def split: list.splits)
  then show "takeWhile is_digit (s @ rest) = takeWhile is_digit s" "dropWhile is_digit (s @ rest) = dropWhile is_digit s @ rest"
    by (induction s) auto
qed

lemma scan_boundary:
  assumes b: "boundary rest"
  shows "scan_int s = Some (t, r) \<Longrightarrow> scan_int (s @ rest) = Some (t, r @ rest)"
    and "scan_frac s = Some (t, r) \<Longrightarrow> scan_frac (s @ rest) = Some (t, r @ rest)"
    and "scan_exp s = Some (t, r) \<Longrightarrow> scan_exp (s @ rest) = Some (t, r @ rest)"
    and "scan_number s = Some (t, r) \<Longrightarrow> scan_number (s @ rest) = Some (t, r @ rest)"
proof -
  have head: "rest = c # u \<Longrightarrow> \<not> is_digit c \<and> c \<noteq> CHR ''.'' \<and> c \<noteq> CHR ''e'' \<and> c \<noteq> CHR ''E''" for c u
    using b by (simp add: boundary_def)
  note span = span_boundary[OF b]
  have int: "scan_int s = Some (t, r) \<Longrightarrow> scan_int (s @ rest) = Some (t, r @ rest)" for s t r
    using span[of s] by (cases s) (auto simp: scan_int_def split: if_splits)
  have digits: "scan_digits p s = Some (t, r) \<Longrightarrow> scan_digits p (s @ rest) = Some (t, r @ rest)" for p s t r
    by (auto simp: scan_digits_def span split: if_splits)
  have frac: "scan_frac s = Some (t, r) \<Longrightarrow> scan_frac (s @ rest) = Some (t, r @ rest)" for s t r
    by (cases s; cases rest) (auto simp: scan_frac_def head dest: digits split: if_splits)
  have exp: "scan_exp s = Some (t, r) \<Longrightarrow> scan_exp (s @ rest) = Some (t, r @ rest)" for s t r
  proof (cases s)
    case Nil
    then show "scan_exp s = Some (t, r) \<Longrightarrow> scan_exp (s @ rest) = Some (t, r @ rest)"
      by (cases rest) (auto simp: scan_exp_def head)
  next
    case (Cons c u)
    then show "scan_exp s = Some (t, r) \<Longrightarrow> scan_exp (s @ rest) = Some (t, r @ rest)"
      by (cases u) (auto simp: scan_exp_def dest: digits split: if_splits)
  qed
  show "scan_int s = Some (t, r) \<Longrightarrow> scan_int (s @ rest) = Some (t, r @ rest)" by (rule int)
  show "scan_frac s = Some (t, r) \<Longrightarrow> scan_frac (s @ rest) = Some (t, r @ rest)" by (rule frac)
  show "scan_exp s = Some (t, r) \<Longrightarrow> scan_exp (s @ rest) = Some (t, r @ rest)" by (rule exp)
  show "scan_number s = Some (t, r) \<Longrightarrow> scan_number (s @ rest) = Some (t, r @ rest)"
  proof (cases s)
    case Nil
    then show "scan_number s = Some (t, r) \<Longrightarrow> scan_number (s @ rest) = Some (t, r @ rest)"
      by (simp add: scan_number_def scan_int_def)
  next
    case (Cons c u)
    then show "scan_number s = Some (t, r) \<Longrightarrow> scan_number (s @ rest) = Some (t, r @ rest)"
      using int frac exp
      by (auto simp: scan_number_def split: option.splits prod.splits if_splits) fastforce+
  qed
qed

lemma dec_nat_digits: "dec_nat n \<noteq> [] \<and> list_all is_digit (dec_nat n) \<and> (hd (dec_nat n) = CHR ''0'' \<longrightarrow> n = 0)"
proof (induction n rule: less_induct)
  case (less n)
  have digit: "m < 10 \<Longrightarrow> is_digit (char_of (48 + m))" for m :: nat
    by (simp add: is_digit_def of_char_of)
  have zero: "m < 10 \<Longrightarrow> char_of (48 + m) = CHR ''0'' \<Longrightarrow> m = 0" for m :: nat
  proof -
    assume m: "m < 10" "char_of (48 + m) = CHR ''0''"
    then have "of_char (char_of (48 + m) :: char) = (48 :: nat)" by simp
    with m(1) show "m = 0" by (simp add: of_char_of)
  qed
  show ?case
  proof (cases "n < 10")
    case True
    then show ?thesis using digit zero by (subst (1 2 3) dec_nat.simps) auto
  next
    case False
    then show ?thesis
      using less[of "n div 10"] digit[of "n mod 10"] by (subst (1 2 3) dec_nat.simps) auto
  qed
qed

lemma span_all: "list_all is_digit s \<Longrightarrow> takeWhile is_digit s = s \<and> dropWhile is_digit s = []"
  by (induction s) auto

lemma number_literal_dec: "number_literal (dec_int i)"
proof -
  have int: "scan_int (dec_nat n) = Some (dec_nat n, [])" for n
  proof (cases "n = 0")
    case True
    then show ?thesis by (simp add: dec_nat.simps[of 0] scan_int_def is_digit_def)
  next
    case False
    then show ?thesis
      using dec_nat_digits[of n] span_all[of "dec_nat n"]
      by (cases "dec_nat n") (auto simp: scan_int_def)
  qed
  have "c \<noteq> CHR ''-''" if "dec_nat n = c # r" for n c r
    using dec_nat_digits[of n] that by (auto simp: is_digit_def)
  then have "number_literal (dec_nat n)" for n
    using int[of n] by (cases "dec_nat n") (auto simp: number_literal_def scan_number_def scan_frac_def scan_exp_def scan_int_def)
  moreover have "number_literal (CHR ''-'' # dec_nat n)" for n
    using int[of n] by (simp add: number_literal_def scan_number_def scan_frac_def scan_exp_def)
  ultimately show ?thesis by (simp add: dec_int_def)
qed

lemma digits_value_snoc: "digits_value (s @ [c]) = 10 * digits_value s + (of_char c - 48)"
  by (simp add: digits_value_def)

lemma digits_value_dec: "digits_value (dec_nat n) = int n"
proof (induction n rule: less_induct)
  case (less n)
  have d: "m < 10 \<Longrightarrow> (of_char (char_of (48 + m) :: char) :: int) - 48 = int m" for m :: nat
  proof -
    assume "m < 10"
    then have "(of_char (char_of (48 + m) :: char) :: nat) = 48 + m" by (simp add: of_char_of)
    then show ?thesis by (metis add_diff_cancel_left' of_nat_add of_nat_numeral of_nat_of_char)
  qed
  show ?case
  proof (cases "n < 10")
    case True
    then show ?thesis using d[of n] by (simp add: dec_nat.simps[of n] digits_value_def)
  next
    case False
    then have "digits_value (dec_nat (n div 10)) = int (n div 10)" using less by simp
    then show ?thesis
      using False d[of "n mod 10"]
      by (simp add: dec_nat.simps[of n] digits_value_snoc) (simp add: zdiv_int zmod_int)
  qed
qed

section \<open>Strings\<close>

definition plain_char :: "char \<Rightarrow> bool" where
  "plain_char c \<longleftrightarrow> 32 \<le> byte c \<and> byte c < 127 \<and> c \<notin> {dquote, backslash, CHR ''<'', CHR ''>'', CHR ''&''}"

lemma quote_body_plain: "list_all plain_char s \<Longrightarrow> quote_body s = s"
proof (induction s)
  case (Cons c s)
  have "c \<noteq> CHR 0x08 \<and> c \<noteq> CHR 0x0C \<and> c \<noteq> CHR 0x0A \<and> c \<noteq> CHR 0x0D \<and> c \<noteq> CHR 0x09"
  proof -
    have "32 \<le> byte c" using Cons.prems by (simp add: plain_char_def)
    then show ?thesis by auto
  qed
  then have "escape_byte c = [c]"
    using Cons.prems by (simp add: escape_byte_def plain_char_def)
  then show ?case using Cons by (simp add: quote_body.simps(2) plain_char_def)
qed simp

lemma scan_str_plain: "list_all plain_char s \<Longrightarrow> scan_str (s @ dquote # rest) = Some (s, rest)"
proof (induction s)
  case Nil
  then show ?case by (simp add: scan_str.simps(2))
next
  case (Cons c s)
  then have "scan_str (s @ dquote # rest) = Some (s, rest)" by simp
  then show ?case
    using Cons.prems by (simp add: scan_str.simps(2) plain_char_def prepend_def utf8_width_def)
qed

section \<open>Values\<close>

fun printable :: "json \<Rightarrow> bool" where
  "printable JNull = True"
| "printable (JBool b) = True"
| "printable (JNum n) = number_literal n"
| "printable (JStr s) = list_all plain_char s"
| "printable (JArr vs) = (\<forall>v\<in>set vs. printable v)"
| "printable (JObj kvs) = (\<forall>kv\<in>set kvs. list_all plain_char (fst kv) \<and> printable (snd kv))"

fun fits :: "nat \<Rightarrow> json \<Rightarrow> bool" where
  "fits n (JArr vs) = (n < maxNestingDepth \<and> (\<forall>v\<in>set vs. fits (Suc n) v))"
| "fits n (JObj kvs) = (n < maxNestingDepth \<and> (\<forall>kv\<in>set kvs. fits (Suc n) (snd kv)))"
| "fits n _ = True"

fun comma_tokens :: "token list list \<Rightarrow> token list" where
  "comma_tokens [] = []"
| "comma_tokens [t] = t"
| "comma_tokens (t # u # ts) = t @ Comma # comma_tokens (u # ts)"

fun tokens_of :: "json \<Rightarrow> token list" where
  "tokens_of (JArr vs) = LBrack # comma_tokens (map tokens_of vs) @ [RBrack]"
| "tokens_of (JObj kvs) =
     LBrace # comma_tokens (map (\<lambda>kv. [Val (JStr (fst kv)), Colon] @ tokens_of (snd kv)) kvs) @ [RBrace]"
| "tokens_of v = [Val v]"

lemma lex_punctuation:
  "c \<in> {CHR ''{'', CHR ''}'', CHR ''['', CHR '']'', CHR '','', CHR '':''} \<Longrightarrow>
   lex (c # r) = map_option ((#) (the (punctuation c))) (lex r)"
  by (auto simp: lex.simps(2) is_space_def punctuation_def)

lemma lex_value:
  assumes "scan_value (c # s) = Some (v, r)" "punctuation c = None" "\<not> is_space c"
  shows "lex (c # s) = map_option ((#) (Val v)) (lex r)"
  using assms by (simp add: lex.simps(2))

lemma lex_string:
  assumes "list_all plain_char s"
  shows "lex (quote_json s @ rest) = map_option ((#) (Val (JStr s))) (lex rest)"
proof -
  have "scan_value (dquote # s @ dquote # rest) = Some (JStr s, rest)"
    by (simp add: scan_value_def scan_str_plain[OF assms])
  then have "lex (dquote # s @ dquote # rest) = map_option ((#) (Val (JStr s))) (lex rest)"
    by (rule lex_value) (simp_all add: punctuation_def is_space_def)
  then show ?thesis by (simp add: quote_json_def quote_body_plain[OF assms])
qed

lemma lex_number:
  assumes "number_literal n" "boundary rest"
  shows "lex (n @ rest) = map_option ((#) (Val (JNum n))) (lex rest)"
proof -
  have s: "scan_number (n @ rest) = Some (n, rest)"
    using scan_boundary(4)[OF assms(2) assms(1)[unfolded number_literal_def]] by simp
  obtain c r where n: "n = c # r"
    using assms(1) by (cases n) (auto simp: number_literal_def scan_number_def scan_int_def)
  have c: "c = CHR ''-'' \<or> is_digit c"
    using assms(1) unfolding n number_literal_def scan_number_def
    by (auto simp: scan_int_def is_digit_def split: if_splits option.splits)
  then have "scan_value (c # r @ rest) = Some (JNum n, rest)"
    using s by (auto simp: n scan_value_def is_digit_def)
  then have "lex (c # r @ rest) = map_option ((#) (Val (JNum n))) (lex rest)"
    by (rule lex_value) (use c in \<open>auto simp: punctuation_def is_space_def is_digit_def\<close>)
  then show ?thesis by (simp add: n)
qed

lemma boundary_punctuation:
  "c \<in> {CHR ''{'', CHR ''}'', CHR ''['', CHR '']'', CHR '','', CHR '':''} \<Longrightarrow> boundary (c # r)"
  by (auto simp: boundary_def is_digit_def)

lemma append_Nil_fun: "(@) [] = (\<lambda>x. x)"
  by auto

text \<open>Lexing a comma-separated list of texts, each of which lexes to its tokens before a boundary.\<close>

lemma lex_comma_sep:
  assumes "\<And>x rest. x \<in> set xs \<Longrightarrow> boundary rest \<Longrightarrow> lex (f x @ rest) = map_option ((@) (g x)) (lex rest)"
    and "boundary rest"
  shows "lex (comma_sep (map f xs) @ rest) = map_option ((@) (comma_tokens (map g xs))) (lex rest)"
  using assms(1)
proof (induction xs rule: induct_list012)
  case (3 x y zs)
  have "lex (comma_sep (map f (y # zs)) @ rest) = map_option ((@) (comma_tokens (map g (y # zs)))) (lex rest)"
    using 3 by simp
  then show ?case
    using 3(3)[of x "CHR '','' # comma_sep (map f (y # zs)) @ rest"]
    by (simp add: boundary_punctuation lex_punctuation punctuation_def option.map_comp comp_def)
qed (simp_all add: assms(2) append_Nil_fun option.map_ident)

lemma lex_print:
  "printable v \<Longrightarrow> boundary rest \<Longrightarrow> lex (print_json v @ rest) = map_option ((@) (tokens_of v)) (lex rest)"
proof (induction v arbitrary: rest)
  case JNull
  have "lex (CHR ''n'' # ''ull'' @ rest) = map_option ((#) (Val JNull)) (lex rest)"
    by (rule lex_value) (simp_all add: scan_value_def punctuation_def is_space_def)
  then show ?case by simp
next
  case (JBool b)
  have "lex (CHR ''t'' # ''rue'' @ rest) = map_option ((#) (Val (JBool True))) (lex rest)"
    by (rule lex_value) (simp_all add: scan_value_def punctuation_def is_space_def)
  moreover have "lex (CHR ''f'' # ''alse'' @ rest) = map_option ((#) (Val (JBool False))) (lex rest)"
    by (rule lex_value) (simp_all add: scan_value_def punctuation_def is_space_def)
  ultimately show ?case by simp
next
  case (JNum n)
  then show ?case by (simp add: lex_number)
next
  case (JStr s)
  then show ?case by (simp add: lex_string)
next
  case (JArr vs)
  have "lex (comma_sep (map print_json vs) @ CHR '']'' # rest) =
      map_option ((@) (comma_tokens (map tokens_of vs))) (lex (CHR '']'' # rest))"
    by (rule lex_comma_sep) (use JArr in \<open>auto simp: boundary_punctuation\<close>)
  then show ?case
    by (simp add: lex_punctuation punctuation_def option.map_comp comp_def)
next
  case (JObj kvs)
  have member: "lex ((quote_json (fst kv) @ '':'' @ print_json (snd kv)) @ r) =
      map_option ((@) ([Val (JStr (fst kv)), Colon] @ tokens_of (snd kv))) (lex r)"
    if kv: "kv \<in> set kvs" and r: "boundary r" for kv r
  proof -
    have "lex (print_json (snd kv) @ r) = map_option ((@) (tokens_of (snd kv))) (lex r)"
      by (rule JObj.IH[of kv "snd kv"]) (use kv r JObj.prems in \<open>auto intro: snds.intros\<close>)
    moreover have "list_all plain_char (fst kv)" using JObj.prems(1) kv by simp
    ultimately show ?thesis
      by (cases "lex r") (simp_all add: lex_string lex_punctuation punctuation_def)
  qed
  have "lex (comma_sep (map (\<lambda>kv. quote_json (fst kv) @ '':'' @ print_json (snd kv)) kvs) @ CHR ''}'' # rest) =
      map_option ((@) (comma_tokens (map (\<lambda>kv. [Val (JStr (fst kv)), Colon] @ tokens_of (snd kv)) kvs)))
        (lex (CHR ''}'' # rest))"
    by (rule lex_comma_sep) (use member in \<open>auto simp: boundary_punctuation\<close>)
  then show ?case
    by (simp add: lex_punctuation punctuation_def option.map_comp comp_def)
qed

text \<open>Parsing the tokens of a list of elements, and of members, with the frame of the list on top.\<close>

lemma parse_tokens_append:
  "parse_tokens p (ts @ us) = (case parse_tokens p ts of None \<Rightarrow> None | Some p' \<Rightarrow> parse_tokens p' us)"
  by (induction ts arbitrary: p) (auto split: option.splits)

definition parses :: "frame list \<Rightarrow> json \<Rightarrow> bool" where
  "parses fs v \<longleftrightarrow> (\<forall>ts. parse_tokens (BeginValue fs) (tokens_of v @ ts) = parse_tokens (complete v fs) ts)"

lemma parse_elements:
  assumes "\<And>v acc. v \<in> set vs \<Longrightarrow> parses (FArr acc # fs) v" and "vs \<noteq> []"
  shows "parse_tokens (BeginValue (FArr acc # fs)) (comma_tokens (map tokens_of vs) @ RBrack # ts) =
         parse_tokens (complete (JArr (acc @ vs)) fs) ts"
  using assms
proof (induction vs arbitrary: acc rule: induct_list012)
  case (3 x y zs)
  then have "parse_tokens (BeginValue (FArr (acc @ [x]) # fs)) (comma_tokens (map tokens_of (y # zs)) @ RBrack # ts) =
      parse_tokens (complete (JArr ((acc @ [x]) @ y # zs)) fs) ts" by simp
  moreover have "parses (FArr acc # fs) x" using 3 by simp
  ultimately show ?case by (simp add: parses_def)
qed (simp_all add: parses_def)

lemma parse_members:
  assumes "\<And>kv acc. kv \<in> set kvs \<Longrightarrow> parses (FKey (fst kv) acc # fs) (snd kv)" and "kvs \<noteq> []"
  shows "parse_tokens (BeginString (FObj acc # fs))
      (comma_tokens (map (\<lambda>kv. [Val (JStr (fst kv)), Colon] @ tokens_of (snd kv)) kvs) @ RBrace # ts) =
         parse_tokens (complete (JObj (acc @ kvs)) fs) ts"
  using assms
proof (induction kvs arbitrary: acc rule: induct_list012)
  case (3 x y zs)
  let ?f = "\<lambda>kv. [Val (JStr (fst kv)), Colon] @ tokens_of (snd kv)"
  from 3 have "parse_tokens (BeginString (FObj (acc @ [x]) # fs)) (comma_tokens (map ?f (y # zs)) @ RBrace # ts) =
      parse_tokens (complete (JObj ((acc @ [x]) @ y # zs)) fs) ts" by simp
  moreover have "parses (FKey (fst x) acc # fs) (snd x)" using 3 by simp
  ultimately show ?case by (simp add: parses_def)
qed (simp_all add: parses_def)

lemma parse_first:
  "ts = Val u # ts' \<or> ts = LBrace # ts' \<or> ts = LBrack # ts' \<Longrightarrow>
   parse_tokens (BeginValueOrEmpty (FArr vs # fs)) ts = parse_tokens (BeginValue (FArr vs # fs)) ts"
  by auto

lemma tokens_of_first: "\<exists>u ts'. tokens_of v = Val u # ts' \<or> tokens_of v = LBrace # ts' \<or> tokens_of v = LBrack # ts'"
  by (cases v) auto

lemma comma_tokens_Cons: "comma_tokens (t # ts) = t @ (if ts = [] then [] else Comma # comma_tokens ts)"
  by (cases ts) simp_all

lemma parse_print: "fits (length fs) v \<Longrightarrow> parses fs v"
proof (induction v arbitrary: fs)
  case (JArr vs)
  have elems: "parses (FArr acc # fs) v" if "v \<in> set vs" for v acc
    by (rule JArr.IH) (use JArr.prems that in auto)
  show ?case
  proof (cases vs)
    case Nil
    then show ?thesis using JArr.prems by (simp add: parses_def)
  next
    case (Cons w ws)
    obtain u ts' where "tokens_of w = Val u # ts' \<or> tokens_of w = LBrace # ts' \<or> tokens_of w = LBrack # ts'"
      using tokens_of_first[of w] by blast
    then have "parse_tokens (BeginValueOrEmpty (FArr [] # fs)) (comma_tokens (map tokens_of vs) @ ts) =
        parse_tokens (BeginValue (FArr [] # fs)) (comma_tokens (map tokens_of vs) @ ts)" for ts
      by (auto simp: Cons comma_tokens_Cons)
    then show ?thesis
      using parse_elements[where acc = "[]" and vs = vs and fs = fs, OF elems] Cons JArr.prems by (simp add: parses_def)
  qed
next
  case (JObj kvs)
  have members: "parses (FKey (fst kv) acc # fs) (snd kv)" if "kv \<in> set kvs" for kv acc
    by (rule JObj.IH[of kv "snd kv"]) (use JObj.prems that in \<open>auto intro: snds.intros\<close>)
  show ?case
  proof (cases kvs)
    case Nil
    then show ?thesis using JObj.prems by (simp add: parses_def)
  next
    case (Cons w ws)
    have "parse_tokens (BeginStringOrEmpty (FObj [] # fs)) (Val (JStr k) # ts) =
        parse_tokens (BeginString (FObj [] # fs)) (Val (JStr k) # ts)" for k ts by simp
    then show ?thesis
      using parse_members[where acc = "[]" and kvs = kvs and fs = fs, OF members] Cons JObj.prems
      by (simp add: parses_def comma_tokens_Cons)
  qed
qed (simp_all add: parses_def)

lemma parse_print_json: "printable v \<Longrightarrow> fits 0 v \<Longrightarrow> parse_json (print_json v) = Some v"
proof -
  assume "printable v" "fits 0 v"
  then have "lex (print_json v) = Some (tokens_of v)"
    using lex_print[of v "[]"] by (simp add: boundary_def)
  moreover have "parse_tokens (BeginValue []) (tokens_of v) = Some (Done v)"
    using parse_print[of "[]" v] \<open>fits 0 v\<close> by (simp add: parses_def) (metis append_Nil2 parse_tokens.simps(1))
  ultimately show ?thesis by (simp add: parse_json_def)
qed

end
