(* ===== verification/Unmarshal.thy ===== *)
theory Unmarshal
  imports Json_Roundtrip
begin

text \<open>
  What the program uses of \<^verbatim>\<open>json.Unmarshal\<close> into Go values. A decoder takes the value already in the
  destination, as Go does: \<^verbatim>\<open>null\<close> leaves it as it is, a member of an object is decoded into the field
  whose name it matches (exactly, else up to case), unknown members are skipped, and \<open>None\<close> is the error
  \<^verbatim>\<open>Unmarshal\<close> reports for the whole document.
\<close>

section \<open>Numbers and strings\<close>

text \<open>\<^verbatim>\<open>strconv.ParseInt\<close> and \<^verbatim>\<open>strconv.ParseUint\<close> in base 10, on the literal of a number.\<close>

definition ParseUint :: "nat \<Rightarrow> string \<Rightarrow> int option" where
  "ParseUint w s =
     (if s \<noteq> [] \<and> list_all is_digit s \<and> digits_value s < 2 ^ w then Some (digits_value s) else None)"

definition ParseInt :: "nat \<Rightarrow> string \<Rightarrow> int option" where
  "ParseInt w s =
     (let (neg, ds) = (if take 1 s = ''-'' then (True, drop 1 s) else (False, s));
          i = (if neg then - digits_value ds else digits_value ds)
      in if ds \<noteq> [] \<and> list_all is_digit ds \<and> - (2 ^ (w - 1)) \<le> i \<and> i < 2 ^ (w - 1) then Some i else None)"

definition decode_int64 :: "i64 \<Rightarrow> json \<Rightarrow> i64 option" where
  "decode_int64 v j =
     (case j of JNull \<Rightarrow> Some v | JNum s \<Rightarrow> map_option word_of_int (ParseInt 64 s) | _ \<Rightarrow> None)"

definition decode_uint16 :: "u16 \<Rightarrow> json \<Rightarrow> u16 option" where
  "decode_uint16 v j =
     (case j of JNull \<Rightarrow> Some v | JNum s \<Rightarrow> map_option word_of_int (ParseUint 16 s) | _ \<Rightarrow> None)"

definition decode_string :: "string \<Rightarrow> json \<Rightarrow> string option" where
  "decode_string v j = (case j of JNull \<Rightarrow> Some v | JStr s \<Rightarrow> Some s | _ \<Rightarrow> None)"

section \<open>Slices\<close>

text \<open>
  A slice is its backing array and its length. Decoding an array into a slice overwrites the
  elements in place, so decoding twice into one field sees what the first decoding left behind.
\<close>

datatype 'a slice = Slice (backing: "'a list") (len: nat)

definition elements :: "'a slice \<Rightarrow> 'a list" where
  "elements s = take (len s) (backing s)"

definition nil_slice :: "'a slice" where
  "nil_slice = Slice [] 0"

fun decode_elements :: "'a \<Rightarrow> ('a \<Rightarrow> json \<Rightarrow> 'a option) \<Rightarrow> 'a list \<Rightarrow> json list \<Rightarrow> 'a list option" where
  "decode_elements zero dec old [] = Some old"
| "decode_elements zero dec old (j # js) =
     (case dec (case old of [] \<Rightarrow> zero | v # _ \<Rightarrow> v) j of
        None \<Rightarrow> None
      | Some v \<Rightarrow> map_option ((#) v) (decode_elements zero dec (tl old) js))"

definition decode_slice :: "'a \<Rightarrow> ('a \<Rightarrow> json \<Rightarrow> 'a option) \<Rightarrow> 'a slice \<Rightarrow> json \<Rightarrow> 'a slice option" where
  "decode_slice zero dec s j =
     (case j of
        JNull \<Rightarrow> Some nil_slice
      | JArr js \<Rightarrow>
          if js = [] then Some nil_slice
          else map_option (\<lambda>b. Slice b (length js)) (decode_elements zero dec (backing s) js)
      | _ \<Rightarrow> None)"

section \<open>Structs\<close>

text \<open>\<^verbatim>\<open>foldName\<close>: ASCII letters in upper case, and the two runes that fold to ASCII letters.\<close>

definition upper :: "char \<Rightarrow> char" where
  "upper c = (if 97 \<le> byte c \<and> byte c \<le> 122 then char_of (byte c - 32) else c)"

fun fold_name :: "string \<Rightarrow> string" where
  "fold_name [] = []"
| "fold_name (c # r) =
     (if take 2 (c # r) = [CHR 0xC5, CHR 0xBF] then CHR ''S'' # fold_name (drop 1 r)
      else if take 3 (c # r) = [CHR 0xE2, CHR 0x84, CHR 0xAA] then CHR ''K'' # fold_name (drop 2 r)
      else upper c # fold_name r)"

type_synonym 'a field = "string \<times> ('a \<Rightarrow> json \<Rightarrow> 'a option)"

definition find_field :: "'a field list \<Rightarrow> string \<Rightarrow> ('a \<Rightarrow> json \<Rightarrow> 'a option) option" where
  "find_field fields k =
     (case map_of fields k of
        Some d \<Rightarrow> Some d
      | None \<Rightarrow> map_of (map (\<lambda>(n, d). (fold_name n, d)) fields) (fold_name k))"

fun decode_members :: "'a field list \<Rightarrow> (string \<times> json) list \<Rightarrow> 'a \<Rightarrow> 'a option" where
  "decode_members fields [] v = Some v"
| "decode_members fields ((k, j) # kvs) v =
     (case find_field fields k of
        None \<Rightarrow> decode_members fields kvs v
      | Some dec \<Rightarrow> (case dec v j of None \<Rightarrow> None | Some v' \<Rightarrow> decode_members fields kvs v'))"

definition decode_struct :: "'a field list \<Rightarrow> 'a \<Rightarrow> json \<Rightarrow> 'a option" where
  "decode_struct fields v j =
     (case j of JNull \<Rightarrow> Some v | JObj kvs \<Rightarrow> decode_members fields kvs v | _ \<Rightarrow> None)"

section \<open>Lemmas\<close>

lemma ParseUint_dec: "ParseUint w (dec_int i) = (if 0 \<le> i \<and> i < 2 ^ w then Some i else None)"
proof (cases "i < 0")
  case True
  then show ?thesis by (simp add: dec_int_def ParseUint_def is_digit_def)
next
  case False
  then show ?thesis using dec_nat_digits[of "nat i"] by (simp add: dec_int_def ParseUint_def digits_value_dec)
qed

lemma ParseInt_dec:
  assumes "- (2 ^ (w - 1)) \<le> i" "i < 2 ^ (w - 1)"
  shows "ParseInt w (dec_int i) = Some i"
proof (cases "i < 0")
  case True
  then show ?thesis using assms dec_nat_digits[of "nat (- i)"] by (simp add: dec_int_def ParseInt_def digits_value_dec)
next
  case False
  obtain c r where c: "dec_nat (nat i) = c # r" "is_digit c"
    using dec_nat_digits[of "nat i"] by (cases "dec_nat (nat i)") auto
  then have "take 1 (dec_nat (nat i)) \<noteq> ''-''" by (auto simp: is_digit_def)
  with False show ?thesis
    using assms dec_nat_digits[of "nat i"] by (simp add: dec_int_def ParseInt_def digits_value_dec)
qed

lemma decode_int64_dec [simp]: "decode_int64 v (JNum (dec_int (sint (x :: i64)))) = Some x"
  using sint_ge[of x] sint_lt[of x] by (simp add: decode_int64_def ParseInt_dec)

lemma decode_uint16_dec [simp]: "decode_uint16 v (JNum (dec_int (uint (x :: u16)))) = Some x"
  using uint_bounded[of x] by (simp add: decode_uint16_def ParseUint_dec)

lemma decode_elements_fresh:
  assumes "\<And>x v. x \<in> set xs \<Longrightarrow> dec v (f x) = Some x"
  shows "decode_elements zero dec [] (map f xs) = Some xs"
  using assms by (induction xs) simp_all

lemma decode_slice_fresh:
  assumes "\<And>x v. x \<in> set xs \<Longrightarrow> dec v (f x) = Some x"
  shows "map_option elements (decode_slice zero dec nil_slice (JArr (map f xs))) = Some xs"
  using decode_elements_fresh[OF assms] by (simp add: decode_slice_def nil_slice_def elements_def option.map_comp comp_def)

end
