(* ===== verification/Redis.thy ===== *)
theory Redis
  imports Prelude
begin

text \<open>
  The Redis client and server are not part of the repository. They are a parameter of the model: a
  record of the commands the code issues, over an unknown database state \<open>'r\<close>, together with
  the documented behaviour the code relies on, stated as predicates that are hypotheses of the
  theorems that need them. A small in-memory database satisfies them all.

  Hash fields hold decimal numbers in this program, so a field is the integer it denotes. A
  missing field or key is \<open>None\<close>.
\<close>

datatype get_result = GetNil | GetErr string | GetOk string

record 'r redis =
  HMGET :: "'r \<Rightarrow> string \<Rightarrow> string list \<Rightarrow> int option list"
  HMSET :: "'r \<Rightarrow> string \<Rightarrow> (string \<times> int) list \<Rightarrow> 'r"
  HINCRBY :: "'r \<Rightarrow> string \<Rightarrow> string \<Rightarrow> int \<Rightarrow> 'r"
  EXPIRE :: "'r \<Rightarrow> string \<Rightarrow> int \<Rightarrow> 'r"
  Eval :: "('r \<Rightarrow> 'r \<times> (string + int)) \<Rightarrow> 'r \<Rightarrow> 'r \<times> (string + int)"
  Get :: "'r \<Rightarrow> string \<Rightarrow> get_result"
  Set :: "'r \<Rightarrow> string \<Rightarrow> string \<Rightarrow> 'r \<times> string option"

definition hash_field :: "'r redis \<Rightarrow> 'r \<Rightarrow> string \<Rightarrow> string \<Rightarrow> int option" where
  "hash_field c r k f = hd (HMGET c r k [f])"

text \<open>
  The documented behaviour of the hash commands: \<^verbatim>\<open>HMGET\<close> answers field by field, \<^verbatim>\<open>HMSET\<close> sets the
  given fields of one key, \<^verbatim>\<open>HINCRBY\<close> adds to one field (a missing one counts as 0), and \<^verbatim>\<open>EXPIRE\<close>
  with a positive time to live changes no field.
\<close>

definition redis_hash_laws :: "'r redis \<Rightarrow> bool" where
  "redis_hash_laws c \<longleftrightarrow>
     (\<forall>r k fs. HMGET c r k fs = map (hash_field c r k) fs) \<and>
     (\<forall>r k fvs k' f. distinct (map fst fvs) \<longrightarrow>
        hash_field c (HMSET c r k fvs) k' f =
          (if k' = k \<and> map_of fvs f \<noteq> None then map_of fvs f else hash_field c r k' f)) \<and>
     (\<forall>r k f n k' f'.
        hash_field c (HINCRBY c r k f n) k' f' =
          (if k' = k \<and> f' = f
           then Some ((case hash_field c r k f of None \<Rightarrow> 0 | Some v \<Rightarrow> v) + n)
           else hash_field c r k' f')) \<and>
     (\<forall>r k s k' f. 0 < s \<longrightarrow> hash_field c (EXPIRE c r k s) k' f = hash_field c r k' f)"

text \<open>
  \<^verbatim>\<open>EVAL\<close> runs a script atomically: a call that succeeds has run the script to its result. A call that
  fails has either not run it or run it and lost the answer.
\<close>

definition redis_eval_laws :: "'r redis \<Rightarrow> bool" where
  "redis_eval_laws c \<longleftrightarrow>
     (\<forall>script r r' n. Eval c script r = (r', Inr n) \<longrightarrow> script r = (r', Inr n)) \<and>
     (\<forall>script r r' e. Eval c script r = (r', Inl e) \<longrightarrow> r' = r \<or> r' = fst (script r))"

text \<open>\<^verbatim>\<open>SET\<close> that succeeds makes \<^verbatim>\<open>GET\<close> return the value and leaves other keys alone; one that fails may or may not have stored it.\<close>

definition redis_kv_laws :: "'r redis \<Rightarrow> bool" where
  "redis_kv_laws c \<longleftrightarrow>
     (\<forall>r k v r'. Set c r k v = (r', None) \<longrightarrow> Get c r' k = GetOk v) \<and>
     (\<forall>r k v r' e. Set c r k v = (r', Some e) \<longrightarrow> Get c r' k = GetOk v \<or> Get c r' k = Get c r k) \<and>
     (\<forall>r k v k'. k' \<noteq> k \<longrightarrow> Get c (fst (Set c r k v)) k' = Get c r k')"

text \<open>
  Commands on a hash leave the string keys apart from their own key alone. \<^verbatim>\<open>SET\<close> leaves the hashes of
  other keys alone, and of its own key it replaces the hash as a whole or, when it fails, may leave it.
\<close>

definition redis_frame_laws :: "'r redis \<Rightarrow> bool" where
  "redis_frame_laws c \<longleftrightarrow>
     (\<forall>r k fvs k'. k' \<noteq> k \<longrightarrow> Get c (HMSET c r k fvs) k' = Get c r k') \<and>
     (\<forall>r k f n k'. k' \<noteq> k \<longrightarrow> Get c (HINCRBY c r k f n) k' = Get c r k') \<and>
     (\<forall>r k s k'. k' \<noteq> k \<longrightarrow> Get c (EXPIRE c r k s) k' = Get c r k') \<and>
     (\<forall>r k v k' f. k' \<noteq> k \<longrightarrow> hash_field c (fst (Set c r k v)) k' f = hash_field c r k' f) \<and>
     (\<forall>r k v. (\<forall>f. hash_field c (fst (Set c r k v)) k f = None) \<or>
        (\<forall>f. hash_field c (fst (Set c r k v)) k f = hash_field c r k f))"

lemma redis_hash_lawsD:
  assumes "redis_hash_laws c"
  shows "HMGET c r k fs = map (hash_field c r k) fs"
    and "distinct (map fst fvs) \<Longrightarrow> hash_field c (HMSET c r k fvs) k' f =
          (if k' = k \<and> map_of fvs f \<noteq> None then map_of fvs f else hash_field c r k' f)"
    and "hash_field c (HINCRBY c r k g n) k' f =
          (if k' = k \<and> f = g then Some ((case hash_field c r k g of None \<Rightarrow> 0 | Some v \<Rightarrow> v) + n)
           else hash_field c r k' f)"
    and "0 < s \<Longrightarrow> hash_field c (EXPIRE c r k s) k' f = hash_field c r k' f"
  using assms unfolding redis_hash_laws_def by blast+

section \<open>An in-memory database\<close>

text \<open>The instance the witnesses use: two finite tables, no failures, no passage of time.\<close>

record memory =
  hashes :: "((string \<times> string) \<times> int) list"
  strings :: "(string \<times> string) list"

definition empty_memory :: memory where
  "empty_memory = \<lparr>hashes = [], strings = []\<rparr>"

definition memory_redis :: "memory redis" where
  "memory_redis =
     \<lparr>HMGET = (\<lambda>m k fs. map (\<lambda>f. map_of (hashes m) (k, f)) fs),
      HMSET = (\<lambda>m k fvs. m\<lparr>hashes := map (\<lambda>(f, v). ((k, f), v)) fvs @ hashes m\<rparr>),
      HINCRBY = (\<lambda>m k f n. m\<lparr>hashes := ((k, f),
         (case map_of (hashes m) (k, f) of None \<Rightarrow> 0 | Some v \<Rightarrow> v) + n) # hashes m\<rparr>),
      EXPIRE = (\<lambda>m k s. m),
      Eval = (\<lambda>script m. script m),
      Get = (\<lambda>m k. case map_of (strings m) k of None \<Rightarrow> GetNil | Some v \<Rightarrow> GetOk v),
      Set = (\<lambda>m k v. (m\<lparr>strings := (k, v) # strings m\<rparr>, None))\<rparr>"

lemma memory_hash_field: "hash_field memory_redis m k f = map_of (hashes m) (k, f)"
  by (simp add: hash_field_def memory_redis_def)

lemma memory_redis_laws [simp]:
  "redis_hash_laws memory_redis" "redis_eval_laws memory_redis" "redis_kv_laws memory_redis"
  "redis_frame_laws memory_redis"
proof -
  have "map_of (map (\<lambda>(f, v). ((k, f), v)) fvs @ hs) (k', f) =
      (if k' = k \<and> map_of fvs f \<noteq> None then map_of fvs f else map_of hs (k', f))"
    for fvs :: "(string \<times> int) list" and hs :: "((string \<times> string) \<times> int) list" and k k' f
    by (induction fvs) auto
  then show "redis_hash_laws memory_redis"
    unfolding redis_hash_laws_def memory_hash_field by (simp add: memory_redis_def)
  show "redis_eval_laws memory_redis" by (simp add: redis_eval_laws_def memory_redis_def)
  show "redis_kv_laws memory_redis"
    by (simp add: redis_kv_laws_def memory_redis_def)
  show "redis_frame_laws memory_redis"
    unfolding redis_frame_laws_def memory_hash_field by (simp add: memory_redis_def)
qed

end
