(* ===== verification/RateLimit.thy ===== *)
theory RateLimit
  imports Redis
begin

text \<open>
  \<^verbatim>\<open>ratelimit/rate_limiter.go\<close>: the two Lua scripts, translated statement by statement over the Redis
  commands they call, and the Go methods that run them. Lua's numbers are doubles; every number
  the scripts meet here is an integer far below \<open>2 ^ 53\<close>, so they are \<open>int\<close>, \<^verbatim>\<open>math.floor\<close> of a
  product is the product, and \<^verbatim>\<open>math.ceil(a / b)\<close> is written with \<open>div\<close>.
\<close>

section \<open>The scripts\<close>

definition lua_ceil_div :: "int \<Rightarrow> int \<Rightarrow> int" where
  "lua_ceil_div a b = - ((- a) div b)"

definition nil_error :: string where
  "nil_error = ''attempt to perform arithmetic on a nil value''"

text \<open>The common head of both scripts: read the bucket and refill it; a missing bucket is full.\<close>

definition lua_refill ::
  "'r redis \<Rightarrow> string \<Rightarrow> int \<Rightarrow> int \<Rightarrow> int \<Rightarrow> 'r \<Rightarrow> string + (int \<times> int)" where
  "lua_refill c key capacity refill_rate now r =
     (let bucket = HMGET c r key [''tokens'', ''last_refill'']
      in case bucket ! 0 of
           None \<Rightarrow> Inr (capacity, now)
         | Some tokens \<Rightarrow>
             (case bucket ! 1 of
                None \<Rightarrow> Inl nil_error
              | Some last_refill \<Rightarrow>
                  let elapsed = max 0 (now - last_refill);
                      added = elapsed * refill_rate
                  in Inr (min capacity (tokens + added), if added > 0 then now else last_refill)))"

definition write_bucket ::
  "'r redis \<Rightarrow> string \<Rightarrow> int \<Rightarrow> int \<Rightarrow> int \<Rightarrow> int \<Rightarrow> 'r \<Rightarrow> 'r" where
  "write_bucket c key capacity refill_rate tokens last_refill r =
     (let r' = HMSET c r key [(''tokens'', tokens), (''last_refill'', last_refill)]
      in EXPIRE c r' key (lua_ceil_div capacity refill_rate + 1))"

definition check_and_decrement ::
  "'r redis \<Rightarrow> string \<Rightarrow> int \<Rightarrow> int \<Rightarrow> int \<Rightarrow> 'r \<Rightarrow> 'r \<times> (string + bool)" where
  "check_and_decrement c key capacity refill_rate now r =
     (case lua_refill c key capacity refill_rate now r of
        Inl e \<Rightarrow> (r, Inl e)
      | Inr (tokens, last_refill) \<Rightarrow>
          if tokens \<ge> 1
          then (write_bucket c key capacity refill_rate (tokens - 1) last_refill r, Inr True)
          else (r, Inr False))"

definition luaTokenBucket ::
  "'r redis \<Rightarrow> string \<Rightarrow> string \<Rightarrow> int \<Rightarrow> int \<Rightarrow> int \<Rightarrow> int \<Rightarrow> int \<Rightarrow> 'r \<Rightarrow> 'r \<times> (string + int)" where
  "luaTokenBucket c global_key player_key now g_cap g_rate p_cap p_rate r =
     (case check_and_decrement c global_key g_cap g_rate now r of
        (r1, Inl e) \<Rightarrow> (r1, Inl e)
      | (r1, Inr False) \<Rightarrow> (r1, Inr 0)
      | (r1, Inr True) \<Rightarrow>
          (case check_and_decrement c player_key p_cap p_rate now r1 of
             (r2, Inl e) \<Rightarrow> (r2, Inl e)
           | (r2, Inr False) \<Rightarrow> (HINCRBY c r2 global_key ''tokens'' 1, Inr 0)
           | (r2, Inr True) \<Rightarrow> (r2, Inr 1)))"

definition luaDrainN ::
  "'r redis \<Rightarrow> string \<Rightarrow> string \<Rightarrow> int \<Rightarrow> int \<Rightarrow> int \<Rightarrow> int \<Rightarrow> int \<Rightarrow> int \<Rightarrow> 'r \<Rightarrow> 'r \<times> (string + int)" where
  "luaDrainN c global_key player_key now g_cap g_rate p_cap p_rate n r =
     (case lua_refill c global_key g_cap g_rate now r of
        Inl e \<Rightarrow> (r, Inl e)
      | Inr (g_tokens, g_refill) \<Rightarrow>
          if g_tokens < 1 then (r, Inr 0)
          else
            let r1 = write_bucket c global_key g_cap g_rate (g_tokens - 1) g_refill r
            in case lua_refill c player_key p_cap p_rate now r1 of
                 Inl e \<Rightarrow> (r1, Inl e)
               | Inr (p_tokens, p_refill) \<Rightarrow>
                   let consumed = min n p_tokens
                   in (write_bucket c player_key p_cap p_rate (p_tokens - consumed) p_refill r1, Inr consumed))"

section \<open>The methods of Limiter\<close>

definition global_key :: string where
  "global_key = ''rate_limit:global''"

definition player_key :: "string \<Rightarrow> string" where
  "player_key playerID = ''rate_limit:player:'' @ playerID"

definition AllowMutation ::
  "'r redis \<Rightarrow> string \<Rightarrow> int \<Rightarrow> 'r \<Rightarrow> 'r \<times> (string + bool)" where
  "AllowMutation c playerID nowUnix r =
     (case Eval c (luaTokenBucket c global_key (player_key playerID) nowUnix 10000 2000 50 5) r of
        (r', Inl err) \<Rightarrow> (r', Inl err)
      | (r', Inr result) \<Rightarrow> (r', Inr (result = 1)))"

definition DrainN ::
  "'r redis \<Rightarrow> string \<Rightarrow> int \<Rightarrow> int \<Rightarrow> 'r \<Rightarrow> 'r \<times> (string + int)" where
  "DrainN c playerID nowUnix n r =
     Eval c (luaDrainN c global_key (player_key playerID) nowUnix 10000 2000 50 5 n) r"

section \<open>The token bucket as an abstract machine\<close>

type_synonym bucket = "(int \<times> int) option"  \<comment> \<open>tokens and time of the last refill; \<open>None\<close> is a full bucket\<close>

definition refill :: "int \<Rightarrow> int \<Rightarrow> int \<Rightarrow> bucket \<Rightarrow> int \<times> int" where
  "refill cap rate now b =
     (case b of
        None \<Rightarrow> (cap, now)
      | Some (t, l) \<Rightarrow>
          (min cap (t + max 0 (now - l) * rate), if max 0 (now - l) * rate > 0 then now else l))"

text \<open>The bucket stored at a key, and the well-formed databases: a bucket has both fields or neither.\<close>

definition bucket_at :: "'r redis \<Rightarrow> 'r \<Rightarrow> string \<Rightarrow> bucket" where
  "bucket_at c r k =
     (case hash_field c r k ''tokens'' of
        None \<Rightarrow> None
      | Some t \<Rightarrow> map_option (Pair t) (hash_field c r k ''last_refill''))"

definition buckets_ok :: "'r redis \<Rightarrow> 'r \<Rightarrow> bool" where
  "buckets_ok c r \<longleftrightarrow>
     (\<forall>k. hash_field c r k ''tokens'' \<noteq> None \<longrightarrow> hash_field c r k ''last_refill'' \<noteq> None)"

lemma lua_refill_bucket:
  assumes "redis_hash_laws c" "buckets_ok c r"
  shows "lua_refill c k cap rate now r = Inr (refill cap rate now (bucket_at c r k))"
  using assms(2) unfolding buckets_ok_def
  by (auto simp: lua_refill_def refill_def bucket_at_def redis_hash_lawsD(1)[OF assms(1)] Let_def
      split: option.splits)

lemma lua_ceil_div_pos: "0 < a \<Longrightarrow> 0 < b \<Longrightarrow> 0 < lua_ceil_div a b"
proof -
  assume "0 < a" "0 < b"
  then have "(- a) div b < 0" by (simp add: div_neg_pos_less0)
  then show ?thesis by (simp add: lua_ceil_div_def)
qed

lemma write_bucket_effect:
  assumes "redis_hash_laws c" "0 < cap" "0 < rate"
  shows "bucket_at c (write_bucket c k cap rate t l r) k' = (if k' = k then Some (t, l) else bucket_at c r k')"
    and "buckets_ok c r \<Longrightarrow> buckets_ok c (write_bucket c k cap rate t l r)"
proof -
  have "0 < lua_ceil_div cap rate + 1" using lua_ceil_div_pos[OF assms(2,3)] by simp
  then have "hash_field c (write_bucket c k cap rate t l r) k' f =
      (if k' = k \<and> f = ''tokens'' then Some t
       else if k' = k \<and> f = ''last_refill'' then Some l else hash_field c r k' f)" for k' f
    by (simp add: write_bucket_def Let_def redis_hash_lawsD[OF assms(1)])
  then show "bucket_at c (write_bucket c k cap rate t l r) k' = (if k' = k then Some (t, l) else bucket_at c r k')"
    and "buckets_ok c r \<Longrightarrow> buckets_ok c (write_bucket c k cap rate t l r)"
    by (auto simp: bucket_at_def buckets_ok_def cong: option.case_cong)
qed

lemma key_distinct [simp]:
  "player_key pid \<noteq> global_key" "global_key \<noteq> player_key pid"
  "player_key pid = player_key pid' \<longleftrightarrow> pid = pid'"
  by (auto simp: player_key_def global_key_def)

text \<open>What the two operations do to the buckets, as a table from keys to buckets.\<close>

definition allow_abs :: "string \<Rightarrow> int \<Rightarrow> (string \<Rightarrow> bucket) \<Rightarrow> (string \<Rightarrow> bucket) \<times> bool" where
  "allow_abs pid now B =
     (let (gt, gl) = refill 10000 2000 now (B global_key);
          (pt, pl) = refill 50 5 now (B (player_key pid))
      in if gt < 1 then (B, False)
         else if pt < 1 then (B(global_key := Some (gt, gl)), False)
         else (B(global_key := Some (gt - 1, gl), player_key pid := Some (pt - 1, pl)), True))"

definition drain_abs :: "string \<Rightarrow> int \<Rightarrow> int \<Rightarrow> (string \<Rightarrow> bucket) \<Rightarrow> (string \<Rightarrow> bucket) \<times> int" where
  "drain_abs pid now n B =
     (let (gt, gl) = refill 10000 2000 now (B global_key);
          (pt, pl) = refill 50 5 now (B (player_key pid))
      in if gt < 1 then (B, 0)
         else (B(global_key := Some (gt - 1, gl), player_key pid := Some (pt - min n pt, pl)), min n pt))"

lemma check_and_decrement_effect:
  assumes "redis_hash_laws c" "buckets_ok c r" "0 < cap" "0 < rate"
    and tl: "refill cap rate now (bucket_at c r k) = (t, l)"
  shows "check_and_decrement c k cap rate now r =
      (if t \<ge> 1 then (write_bucket c k cap rate (t - 1) l r, Inr True) else (r, Inr False))"
  by (simp add: check_and_decrement_def lua_refill_bucket[OF assms(1,2)] tl)

lemma bucket_at_write:
  assumes "redis_hash_laws c" "0 < cap" "0 < rate"
  shows "bucket_at c (write_bucket c k cap rate t l r) = (bucket_at c r)(k := Some (t, l))"
  by (rule ext) (simp add: write_bucket_effect(1)[OF assms])

lemma bucket_at_HINCRBY:
  assumes "redis_hash_laws c" "bucket_at c r k = Some (t, l)"
  shows "bucket_at c (HINCRBY c r k ''tokens'' n) = (bucket_at c r)(k := Some (t + n, l))"
    and "buckets_ok c r \<Longrightarrow> buckets_ok c (HINCRBY c r k ''tokens'' n)"
proof -
  have f: "hash_field c r k ''tokens'' = Some t" "hash_field c r k ''last_refill'' = Some l"
    using assms(2) by (auto simp: bucket_at_def split: option.splits)
  show "bucket_at c (HINCRBY c r k ''tokens'' n) = (bucket_at c r)(k := Some (t + n, l))"
    by (rule ext) (simp add: bucket_at_def redis_hash_lawsD(3)[OF assms(1)] f cong: option.case_cong)
  show "buckets_ok c r \<Longrightarrow> buckets_ok c (HINCRBY c r k ''tokens'' n)"
    by (auto simp: buckets_ok_def redis_hash_lawsD(3)[OF assms(1)] f)
qed

text \<open>The scripts implement the abstract operations.\<close>

lemma luaTokenBucket_refines:
  assumes "redis_hash_laws c" "buckets_ok c r"
    and run: "luaTokenBucket c global_key (player_key pid) now 10000 2000 50 5 r = (r', res)"
  shows "\<exists>ok. allow_abs pid now (bucket_at c r) = (bucket_at c r', ok) \<and> res = Inr (if ok then 1 else 0)"
    and "buckets_ok c r'"
proof -
  obtain gt gl where g: "refill 10000 2000 now (bucket_at c r global_key) = (gt, gl)" by fastforce
  obtain pt pl where p: "refill 50 5 now (bucket_at c r (player_key pid)) = (pt, pl)" by fastforce
  note laws = assms(1,2)
  note cd = check_and_decrement_effect[OF assms(1)]
  define r1 where "r1 = write_bucket c global_key 10000 2000 (gt - 1) gl r"
  have b1: "bucket_at c r1 = (bucket_at c r)(global_key := Some (gt - 1, gl))"
    and ok1: "buckets_ok c r1"
    using write_bucket_effect(2)[OF assms(1) _ _ assms(2)] by (simp_all add: r1_def bucket_at_write[OF assms(1)])
  have p1: "refill 50 5 now (bucket_at c r1 (player_key pid)) = (pt, pl)" by (simp add: b1 p)
  define r2 where "r2 = write_bucket c (player_key pid) 50 5 (pt - 1) pl r1"
  have b2: "bucket_at c r2 = (bucket_at c r1)(player_key pid := Some (pt - 1, pl))"
    and ok2: "buckets_ok c r2"
    using write_bucket_effect(2)[OF assms(1) _ _ ok1] by (simp_all add: r2_def bucket_at_write[OF assms(1)])
  have step: "(r', res) =
      (if gt < 1 then (r, Inr 0)
       else if pt < 1 then (HINCRBY c r1 global_key ''tokens'' 1, Inr 0) else (r2, Inr 1))"
    unfolding run[symmetric] luaTokenBucket_def
    by (simp add: cd[OF assms(2) _ _ g] cd[OF ok1 _ _ p1] r1_def[symmetric] r2_def[symmetric])
  note inc = bucket_at_HINCRBY[OF assms(1), of r1 global_key "gt - 1" gl 1]
  show "\<exists>ok. allow_abs pid now (bucket_at c r) = (bucket_at c r', ok) \<and> res = Inr (if ok then 1 else 0)"
    using step by (auto simp: allow_abs_def g p b2 b1 inc split: if_splits)
  show "buckets_ok c r'"
    using step ok1 ok2 assms(2) inc(2) by (auto simp: b1 split: if_splits)
qed

lemma luaDrainN_refines:
  assumes "redis_hash_laws c" "buckets_ok c r"
    and run: "luaDrainN c global_key (player_key pid) now 10000 2000 50 5 n r = (r', res)"
  shows "\<exists>k. drain_abs pid now n (bucket_at c r) = (bucket_at c r', k) \<and> res = Inr k"
    and "buckets_ok c r'"
proof -
  obtain gt gl where g: "refill 10000 2000 now (bucket_at c r global_key) = (gt, gl)" by fastforce
  obtain pt pl where p: "refill 50 5 now (bucket_at c r (player_key pid)) = (pt, pl)" by fastforce
  define r1 where "r1 = write_bucket c global_key 10000 2000 (gt - 1) gl r"
  have b1: "bucket_at c r1 = (bucket_at c r)(global_key := Some (gt - 1, gl))"
    and ok1: "buckets_ok c r1"
    using write_bucket_effect(2)[OF assms(1) _ _ assms(2)] by (simp_all add: r1_def bucket_at_write[OF assms(1)])
  have p1: "refill 50 5 now (bucket_at c r1 (player_key pid)) = (pt, pl)" by (simp add: b1 p)
  have step: "(r', res) =
      (if gt < 1 then (r, Inr 0)
       else (write_bucket c (player_key pid) 50 5 (pt - min n pt) pl r1, Inr (min n pt)))"
    unfolding run[symmetric] luaDrainN_def
    by (simp add: lua_refill_bucket[OF assms(1,2)] lua_refill_bucket[OF assms(1) ok1] g p1 Let_def r1_def[symmetric])
  show "\<exists>k. drain_abs pid now n (bucket_at c r) = (bucket_at c r', k) \<and> res = Inr k"
    using step by (auto simp: drain_abs_def g p bucket_at_write[OF assms(1)] b1 split: if_splits)
  show "buckets_ok c r'"
    using step assms(2) write_bucket_effect(2)[OF assms(1) _ _ ok1] by (auto split: if_splits)
qed

end
