(* ===== verification/Storage.thy ===== *)
theory Storage
  imports Unmarshal RateLimit Chunk
begin

text \<open>
  \<^verbatim>\<open>storage/redis.go\<close> and \<^verbatim>\<open>Chunk.MarshalJSON\<close>: chunks are stored as JSON text under one key each. The
  contract of the storage engine is a locale, interpreted on the Redis engine for every client.
\<close>

section \<open>The code\<close>

definition json_int :: "int \<Rightarrow> json" where
  "json_int i = JNum (dec_int i)"

definition MarshalJSON_tree :: "Chunk \<Rightarrow> json" where
  "MarshalJSON_tree c =
     (let cells = Snapshot c
      in JObj [(''x'', json_int (sint (idX (ID c)))),
               (''y'', json_int (sint (idY (ID c)))),
               (''active_count'', json_int (int (length cells))),
               (''cells'', JArr (map (\<lambda>off. json_int (uint off)) cells))])"

definition MarshalJSON :: "Chunk \<Rightarrow> string" where
  "MarshalJSON c = print_json (MarshalJSON_tree c)"

definition chunkKey :: "ChunkID \<Rightarrow> string" where
  "chunkKey i = ''chunk:'' @ dec_int (sint (idX i)) @ '':'' @ dec_int (sint (idY i))"

definition SaveChunk :: "'r redis \<Rightarrow> Chunk \<Rightarrow> 'r \<Rightarrow> 'r \<times> string option" where
  "SaveChunk c chunk r =
     (case Set c r (chunkKey (ID chunk)) (MarshalJSON chunk) of
        (r', None) \<Rightarrow> (r', None)
      | (r', Some err) \<Rightarrow> (r', Some (''failed to save chunk to redis: '' @ err)))"

record Alias =
  aX :: i64
  aY :: i64
  aCells :: "u16 slice"

definition zero_alias :: Alias where
  "zero_alias = \<lparr>aX = 0, aY = 0, aCells = nil_slice\<rparr>"

definition Alias_fields :: "Alias field list" where
  "Alias_fields =
     [(''x'', \<lambda>a j. map_option (\<lambda>v. a\<lparr>aX := v\<rparr>) (decode_int64 (aX a) j)),
      (''y'', \<lambda>a j. map_option (\<lambda>v. a\<lparr>aY := v\<rparr>) (decode_int64 (aY a) j)),
      (''cells'', \<lambda>a j. map_option (\<lambda>v. a\<lparr>aCells := v\<rparr>) (decode_slice 0 decode_uint16 (aCells a) j))]"

text \<open>The text of the errors of the JSON package is left out of the message.\<close>

definition LoadChunk :: "'r redis \<Rightarrow> ChunkID \<Rightarrow> 'r \<Rightarrow> string + Chunk option" where
  "LoadChunk c i r =
     (case Get c r (chunkKey i) of
        GetNil \<Rightarrow> Inr (Some (NewChunk (idX i) (idY i)))
      | GetErr err \<Rightarrow> Inl (''failed to load chunk from redis: '' @ err)
      | GetOk data \<Rightarrow>
          (case Option.bind (parse_json data) (decode_struct Alias_fields zero_alias) of
             None \<Rightarrow> Inl ''failed to unmarshal chunk data''
           | Some a \<Rightarrow> Inr (Some (SetRows (OffsetsToRows (elements (aCells a))) (NewChunk (aX a) (aY a))))))"

section \<open>The text of a chunk\<close>

lemma MarshalJSON_printable: "printable (MarshalJSON_tree c)" "fits 0 (MarshalJSON_tree c)"
  by (auto simp: MarshalJSON_tree_def json_int_def Let_def number_literal_dec plain_char_def maxNestingDepth_def)

lemma fold_names:
  "fold_name ''x'' = ''X''" "fold_name ''y'' = ''Y''" "fold_name ''cells'' = ''CELLS''"
  "fold_name ''active_count'' = ''ACTIVE_COUNT''"
  by (simp_all add: upper_def char_of_def bit_0)

lemma decode_MarshalJSON:
  "\<exists>a. decode_struct Alias_fields zero_alias (MarshalJSON_tree c) = Some a \<and>
       aX a = idX (ID c) \<and> aY a = idY (ID c) \<and> elements (aCells a) = Snapshot c"
proof -
  have "map_option elements (decode_slice 0 decode_uint16 nil_slice (JArr (map (\<lambda>off. json_int (uint off)) (Snapshot c))))
      = Some (Snapshot c)"
    by (rule decode_slice_fresh) (simp add: json_int_def)
  then obtain s where "decode_slice 0 decode_uint16 nil_slice (JArr (map (\<lambda>off. json_int (uint off)) (Snapshot c))) = Some s"
      "elements s = Snapshot c" by auto
  then show ?thesis
    by (simp add: MarshalJSON_tree_def Let_def decode_struct_def find_field_def Alias_fields_def zero_alias_def
        fold_names json_int_def)
qed

section \<open>Keys\<close>

lemma dec_nat_inject: "dec_nat m = dec_nat n \<longleftrightarrow> m = n"
proof
  assume "dec_nat m = dec_nat n"
  then have "digits_value (dec_nat m) = digits_value (dec_nat n)" by (rule arg_cong)
  then show "m = n" by (simp add: digits_value_dec)
qed simp

lemma dec_int_inject: "dec_int a = dec_int b \<longleftrightarrow> a = b"
proof -
  have minus: "dec_nat m \<noteq> CHR ''-'' # r" for m r
    using dec_nat_digits[of m] by (auto simp: is_digit_def)
  note minus = minus minus[symmetric]
  show ?thesis
    by (cases "a < 0"; cases "b < 0"; simp add: dec_int_def dec_nat_inject minus; linarith)
qed

lemma dec_int_no_colon: "CHR '':'' \<notin> set (dec_int a)"
proof -
  have "CHR '':'' \<notin> set (dec_nat n)" for n
    using dec_nat_digits[of n] by (auto simp: list_all_iff is_digit_def)
  then show ?thesis by (auto simp: dec_int_def)
qed

lemma append_sep_inject:
  assumes "x \<notin> set as" "x \<notin> set bs"
  shows "as @ x # cs = bs @ x # ds \<longleftrightarrow> as = bs \<and> cs = ds"
  using assms
proof (induction as arbitrary: bs)
  case Nil
  then show ?case by (cases bs) auto
next
  case (Cons a as)
  then show ?case by (cases bs) auto
qed

lemma chunkKey_inject: "chunkKey i = chunkKey j \<longleftrightarrow> i = j"
proof -
  have sint: "sint x = sint y \<longleftrightarrow> x = y" for x y :: i64
    by (simp add: word_eq_iff_signed[where 'a = int])
  show ?thesis
    by (cases i; cases j) (simp add: chunkKey_def append_sep_inject dec_int_no_colon dec_int_inject sint)
qed


section \<open>The contract of a storage engine\<close>

locale storage_engine =
  fixes ok :: "'r \<Rightarrow> bool"
    and save :: "Chunk \<Rightarrow> 'r \<Rightarrow> 'r \<times> string option"
    and load :: "ChunkID \<Rightarrow> 'r \<Rightarrow> string + Chunk option"
    and valid :: "Chunk \<Rightarrow> bool"
  assumes save_ok: "ok r \<Longrightarrow> ok (fst (save c r))"
    and load_saved: "ok r \<Longrightarrow> valid c \<Longrightarrow> snd (save c r) = None \<Longrightarrow> load (ID c) (fst (save c r)) = Inr (Some c)"
    and load_failed: "ok r \<Longrightarrow> valid c \<Longrightarrow> snd (save c r) \<noteq> None \<Longrightarrow>
      load (ID c) (fst (save c r)) = Inr (Some c) \<or> load (ID c) (fst (save c r)) = load (ID c) r"
    and load_other: "ok r \<Longrightarrow> i \<noteq> ID c \<Longrightarrow> load i (fst (save c r)) = load i r"
begin

text \<open>Everything that can be loaded satisfies \<open>P\<close>; saving a chunk that satisfies it keeps this so.\<close>

definition holds :: "(ChunkID \<Rightarrow> Chunk \<Rightarrow> bool) \<Rightarrow> 'r \<Rightarrow> bool" where
  "holds P r \<longleftrightarrow> (\<forall>i c. load i r = Inr (Some c) \<longrightarrow> P i c)"

lemma load_after_save:
  assumes "ok r" "valid c"
  shows "load i (fst (save c r)) = (if i = ID c then Inr (Some c) else load i r) \<or>
    load i (fst (save c r)) = load i r"
  using load_saved[OF assms] load_failed[OF assms] load_other[OF assms(1)] by metis

lemma holds_save:
  assumes "ok r" "valid c" "holds P r" "P (ID c) c"
  shows "holds P (fst (save c r))"
  using assms(3,4) load_after_save[OF assms(1,2)] unfolding holds_def
  by (metis option.inject sum.inject(2))

lemma holds_fold:
  assumes "ok r" "holds P r" "\<forall>c\<in>set cs. valid c \<and> P (ID c) c"
  shows "holds P (fold (\<lambda>c r. fst (save c r)) cs r)"
  using assms by (induction cs arbitrary: r) (simp_all add: holds_save save_ok)

end

lemma LoadChunk_stored:
  assumes "Get c r (chunkKey (ID ch)) = GetOk (MarshalJSON ch)" "wf_rows (rows ch)"
  shows "LoadChunk c (ID ch) r = Inr (Some ch)"
proof -
  have "parse_json (MarshalJSON ch) = Some (MarshalJSON_tree ch)"
    unfolding MarshalJSON_def by (rule parse_print_json[OF MarshalJSON_printable])
  moreover obtain a where "decode_struct Alias_fields zero_alias (MarshalJSON_tree ch) = Some a"
      "aX a = idX (ID ch)" "aY a = idY (ID ch)" "elements (aCells a) = Snapshot ch"
    using decode_MarshalJSON by blast
  ultimately show ?thesis
    using assms
    by (simp add: LoadChunk_def Snapshot_def OffsetsToRows_RowsToOffsets Rows_def SetRows_def NewChunk_def)
qed

lemma LoadChunk_cong: "Get c r' (chunkKey i) = Get c r (chunkKey i) \<Longrightarrow> LoadChunk c i r' = LoadChunk c i r"
  by (simp add: LoadChunk_def)

lemma SaveChunk_Set:
  "fst (SaveChunk c ch r) = fst (Set c r (chunkKey (ID ch)) (MarshalJSON ch))"
  "snd (SaveChunk c ch r) = None \<longleftrightarrow> snd (Set c r (chunkKey (ID ch)) (MarshalJSON ch)) = None"
  by (simp_all add: SaveChunk_def split: prod.splits option.splits)

interpretation redis_engine:
  storage_engine "\<lambda>r. redis_kv_laws c" "SaveChunk c" "LoadChunk c" "\<lambda>ch. wf_rows (rows ch)"
  for c :: "'r redis"
proof unfold_locales
  fix r :: 'r and ch i
  assume laws: "redis_kv_laws c"
  show "redis_kv_laws c" by (rule laws)
  obtain r' e where s: "Set c r (chunkKey (ID ch)) (MarshalJSON ch) = (r', e)" by fastforce
  show "i \<noteq> ID ch \<Longrightarrow> LoadChunk c i (fst (SaveChunk c ch r)) = LoadChunk c i r"
    using laws by (auto simp: SaveChunk_Set redis_kv_laws_def chunkKey_inject intro!: LoadChunk_cong)
  assume wf: "wf_rows (rows ch)"
  show "snd (SaveChunk c ch r) = None \<Longrightarrow> LoadChunk c (ID ch) (fst (SaveChunk c ch r)) = Inr (Some ch)"
    using laws s wf by (auto simp: SaveChunk_Set redis_kv_laws_def intro!: LoadChunk_stored)
  show "snd (SaveChunk c ch r) \<noteq> None \<Longrightarrow>
      LoadChunk c (ID ch) (fst (SaveChunk c ch r)) = Inr (Some ch) \<or>
      LoadChunk c (ID ch) (fst (SaveChunk c ch r)) = LoadChunk c (ID ch) r"
    using laws s wf unfolding SaveChunk_Set redis_kv_laws_def
    by (metis LoadChunk_cong LoadChunk_stored fst_conv not_None_eq snd_conv)
qed

section \<open>Properties\<close>

text \<open>
  C20. Saving and loading round-trip: after a successful \<open>SaveChunk\<close>, \<open>LoadChunk\<close> of its identifier
  returns the very same chunk, through the JSON text, the sparse offsets and the key; every other
  identifier still loads what it did. A failed save leaves the old chunk or the new one.
\<close>

theorem save_load_roundtrip:
  assumes "redis_kv_laws c" "wf_rows (rows ch)" and "SaveChunk c ch r = (r', err)"
  shows "(err = None \<longrightarrow> LoadChunk c (ID ch) r' = Inr (Some ch)) \<and>
    (LoadChunk c (ID ch) r' = Inr (Some ch) \<or> LoadChunk c (ID ch) r' = LoadChunk c (ID ch) r) \<and>
    (\<forall>i. i \<noteq> ID ch \<longrightarrow> LoadChunk c i r' = LoadChunk c i r)"
  using redis_engine.load_saved[OF assms(1,2), of r] redis_engine.load_failed[OF assms(1,2), of r]
    redis_engine.load_other[OF assms(1), of _ ch r] assms(3)
  by auto

definition demo_chunk :: Chunk where
  "demo_chunk = AddCell 3 2 (AddCell 63 0 (NewChunk (- 1) 7))"

theorem save_load_roundtrip_witness:
  "LoadChunk memory_redis (ChunkID (- 1) 7) (fst (SaveChunk memory_redis demo_chunk empty_memory)) = Inr (Some demo_chunk)"
proof -
  have "snd (SaveChunk memory_redis demo_chunk empty_memory) = None"
    by (simp add: SaveChunk_def memory_redis_def)
  moreover have "ID demo_chunk = ChunkID (- 1) 7" "wf_rows (rows demo_chunk)"
    by (simp_all add: demo_chunk_def NewChunk_def wf_simps)
  ultimately show ?thesis
    using save_load_roundtrip[of memory_redis demo_chunk empty_memory] by (metis memory_redis_laws(3) prod.collapse)
qed

text \<open>
  Every chunk has a key of its own, and no chunk's key is a key of the rate limiter, which shares the
  database.
\<close>

theorem chunk_keys_distinct:
  "(chunkKey i = chunkKey j) = (i = j) \<and> chunkKey i \<noteq> global_key \<and> chunkKey i \<noteq> player_key p"
  by (simp add: chunkKey_inject) (simp add: chunkKey_def global_key_def player_key_def)

end
