(* ===== verification/Shapes.thy ===== *)
theory Shapes
  imports Prelude
begin

text \<open>
  \<^verbatim>\<open>gateway/shapes.go\<close>: the catalogue of named patterns and the validation of patterns designed by
  clients.
\<close>

section \<open>Data\<close>

datatype off = Off (offX: i64) (offY: i64)

datatype CellOffset = CellOffset (cellX: i64) (cellY: i64)

record ShapeDef =
  Label :: string
  Category :: string
  Cells :: "off list"

definition catalog :: "(string \<times> ShapeDef) list" where
  "catalog = [
    (''cell'', \<lparr>Label = ''Cell'', Category = ''Still Life'', Cells = [
      Off 0 0]\<rparr>),
    (''block'', \<lparr>Label = ''Block'', Category = ''Still Life'', Cells = [
      Off 0 0, Off 1 0,
      Off 0 1, Off 1 1]\<rparr>),
    (''beehive'', \<lparr>Label = ''Beehive'', Category = ''Still Life'', Cells = [
      Off 1 0, Off 2 0,
      Off 0 1, Off 3 1,
      Off 1 2, Off 2 2]\<rparr>),
    (''blinker'', \<lparr>Label = ''Blinker'', Category = ''Oscillator'', Cells = [
      Off 0 0, Off 1 0, Off 2 0]\<rparr>),
    (''toad'', \<lparr>Label = ''Toad (p2)'', Category = ''Oscillator'', Cells = [
      Off 1 0, Off 2 0, Off 3 0,
      Off 0 1, Off 1 1, Off 2 1]\<rparr>),
    (''beacon'', \<lparr>Label = ''Beacon (p2)'', Category = ''Oscillator'', Cells = [
      Off 0 0, Off 1 0,
      Off 0 1,
      Off 3 2,
      Off 2 3, Off 3 3]\<rparr>),
    (''pulsar'', \<lparr>Label = ''Pulsar (p3)'', Category = ''Oscillator'', Cells = [
      Off 2 0, Off 3 0, Off 4 0, Off 8 0, Off 9 0, Off 10 0,
      Off 0 2, Off 5 2, Off 7 2, Off 12 2,
      Off 0 3, Off 5 3, Off 7 3, Off 12 3,
      Off 0 4, Off 5 4, Off 7 4, Off 12 4,
      Off 2 5, Off 3 5, Off 4 5, Off 8 5, Off 9 5, Off 10 5,
      Off 2 7, Off 3 7, Off 4 7, Off 8 7, Off 9 7, Off 10 7,
      Off 0 8, Off 5 8, Off 7 8, Off 12 8,
      Off 0 9, Off 5 9, Off 7 9, Off 12 9,
      Off 0 10, Off 5 10, Off 7 10, Off 12 10,
      Off 2 12, Off 3 12, Off 4 12, Off 8 12, Off 9 12, Off 10 12]\<rparr>),
    (''glider'', \<lparr>Label = ''Glider'', Category = ''Spaceship'', Cells = [
      Off 1 0,
      Off 2 1,
      Off 0 2, Off 1 2, Off 2 2]\<rparr>),
    (''lwss'', \<lparr>Label = ''LWSS'', Category = ''Spaceship'', Cells = [
      Off 1 0, Off 4 0,
      Off 0 1,
      Off 0 2, Off 4 2,
      Off 0 3, Off 1 3, Off 2 3, Off 3 3]\<rparr>),
    (''r-pentomino'', \<lparr>Label = ''R-Pentomino'', Category = ''Methuselah'', Cells = [
      Off 1 0, Off 2 0,
      Off 0 1, Off 1 1,
      Off 1 2]\<rparr>),
    (''acorn'', \<lparr>Label = ''Acorn'', Category = ''Methuselah'', Cells = [
      Off 1 0,
      Off 3 1,
      Off 0 2, Off 1 2, Off 4 2, Off 5 2, Off 6 2]\<rparr>),
    (''diehard'', \<lparr>Label = ''Diehard'', Category = ''Methuselah'', Cells = [
      Off 6 0,
      Off 0 1, Off 1 1,
      Off 1 2, Off 5 2, Off 6 2, Off 7 2]\<rparr>),
    (''gosper-gun'', \<lparr>Label = ''Gosper Gun'', Category = ''Gun'', Cells = [
      Off 0 4, Off 1 4, Off 0 5, Off 1 5,
      Off 10 4, Off 10 5, Off 10 6,
      Off 11 3, Off 11 7,
      Off 12 2, Off 12 8,
      Off 13 2, Off 13 8,
      Off 14 5,
      Off 15 3, Off 15 7,
      Off 16 4, Off 16 5, Off 16 6,
      Off 17 5,
      Off 20 2, Off 21 2,
      Off 20 3, Off 21 3,
      Off 20 4, Off 21 4,
      Off 22 1, Off 22 5,
      Off 24 0, Off 24 1,
      Off 24 5, Off 24 6,
      Off 34 2, Off 34 3,
      Off 35 2, Off 35 3]\<rparr>)]"

definition GetShape :: "string \<Rightarrow> off list option" where
  "GetShape name = (case map_of catalog name of None \<Rightarrow> None | Some def \<Rightarrow> Some (Cells def))"

definition CatalogForClient :: "(string \<times> ShapeDef) list" where
  "CatalogForClient = catalog"

section \<open>Validation of custom pieces\<close>

definition MaxCustomDim :: i64 where
  "MaxCustomDim = 99"

definition MaxCustomCells :: nat where
  "MaxCustomCells = 10000"

definition LargeCustomThreshold :: nat where
  "LargeCustomThreshold = 50"

text \<open>The loop over the cells: \<open>seen\<close> is the set of keys, \<open>out\<close> the slice being built.\<close>

fun ValidateCustomCells_loop ::
  "CellOffset list \<Rightarrow> (i64 \<times> i64) list \<Rightarrow> CellOffset list \<Rightarrow> string + CellOffset list" where
  "ValidateCustomCells_loop [] seen out = Inr out"
| "ValidateCustomCells_loop (c # cs) seen out =
     (if cellX c <s 0 \<or> MaxCustomDim <s cellX c \<or> cellY c <s 0 \<or> MaxCustomDim <s cellY c
      then Inl ''OUT_OF_BOUNDS''
      else if (cellX c, cellY c) \<in> set seen then ValidateCustomCells_loop cs seen out
      else ValidateCustomCells_loop cs ((cellX c, cellY c) # seen) (out @ [c]))"

definition ValidateCustomCells :: "CellOffset list \<Rightarrow> string + CellOffset list" where
  "ValidateCustomCells cells =
     (if length cells = 0 then Inl ''EMPTY_PIECE''
      else case ValidateCustomCells_loop cells [] [] of
             Inl e \<Rightarrow> Inl e
           | Inr out \<Rightarrow> if length out > MaxCustomCells then Inl ''TOO_MANY_CELLS'' else Inr out)"

section \<open>What validation returns\<close>

definition in_piece :: "CellOffset \<Rightarrow> bool" where
  "in_piece c \<longleftrightarrow> 0 \<le> sint (cellX c) \<and> sint (cellX c) \<le> 99 \<and> 0 \<le> sint (cellY c) \<and> sint (cellY c) \<le> 99"

text \<open>First occurrences, in order.\<close>

fun firsts :: "'a list \<Rightarrow> 'a set \<Rightarrow> 'a list" where
  "firsts [] seen = []"
| "firsts (x # xs) seen = (if x \<in> seen then firsts xs seen else x # firsts xs (insert x seen))"

lemma set_firsts: "set (firsts xs seen) = set xs - seen"
  by (induction xs seen rule: firsts.induct) auto

lemma distinct_firsts: "distinct (firsts xs seen)"
  by (induction xs seen rule: firsts.induct) (auto simp: set_firsts)

lemma validate_loop:
  "ValidateCustomCells_loop cs seen out =
     (if \<forall>c\<in>set cs. in_piece c then Inr (out @ firsts cs ((\<lambda>(x, y). CellOffset x y) ` set seen))
      else Inl ''OUT_OF_BOUNDS'')"
proof (induction cs arbitrary: seen out)
  case (Cons c cs)
  have guard: "(cellX c <s 0 \<or> MaxCustomDim <s cellX c \<or> cellY c <s 0 \<or> MaxCustomDim <s cellY c) \<longleftrightarrow> \<not> in_piece c"
    by (auto simp: in_piece_def MaxCustomDim_def word_sless_alt)
  have seen: "(cellX c, cellY c) \<in> set seen \<longleftrightarrow> c \<in> (\<lambda>(x, y). CellOffset x y) ` set seen"
    by (cases c) (force simp: image_iff)
  show ?case
    unfolding ValidateCustomCells_loop.simps guard
    by (auto simp: Cons.IH seen)
qed simp

lemma in_piece_card: "finite {c. in_piece c} \<and> card {c. in_piece c} \<le> 10000"
proof -
  let ?f = "\<lambda>c. (nat (sint (cellX c)), nat (sint (cellY c)))"
  have inj: "inj_on ?f {c. in_piece c}"
  proof (rule inj_onI)
    fix c d assume "c \<in> {c. in_piece c}" "d \<in> {c. in_piece c}" "?f c = ?f d"
    then have "sint (cellX c) = sint (cellX d)" "sint (cellY c) = sint (cellY d)"
      by (auto simp: in_piece_def)
    then have "cellX c = cellX d \<and> cellY c = cellY d" by (simp add: word_eq_iff_signed[where 'a = int])
    then show "c = d" by (rule CellOffset.expand)
  qed
  have sub: "?f ` {c. in_piece c} \<subseteq> {..<100} \<times> {..<100}" by (auto simp: in_piece_def)
  have fin: "finite {c. in_piece c}" by (rule inj_on_finite[OF inj sub]) simp
  moreover have "card {c. in_piece c} \<le> card ({..<100::nat} \<times> {..<100::nat})"
    by (rule card_inj_on_le[OF inj sub]) simp
  ultimately show ?thesis by (simp add: card_cartesian_product)
qed

lemma firsts_bound:
  assumes "\<forall>c\<in>set cs. in_piece c"
  shows "length (firsts cs {}) \<le> 10000"
proof -
  have "length (firsts cs {}) = card (set (firsts cs {}))"
    by (simp add: distinct_card[OF distinct_firsts])
  also have "\<dots> \<le> card {c. in_piece c}"
    by (rule card_mono) (use in_piece_card assms in \<open>auto simp: set_firsts\<close>)
  finally show ?thesis using in_piece_card by simp
qed

section \<open>Properties\<close>

text \<open>
  C38. \<open>ValidateCustomCells\<close> rejects an empty piece, rejects a piece with any offset outside the 100 by
  100 grid, and otherwise returns each cell once, in the order of first occurrence. The third
  documented rejection never happens: after removing duplicates at most 10000 cells are left.
\<close>

theorem validate_custom_cells_spec:
  "ValidateCustomCells cells =
     (if cells = [] then Inl ''EMPTY_PIECE''
      else if \<forall>c\<in>set cells. in_piece c then Inr (firsts cells {})
      else Inl ''OUT_OF_BOUNDS'') \<and>
   ValidateCustomCells cells \<noteq> Inl ''TOO_MANY_CELLS'' \<and>
   distinct (firsts cells {}) \<and> set (firsts cells {}) = set cells"
  using firsts_bound[of cells]
  by (auto simp: ValidateCustomCells_def validate_loop MaxCustomCells_def set_firsts distinct_firsts)

theorem validate_custom_cells_spec_witness:
  "ValidateCustomCells [CellOffset 2 3, CellOffset 0 0, CellOffset 2 3] = Inr [CellOffset 2 3, CellOffset 0 0] \<and>
   ValidateCustomCells [CellOffset 0 100] = Inl ''OUT_OF_BOUNDS''"
  using validate_custom_cells_spec[of "[CellOffset 2 3, CellOffset 0 0, CellOffset 2 3]"]
    validate_custom_cells_spec[of "[CellOffset 0 100]"]
  by (simp add: in_piece_def)

text \<open>
  Every catalogue entry is placeable: its cells are pairwise distinct, lie in the 36 by 13 box at
  the root, and number at most 48, so a player with a full bucket of 50 tokens can always pay for
  one.
\<close>

theorem catalog_entries_affordable:
  "\<forall>(name, def)\<in>set catalog.
     GetShape name = Some (Cells def) \<and> Cells def \<noteq> [] \<and> distinct (Cells def) \<and> length (Cells def) \<le> 48 \<and>
     (\<forall>c\<in>set (Cells def). unat (offX c) < 36 \<and> unat (offY c) < 13)"
  by (simp add: catalog_def GetShape_def)

end
