(* ===== verification/Float64.thy ===== *)
theory Float64
  imports Unmarshal
begin

text \<open>
  The numbers of a client's message pass through \<^verbatim>\<open>float64\<close>: \<^verbatim>\<open>json.Unmarshal\<close> into an \<^verbatim>\<open>interface{}\<close> reads
  every number as the nearest double, and \<^verbatim>\<open>json.Marshal\<close> prints the shortest decimal that reads back
  as the same double. Both are defined here over integers. A double is its sign, an integer
  mantissa and an exponent of two; rationals are pairs of numerator and denominator.
\<close>

datatype float64 = Float (neg: bool) (mant: nat) (expo: int)

section \<open>Reading\<close>

fun bit_length :: "nat \<Rightarrow> nat" where
  "bit_length n = (if n = 0 then 0 else Suc (bit_length (n div 2)))"

declare bit_length.simps [simp del]

definition div_half_even :: "nat \<Rightarrow> nat \<Rightarrow> nat" where
  "div_half_even n d =
     (let q = n div d; r = n mod d
      in if 2 * r < d \<or> (2 * r = d \<and> even q) then q else q + 1)"

text \<open>The rational scaled by a power of two.\<close>

definition scale2 :: "nat \<Rightarrow> nat \<Rightarrow> int \<Rightarrow> nat \<times> nat" where
  "scale2 n d e = (if 0 \<le> e then (n, d * 2 ^ nat e) else (n * 2 ^ nat (- e), d))"

definition floor_log2 :: "nat \<Rightarrow> nat \<Rightarrow> int" where
  "floor_log2 n d =
     (let l = int (bit_length n) - int (bit_length d); (n', d') = scale2 n d l
      in if d' \<le> n' then l else l - 1)"

text \<open>The double nearest to \<open>n / d\<close>, ties to even; \<open>None\<close> when it overflows.\<close>

definition round_float :: "nat \<Rightarrow> nat \<Rightarrow> (nat \<times> int) option" where
  "round_float n d =
     (if n = 0 then Some (0, 0)
      else let e = max (- 1074) (floor_log2 n d - 52);
               (n', d') = scale2 n d e;
               m = div_half_even n' d'
           in if 2 ^ 53 \<le> m \<and> 971 \<le> e \<or> 972 \<le> e then None else Some (m, e))"

text \<open>A number literal split into sign, digits and decimal exponent.\<close>

definition literal_parts :: "string \<Rightarrow> bool \<times> nat \<times> int" where
  "literal_parts s =
     (let (sgn, s1) = (if take 1 s = ''-'' then (True, drop 1 s) else (False, s));
          ip = takeWhile is_digit s1; s2 = dropWhile is_digit s1;
          fp = (if take 1 s2 = ''.'' then takeWhile is_digit (drop 1 s2) else []);
          s3 = (if take 1 s2 = ''.'' then dropWhile is_digit (drop 1 s2) else s2);
          ex = (case s3 of
                  [] \<Rightarrow> 0
                | _ # r \<Rightarrow> if take 1 r = ''-'' then - digits_value (drop 1 r)
                           else if take 1 r = ''+'' then digits_value (drop 1 r)
                           else digits_value r)
      in (sgn, nat (digits_value (ip @ fp)), ex - int (length fp)))"

definition ParseFloat :: "string \<Rightarrow> float64 option" where
  "ParseFloat s =
     (let (sgn, m, x) = literal_parts s
      in map_option (\<lambda>(q, e). Float sgn q e)
           (if 0 \<le> x then round_float (m * 10 ^ nat x) 1 else round_float m (10 ^ nat (- x))))"

section \<open>Printing\<close>

definition float_value :: "nat \<times> int \<Rightarrow> nat \<times> nat" where
  "float_value f = (case f of (m, e) \<Rightarrow> if 0 \<le> e then (m * 2 ^ nat e, 1) else (m, 2 ^ nat (- e)))"

definition same_value :: "nat \<times> nat \<Rightarrow> nat \<times> nat \<Rightarrow> bool" where
  "same_value a b \<longleftrightarrow> fst a * snd b = fst b * snd a"

fun first_some :: "('a \<Rightarrow> 'b option) \<Rightarrow> 'a list \<Rightarrow> 'b option" where
  "first_some f [] = None"
| "first_some f (x # xs) = (case f x of None \<Rightarrow> first_some f xs | Some y \<Rightarrow> Some y)"

text \<open>The decimal exponent of the leading digit of \<open>n / d\<close>, which is not zero.\<close>

definition leading_exponent :: "nat \<Rightarrow> nat \<Rightarrow> int" where
  "leading_exponent n d =
     (if d \<le> n then int (length (dec_nat (n div d))) - 1
      else (case first_some (\<lambda>k. if d \<le> n * 10 ^ k then Some k else None) [1..<400] of
              None \<Rightarrow> 0 | Some k \<Rightarrow> - int k))"

definition scale10 :: "nat \<Rightarrow> nat \<Rightarrow> int \<Rightarrow> nat \<times> nat" where
  "scale10 n d x = (if 0 \<le> x then (n, d * 10 ^ nat x) else (n * 10 ^ nat (- x), d))"

definition decimal_value :: "nat \<Rightarrow> int \<Rightarrow> nat \<times> nat" where
  "decimal_value c x = (if 0 \<le> x then (c * 10 ^ nat x, 1) else (c, 10 ^ nat (- x)))"

definition reads_back :: "nat \<times> nat \<Rightarrow> nat \<Rightarrow> int \<Rightarrow> bool" where
  "reads_back v c x =
     (case round_float (fst (decimal_value c x)) (snd (decimal_value c x)) of
        None \<Rightarrow> False | Some f \<Rightarrow> same_value (float_value f) v)"

text \<open>The decimal with \<open>k\<close> digits that is nearest to the value among those that read back as it, if there is one.\<close>

definition digits_candidate :: "nat \<times> nat \<Rightarrow> nat \<Rightarrow> (nat \<times> int) option" where
  "digits_candidate v k =
     (let x = leading_exponent (fst v) (snd v) + 1 - int k;
          (n, d) = scale10 (fst v) (snd v) x;
          lo = n div d; r = n mod d;
          down = reads_back v lo x; up = (r \<noteq> 0 \<and> reads_back v (lo + 1) x)
      in if down \<and> (\<not> up \<or> 2 * r < d \<or> (2 * r = d \<and> even lo)) then Some (lo, x)
         else if up then Some (lo + 1, x)
         else None)"

fun strip_zeros :: "nat \<Rightarrow> int \<Rightarrow> nat \<times> int" where
  "strip_zeros c x = (if c \<noteq> 0 \<and> c mod 10 = 0 then strip_zeros (c div 10) (x + 1) else (c, x))"

declare strip_zeros.simps [simp del]

definition shortest :: "nat \<times> nat \<Rightarrow> nat \<times> int" where
  "shortest v = (case first_some (digits_candidate v) [1..<18] of None \<Rightarrow> (0, 0) | Some (c, x) \<Rightarrow> strip_zeros c x)"

text \<open>Without an exponent, and with one.\<close>

definition format_f :: "nat \<Rightarrow> int \<Rightarrow> string" where
  "format_f c x =
     (if 0 \<le> x then dec_nat c @ replicate (nat x) CHR ''0''
      else let s = dec_nat c; k = nat (- x);
               s' = (if length s \<le> k then replicate (k + 1 - length s) CHR ''0'' @ s else s)
           in take (length s' - k) s' @ ''.'' @ drop (length s' - k) s')"

definition format_e :: "nat \<Rightarrow> int \<Rightarrow> string" where
  "format_e c x =
     (let s = dec_nat c; p = int (length s) - 1 + x
      in take 1 s @ (if length s = 1 then [] else ''.'' @ drop 1 s) @ ''e'' @
         (if p < 0 then ''-'' else ''+'') @ dec_nat (nat \<bar>p\<bar>))"

text \<open>The format \<^verbatim>\<open>json.Marshal\<close> chooses: an exponent below \<open>1e-6\<close> and from \<open>1e21\<close>.\<close>

definition format_float :: "float64 \<Rightarrow> string" where
  "format_float f =
     (if neg f then ''-'' else []) @
     (if mant f = 0 then ''0''
      else let v = float_value (mant f, expo f); (c, x) = shortest v
           in if fst v * 10 ^ 6 < snd v \<or> 10 ^ 21 * snd v \<le> fst v then format_e c x else format_f c x)"

section \<open>Small integers\<close>

lemma bit_length_bounds: "0 < n \<Longrightarrow> 2 ^ (bit_length n - 1) \<le> n \<and> n < 2 ^ bit_length n \<and> 0 < bit_length n"
proof (induction n rule: bit_length.induct)
  case (1 n)
  show ?case
  proof (cases "n div 2 = 0")
    case True
    with 1(2) have "n = 1" by simp
    then show ?thesis by (simp add: bit_length.simps)
  next
    case False
    with 1 have IH: "2 ^ (bit_length (n div 2) - 1) \<le> n div 2" "n div 2 < 2 ^ bit_length (n div 2)"
        "0 < bit_length (n div 2)" by auto
    then obtain k where k: "bit_length (n div 2) = Suc k" by (cases "bit_length (n div 2)") auto
    have "bit_length n = Suc (Suc k)" using 1(2) k by (simp add: bit_length.simps[of n])
    moreover have "2 * (n div 2) \<le> n" "n < 2 * (n div 2) + 2" by simp_all
    ultimately show ?thesis using IH k by simp
  qed
qed

lemma div_half_even_exact: "0 < d \<Longrightarrow> d dvd n \<Longrightarrow> div_half_even n d = n div d"
  by (simp add: div_half_even_def Let_def)

text \<open>An integer below \<open>2 ^ 53\<close> is a double.\<close>

lemma round_float_small:
  assumes "n < 2 ^ 53"
  shows "\<exists>f. round_float n 1 = Some f \<and> same_value (float_value f) (n, 1) \<and> (fst f = 0 \<longleftrightarrow> n = 0)"
proof (cases "n = 0")
  case True
  then show ?thesis by (simp add: round_float_def float_value_def same_value_def)
next
  case False
  note b = bit_length_bounds[of n]
  have "2 ^ (bit_length n - 1) < (2 ^ 53 :: nat)" using assms b False by linarith
  then have len: "bit_length n \<le> 53" using b False by (subst (asm) power_strict_increasing_iff) auto
  have one: "bit_length (Suc 0) = 1" by (simp add: bit_length.simps)
  have "floor_log2 n (Suc 0) \<le> int (bit_length n) - 1" by (simp add: floor_log2_def one Let_def scale2_def)
  moreover have "floor_log2 n (Suc 0) \<ge> - 1"
    using b False by (auto simp: floor_log2_def one Let_def scale2_def)
  ultimately have e: "max (- 1074) (floor_log2 n 1 - 52) \<le> 0" "- 1074 \<le> max (- 1074) (floor_log2 n 1 - 52)"
    using len by auto
  define e where "e = max (- 1074) (floor_log2 n (Suc 0) - 52)"
  have e0: "e \<le> 0" "- 1074 \<le> e" using e by (simp_all only: e_def One_nat_def)
  have s: "scale2 n (Suc 0) e = (n * 2 ^ nat (- e), 1)"
    using e0 by (cases "e = 0") (simp_all add: scale2_def)
  have r: "round_float n 1 = Some (n * 2 ^ nat (- e), e)"
    using False e0
    by (simp add: round_float_def Let_def e_def[symmetric] s div_half_even_exact)
  have "same_value (float_value (n * 2 ^ nat (- e), e)) (n, 1)"
    using e0 by (cases "e = 0") (simp_all add: float_value_def same_value_def)
  then show ?thesis using r False by auto
qed

text \<open>So is an even integer below \<open>2 ^ 54\<close>.\<close>

definition exact_nat :: "nat \<Rightarrow> bool" where
  "exact_nat n \<longleftrightarrow> n < 2 ^ 53 \<or> even n \<and> n < 2 ^ 54"

lemma exact_nat_le: "n \<le> 2 ^ 53 \<Longrightarrow> exact_nat n"
  by (auto simp: exact_nat_def le_less)

lemma round_float_exact:
  assumes "exact_nat n"
  shows "\<exists>f. round_float n 1 = Some f \<and> same_value (float_value f) (n, 1) \<and> (fst f = 0 \<longleftrightarrow> n = 0)"
proof (cases "n < 2 ^ 53")
  case True
  then show ?thesis by (rule round_float_small)
next
  case False
  then have n: "even n" "2 ^ 53 \<le> n" "n < 2 ^ 54" using assms by (simp_all add: exact_nat_def)
  then have pos: "0 < n" by simp
  note b = bit_length_bounds[OF pos]
  have "2 ^ (bit_length n - 1) < (2 ^ 54 :: nat)" using n b by linarith
  then have "bit_length n - 1 < 54" by (subst (asm) power_strict_increasing_iff) auto
  moreover have "(2 :: nat) ^ 53 < 2 ^ bit_length n" using n b by linarith
  then have "53 < bit_length n" by (subst (asm) power_strict_increasing_iff) auto
  ultimately have len: "bit_length n = 54" by linarith
  have one: "bit_length (Suc 0) = 1" by (simp add: bit_length.simps)
  have log: "floor_log2 n (Suc 0) = 53"
    using n by (simp add: floor_log2_def len one scale2_def)
  have "round_float n 1 = Some (n div 2, 1)"
    using n by (simp add: round_float_def log scale2_def Let_def div_half_even_exact)
  then show ?thesis using n by (intro exI[of _ "(n div 2, 1)"]) (auto simp: float_value_def same_value_def)
qed

lemma dec_nat_length: "0 < n \<Longrightarrow> 10 ^ (length (dec_nat n) - 1) \<le> n \<and> n < 10 ^ length (dec_nat n) \<and> 0 < length (dec_nat n)"
proof (induction n rule: less_induct)
  case (less n)
  show ?case
  proof (cases "n < 10")
    case True
    then show ?thesis using less(2) by (simp add: dec_nat.simps[of n])
  next
    case False
    then have IH: "10 ^ (length (dec_nat (n div 10)) - 1) \<le> n div 10" "n div 10 < 10 ^ length (dec_nat (n div 10))"
        "0 < length (dec_nat (n div 10))" using less(1)[of "n div 10"] by simp_all
    then obtain k where k: "length (dec_nat (n div 10)) = Suc k" by (cases "length (dec_nat (n div 10))") auto
    have "length (dec_nat n) = Suc (Suc k)" using False k by (simp add: dec_nat.simps[of n])
    moreover have "10 * (n div 10) \<le> n" "n < 10 * (n div 10) + 10" by simp_all
    ultimately show ?thesis using IH k by simp
  qed
qed

lemma dec_nat_times10: "0 < c \<Longrightarrow> dec_nat (c * 10 ^ k) = dec_nat c @ replicate k CHR ''0''"
proof (induction k)
  case (Suc k)
  have "dec_nat (c * 10 ^ Suc k) = dec_nat (c * 10 ^ k) @ [char_of (48 :: nat)]"
    using Suc.prems by (subst dec_nat.simps) (simp add: ac_simps)
  moreover have "char_of (48 :: nat) = CHR ''0''" by (simp add: char_of_def bit_0)
  ultimately show ?case using Suc by (simp add: replicate_append_same)
qed simp

lemma first_some_sorted:
  "sorted xs \<Longrightarrow> k \<in> set xs \<Longrightarrow> f k \<noteq> None \<Longrightarrow> \<exists>j\<in>set xs. j \<le> k \<and> f j = first_some f xs \<and> f j \<noteq> None"
  by (induction xs) (auto split: option.splits)

lemma strip_zeros_value:
  "0 < c \<Longrightarrow> 0 \<le> x \<Longrightarrow> strip_zeros c x = (c', x') \<Longrightarrow> 0 \<le> x' \<and> 0 < c' \<and> c' * 10 ^ nat x' = c * 10 ^ nat x"
proof (induction c x rule: strip_zeros.induct)
  case (1 c x)
  show ?case
  proof (cases "c mod 10 = 0")
    case True
    then obtain d where d: "c = 10 * d" by (auto elim: dvdE simp: mod_eq_0_iff_dvd)
    have "strip_zeros d (x + 1) = (c', x')"
      using 1(4) 1(2) d by (simp add: strip_zeros.simps[of "10 * d"])
    then have "0 \<le> x' \<and> 0 < c' \<and> c' * 10 ^ nat x' = d * 10 ^ nat (x + 1)"
      using 1(1)[OF _] 1(2,3) d by simp
    moreover have "nat (x + 1) = Suc (nat x)" using 1(3) by simp
    ultimately show ?thesis by (simp add: d)
  next
    case False
    then show ?thesis using 1(2-4) by (simp add: strip_zeros.simps[of c])
  qed
qed

lemma small_fst: "same_value v (n, 1) \<Longrightarrow> fst v = n * snd v"
  by (simp add: same_value_def)

lemma small_reads_back:
  assumes v: "same_value v (n, 1)" "0 < snd v" and "0 \<le> x" "exact_nat (c * 10 ^ nat x)"
  shows "reads_back v c x \<longleftrightarrow> c * 10 ^ nat x = n"
proof -
  obtain f where f: "round_float (c * 10 ^ nat x) 1 = Some f" "same_value (float_value f) (c * 10 ^ nat x, 1)"
    using round_float_exact[OF assms(4)] by blast
  have "0 < snd (float_value f)" by (simp add: float_value_def split: prod.split)
  then show ?thesis
    using f v(2) assms(3)
    by (auto simp: reads_back_def decimal_value_def same_value_def small_fst[OF v(1)])
qed

text \<open>Cutting the last \<open>j\<close> of \<open>L\<close> digits off an integer, rounding down or up, gives integers that are exact.\<close>

lemma cut_digits:
  assumes n: "0 < n" "n \<le> 2 ^ 53" and j: "j < length (dec_nat n)"
  shows "n < (n div 10 ^ j + 1) * 10 ^ j" "exact_nat (n div 10 ^ j * 10 ^ j)" "j \<noteq> 0 \<Longrightarrow> exact_nat ((n div 10 ^ j + 1) * 10 ^ j)"
proof -
  let ?L = "length (dec_nat n)"
  have L: "10 ^ (?L - 1) \<le> n" "n < 10 ^ ?L" using dec_nat_length[OF n(1)] by simp_all
  have "(10 :: nat) ^ (?L - 1) < 10 ^ 16" using L(1) n(2) by simp
  then have "?L \<le> 16" by (subst (asm) power_strict_increasing_iff) auto
  then have L16: "(10 :: nat) ^ ?L \<le> 10 ^ 16" by (rule power_increasing) simp
  have split: "10 ^ ?L = 10 ^ (?L - j) * (10 :: nat) ^ j" using j by (simp flip: power_add)
  have "n div 10 ^ j < 10 ^ (?L - j)" using L(2) split by (simp add: less_mult_imp_div_less)
  then have "(n div 10 ^ j + 1) * 10 ^ j \<le> 10 ^ (?L - j) * 10 ^ j" by (intro mult_right_mono) simp_all
  then have "(n div 10 ^ j + 1) * 10 ^ j \<le> 10 ^ 16" using split L16 by simp
  then show "j \<noteq> 0 \<Longrightarrow> exact_nat ((n div 10 ^ j + 1) * 10 ^ j)" by (simp add: exact_nat_def)
  have "n mod 10 ^ j < 10 ^ j" by simp
  moreover have "n = n div 10 ^ j * 10 ^ j + n mod 10 ^ j" by (rule div_mult_mod_eq[symmetric])
  ultimately show "n < (n div 10 ^ j + 1) * 10 ^ j" by (metis add_mult_distrib mult_1 nat_add_left_cancel_less)
  have "n div 10 ^ j * 10 ^ j \<le> n" by simp
  then have "n div 10 ^ j * 10 ^ j = 2 ^ 53 \<or> n div 10 ^ j * 10 ^ j < 2 ^ 53" using n(2) by linarith
  then show "exact_nat (n div 10 ^ j * 10 ^ j)" by (auto simp: exact_nat_def)
qed

lemma small_candidate:
  assumes n: "0 < n" "n \<le> 2 ^ 53" and v: "same_value v (n, 1)" "0 < snd v"
    and k: "1 \<le> k" "k \<le> length (dec_nat n)"
  shows "digits_candidate v k =
    (let x = int (length (dec_nat n)) - int k
     in if 10 ^ nat x dvd n then Some (n div 10 ^ nat x, x) else None)"
proof -
  let ?L = "length (dec_nat n)" and ?j = "length (dec_nat n) - k"
  have le: "leading_exponent (fst v) (snd v) = int ?L - 1"
    using n(1) v(2) by (simp add: leading_exponent_def small_fst[OF v(1)])
  have x: "leading_exponent (fst v) (snd v) + 1 - int k = int ?j" using k le by simp
  have j: "?j < length (dec_nat n)" using k by simp
  note cut = cut_digits[OF n j]
  have down: "reads_back v (n div 10 ^ ?j) (int ?j) \<longleftrightarrow> 10 ^ ?j dvd n"
    using small_reads_back[OF v, of "int ?j" "n div 10 ^ ?j"] cut(2) by (simp add: dvd_eq_mod_eq_0)
      (metis add.right_neutral div_mult_mod_eq add_left_cancel)
  have up: "?j \<noteq> 0 \<Longrightarrow> \<not> reads_back v (n div 10 ^ ?j + 1) (int ?j)"
    using small_reads_back[OF v, of "int ?j" "n div 10 ^ ?j + 1", unfolded nat_int] cut(1,3)
    by (metis less_irrefl of_nat_0_le_iff)
  have dm: "n * snd v div (snd v * 10 ^ ?j) = n div 10 ^ ?j"
    using v(2) by (simp add: mult.commute)
  show ?thesis
  proof (cases "?j = 0")
    case True
    then show ?thesis
      using k x down dm by (simp add: digits_candidate_def Let_def scale10_def small_fst[OF v(1)])
  next
    case False
    then show ?thesis
      using k x down up[OF False]
      by (simp add: digits_candidate_def Let_def scale10_def small_fst[OF v(1)] dm nat_diff_distrib of_nat_diff)
  qed
qed

lemma small_shortest:
  assumes n: "0 < n" "n \<le> 2 ^ 53" and v: "same_value v (n, 1)" "0 < snd v"
  shows "\<exists>c x. shortest v = (c, x) \<and> 0 \<le> x \<and> 0 < c \<and> c * 10 ^ nat x = n"
proof -
  let ?L = "length (dec_nat n)"
  have L: "0 < ?L" "10 ^ (?L - 1) \<le> n" using dec_nat_length[OF n(1)] by simp_all
  have "(10 :: nat) ^ (?L - 1) < 10 ^ 16" using L(2) n(2) by simp
  then have "?L \<le> 16" by (subst (asm) power_strict_increasing_iff) auto
  then have "?L \<in> set [1..<18]" using L(1) by (auto simp: Suc_le_eq)
  moreover have "digits_candidate v ?L \<noteq> None" using small_candidate[OF n v, of ?L] L(1) by (simp add: Suc_le_eq)
  ultimately have "\<exists>j\<in>set [1..<18]. j \<le> ?L \<and> digits_candidate v j = first_some (digits_candidate v) [1..<18] \<and>
      digits_candidate v j \<noteq> None"
    by (intro first_some_sorted) simp_all
  then obtain j where "j \<in> set [1..<18]"
      and j: "j \<le> ?L" "digits_candidate v j = first_some (digits_candidate v) [1..<18]"
      "digits_candidate v j \<noteq> None"
    by blast
  then have "1 \<le> j" by simp
  with j have dvd: "10 ^ nat (int ?L - int j) dvd n"
    and s: "first_some (digits_candidate v) [1..<18] =
      Some (n div 10 ^ nat (int ?L - int j), int ?L - int j)"
    using small_candidate[OF n v, of j] by (auto simp: Let_def split: if_splits)
  obtain c x where cx: "strip_zeros (n div 10 ^ nat (int ?L - int j)) (int ?L - int j) = (c, x)" by fastforce
  have "0 < n div 10 ^ nat (int ?L - int j)" using dvd n(1) by (simp add: dvd_imp_le div_greater_zero_iff)
  then have "0 \<le> x \<and> 0 < c \<and> c * 10 ^ nat x = n"
    using strip_zeros_value[OF _ _ cx] j(1) dvd by simp
  then show ?thesis using s cx by (simp add: shortest_def)
qed

lemma span_literal:
  "literal_parts (dec_int i) = (i < 0, nat \<bar>i\<bar>, 0)"
proof -
  have minus: "take 1 (dec_nat m) \<noteq> ''-''" for m
    using dec_nat_digits[of m] by (cases "dec_nat m") (auto simp: is_digit_def)
  have span: "takeWhile is_digit (dec_nat m) = dec_nat m" "dropWhile is_digit (dec_nat m) = []" for m
    using span_all[of "dec_nat m"] dec_nat_digits[of m] by simp_all
  show ?thesis
    using minus[of "nat i"]
    by (cases "i < 0") (simp_all add: literal_parts_def dec_int_def span digits_value_dec)
qed

lemma small_integer_exact:
  assumes "\<bar>i\<bar> \<le> 2 ^ 53"
  shows "\<exists>f. ParseFloat (dec_int i) = Some f \<and> format_float f = dec_int i"
proof -
  let ?n = "nat \<bar>i\<bar>"
  have "?n \<le> 2 ^ 53" using assms by simp
  then have "exact_nat ?n" by (rule exact_nat_le)
  then obtain m e where f: "round_float ?n 1 = Some (m, e)" "same_value (float_value (m, e)) (?n, 1)" "m = 0 \<longleftrightarrow> ?n = 0"
    using round_float_exact[OF \<open>exact_nat ?n\<close>] by auto
  have parse: "ParseFloat (dec_int i) = Some (Float (i < 0) m e)"
    using f(1) by (simp add: ParseFloat_def span_literal)
  have "format_float (Float (i < 0) m e) = dec_int i"
  proof (cases "i = 0")
    case True
    then show ?thesis using f(3) by (simp add: format_float_def dec_int_def dec_nat.simps[of 0] char_of_def bit_0)
  next
    case False
    define v where "v = float_value (m, e)"
    have v: "same_value v (?n, 1)" "0 < snd v"
      using f(2) by (simp_all add: v_def float_value_def)
    obtain c x where cx: "shortest v = (c, x)" "0 \<le> x" "0 < c" "c * 10 ^ nat x = ?n"
      using small_shortest[OF _ \<open>?n \<le> 2 ^ 53\<close> v] False by auto
    have bounds: "a = b \<Longrightarrow> s \<le> b \<Longrightarrow> b < c \<Longrightarrow> \<not> a * 10 ^ 6 < s \<and> \<not> c \<le> a" for a b c s :: nat
      by simp
    have "fst v = ?n * snd v" using v(1) by (simp add: same_value_def)
    moreover have "snd v \<le> ?n * snd v" using False v(2) by simp
    moreover have "?n * snd v < 10 ^ 21 * snd v" using \<open>?n \<le> 2 ^ 53\<close> v(2) by simp
    ultimately have "\<not> fst v * 10 ^ 6 < snd v \<and> \<not> 10 ^ 21 * snd v \<le> fst v"
      using bounds[of "fst v" "?n * snd v" "snd v" "10 ^ 21 * snd v"] by blast
    then have "format_float (Float (i < 0) m e) = (if i < 0 then ''-'' else []) @ format_f c x"
      using f(3) False cx(1) by (simp add: format_float_def v_def[symmetric])
    also have "format_f c x = dec_nat ?n"
      using cx(2,3) by (simp add: format_f_def dec_nat_times10 flip: cx(4))
    finally show ?thesis by (simp add: dec_int_def)
  qed
  with parse show ?thesis by blast
qed

end
