(* ===== verification/Interface_Value.thy ===== *)
theory Interface_Value
  imports Float64 "HOL-Library.List_Lexorder" "HOL-Library.Char_ord"
begin

text \<open>
  The values an \<^verbatim>\<open>interface{}\<close> holds after \<^verbatim>\<open>json.Unmarshal\<close>, and how \<^verbatim>\<open>json.Marshal\<close> prints them
  again. Objects become maps, so of two members with one name the later one wins, and they are printed in the
  order of their names' bytes; numbers become doubles.
\<close>

datatype any =
    ANil
  | ABool bool
  | ANum float64
  | AStr string
  | AArr "any list"
  | AObj "(string \<times> any) list"

fun any_of :: "json \<Rightarrow> any option" where
  "any_of JNull = Some ANil"
| "any_of (JBool b) = Some (ABool b)"
| "any_of (JNum n) = map_option ANum (ParseFloat n)"
| "any_of (JStr s) = Some (AStr s)"
| "any_of (JArr js) = map_option AArr (those (map any_of js))"
| "any_of (JObj kjs) =
     map_option (\<lambda>kvs. AObj (fold (\<lambda>(k, v). AList.update k v) kvs []))
       (those (map (\<lambda>kj. map_option (Pair (fst kj)) (any_of (snd kj))) kjs))"

fun json_of :: "any \<Rightarrow> json" where
  "json_of ANil = JNull"
| "json_of (ABool b) = JBool b"
| "json_of (ANum f) = JNum (format_float f)"
| "json_of (AStr s) = JStr s"
| "json_of (AArr vs) = JArr (map json_of vs)"
| "json_of (AObj kvs) = JObj (sort_key fst (map (\<lambda>kv. (fst kv, json_of (snd kv))) kvs))"

text \<open>\<^verbatim>\<open>json.Marshal\<close> of such a value and \<^verbatim>\<open>json.Unmarshal\<close> of the text into a destination.\<close>

definition recode :: "('a \<Rightarrow> json \<Rightarrow> 'a option) \<Rightarrow> 'a \<Rightarrow> any \<Rightarrow> 'a option" where
  "recode decode zero v = Option.bind (parse_json (print_json (json_of v))) (decode zero)"

lemma recode_printable:
  "printable (json_of v) \<Longrightarrow> fits 0 (json_of v) \<Longrightarrow> recode decode zero v = decode zero (json_of v)"
  by (simp add: recode_def parse_print_json)

lemma number_survives:
  assumes "\<bar>i\<bar> \<le> 2 ^ 53"
  shows "Option.bind (any_of (JNum (dec_int i))) (Some \<circ> json_of) = Some (JNum (dec_int i))"
  using small_integer_exact[OF assms] by auto

end
