(* ===== verification/Models.thy ===== *)
theory Models
  imports Shapes Chunk Interface_Value
begin

text \<open>
  \<^verbatim>\<open>gateway/models.go\<close>: the messages between client and server, with the decoding of the commands from
  JSON. The payload of an outgoing message is one of the values the code puts there.
\<close>

section \<open>Messages\<close>

datatype IncomingMessage = IncomingMessage (inType: string) (inPayload: any)

datatype SpawnCommand = SpawnCommand (spawnX: i64) (spawnY: i64)

datatype PlaceShapeCommand = PlaceShapeCommand (shapeX: i64) (shapeY: i64) (shapeName: string)

text \<open>The slices of the two commands below keep their backing arrays while they are decoded.\<close>

datatype PlaceCustomCommand = PlaceCustomCommand (customX: i64) (customY: i64) (customCells: "CellOffset slice")

datatype ChunkRef = ChunkRef (refX: i64) (refY: i64)

datatype SubscribeCommand = SubscribeCommand (subChunks: "ChunkRef slice")

datatype ErrorPayload = ErrorPayload (errCode: string) (errMessage: string)

datatype ChunkStatePayload = ChunkStatePayload (stateX: i64) (stateY: i64) (stateCells: "u16 list")

datatype Payload =
    OfSpawn SpawnCommand
  | OfPlaceShape PlaceShapeCommand
  | OfPlaceCustom PlaceCustomCommand
  | OfChunkState ChunkStatePayload
  | OfError ErrorPayload

datatype OutgoingMessage = OutgoingMessage (outType: string) (outPayload: Payload)

section \<open>Decoding\<close>

text \<open>What arrives in the interface is decoded anew, whatever it held; the zero value is an empty type and nil.\<close>

definition decode_IncomingMessage :: "IncomingMessage \<Rightarrow> json \<Rightarrow> IncomingMessage option" where
  "decode_IncomingMessage = decode_struct
     [(''type'', \<lambda>m j. map_option (\<lambda>v. IncomingMessage v (inPayload m)) (decode_string (inType m) j)),
      (''payload'', \<lambda>m j. map_option (IncomingMessage (inType m)) (any_of j))]"

definition decode_SpawnCommand :: "SpawnCommand \<Rightarrow> json \<Rightarrow> SpawnCommand option" where
  "decode_SpawnCommand = decode_struct
     [(''x'', \<lambda>c j. map_option (\<lambda>v. SpawnCommand v (spawnY c)) (decode_int64 (spawnX c) j)),
      (''y'', \<lambda>c j. map_option (\<lambda>v. SpawnCommand (spawnX c) v) (decode_int64 (spawnY c) j))]"

definition decode_PlaceShapeCommand :: "PlaceShapeCommand \<Rightarrow> json \<Rightarrow> PlaceShapeCommand option" where
  "decode_PlaceShapeCommand = decode_struct
     [(''x'', \<lambda>c j. map_option (\<lambda>v. PlaceShapeCommand v (shapeY c) (shapeName c)) (decode_int64 (shapeX c) j)),
      (''y'', \<lambda>c j. map_option (\<lambda>v. PlaceShapeCommand (shapeX c) v (shapeName c)) (decode_int64 (shapeY c) j)),
      (''shape'', \<lambda>c j. map_option (\<lambda>v. PlaceShapeCommand (shapeX c) (shapeY c) v) (decode_string (shapeName c) j))]"

definition decode_CellOffset :: "CellOffset \<Rightarrow> json \<Rightarrow> CellOffset option" where
  "decode_CellOffset = decode_struct
     [(''x'', \<lambda>c j. map_option (\<lambda>v. CellOffset v (cellY c)) (decode_int64 (cellX c) j)),
      (''y'', \<lambda>c j. map_option (\<lambda>v. CellOffset (cellX c) v) (decode_int64 (cellY c) j))]"

definition decode_PlaceCustomCommand :: "PlaceCustomCommand \<Rightarrow> json \<Rightarrow> PlaceCustomCommand option" where
  "decode_PlaceCustomCommand = decode_struct
     [(''x'', \<lambda>c j. map_option (\<lambda>v. PlaceCustomCommand v (customY c) (customCells c)) (decode_int64 (customX c) j)),
      (''y'', \<lambda>c j. map_option (\<lambda>v. PlaceCustomCommand (customX c) v (customCells c)) (decode_int64 (customY c) j)),
      (''cells'', \<lambda>c j. map_option (\<lambda>v. PlaceCustomCommand (customX c) (customY c) v)
         (decode_slice (CellOffset 0 0) decode_CellOffset (customCells c) j))]"

definition decode_ChunkRef :: "ChunkRef \<Rightarrow> json \<Rightarrow> ChunkRef option" where
  "decode_ChunkRef = decode_struct
     [(''x'', \<lambda>c j. map_option (\<lambda>v. ChunkRef v (refY c)) (decode_int64 (refX c) j)),
      (''y'', \<lambda>c j. map_option (\<lambda>v. ChunkRef (refX c) v) (decode_int64 (refY c) j))]"

definition decode_SubscribeCommand :: "SubscribeCommand \<Rightarrow> json \<Rightarrow> SubscribeCommand option" where
  "decode_SubscribeCommand = decode_struct
     [(''chunks'', \<lambda>c j. map_option SubscribeCommand (decode_slice (ChunkRef 0 0) decode_ChunkRef (subChunks c) j))]"

end
