(* ===== verification/PubSub.thy ===== *)
theory PubSub
  imports Models Metrics Commuting
begin

text \<open>
  \<^verbatim>\<open>gateway/pubsub.go\<close>: which client watches which chunk, and the delivery of chunk states. A client is
  its address; the Go set of clients is a list without duplicates and the map an association list,
  whose iteration order is a parameter where the code iterates. Writing to a connection is a
  parameter of the model: it may fail, and acts on a network state \<open>'n\<close>.
\<close>

type_synonym client = nat  \<comment> \<open>\<^verbatim>\<open>*Client\<close>\<close>

type_synonym 'n writer = "client \<Rightarrow> OutgoingMessage \<Rightarrow> 'n \<Rightarrow> 'n \<times> string option"  \<comment> \<open>\<^verbatim>\<open>Client.WriteJSON\<close>\<close>

record PubSub =
  subscribers :: "(ChunkID \<times> client list) list"
  pubsub_m :: "Metrics option"

definition NewPubSub :: "Metrics option \<Rightarrow> PubSub" where
  "NewPubSub m = \<lparr>subscribers = [], pubsub_m = m\<rparr>"

text \<open>Reading a missing key of the map gives the nil set.\<close>

definition subs_of :: "PubSub \<Rightarrow> ChunkID \<Rightarrow> client list" where
  "subs_of ps i = (case map_of (subscribers ps) i of None \<Rightarrow> [] | Some s \<Rightarrow> s)"

definition Subscribe :: "ChunkID \<Rightarrow> client \<Rightarrow> PubSub \<Rightarrow> PubSub" where
  "Subscribe i c ps = ps\<lparr>subscribers := AList.update i (List.insert c (subs_of ps i)) (subscribers ps)\<rparr>"

text \<open>\<^verbatim>\<open>delete(subs, client)\<close> acts on the set the map holds; an emptied set is dropped from the map.\<close>

definition remove_client :: "client \<Rightarrow> ChunkID \<Rightarrow> PubSub \<Rightarrow> PubSub" where
  "remove_client c i ps =
     (case map_of (subscribers ps) i of
        None \<Rightarrow> ps
      | Some subs \<Rightarrow>
          let subs' = removeAll c subs
          in ps\<lparr>subscribers := (if subs' = [] then AList.delete i (subscribers ps)
                               else AList.update i subs' (subscribers ps))\<rparr>)"

definition Unsubscribe :: "ChunkID \<Rightarrow> client \<Rightarrow> PubSub \<Rightarrow> PubSub" where
  "Unsubscribe i c ps = remove_client c i ps"

definition UnsubscribeAll :: "client \<Rightarrow> PubSub \<Rightarrow> PubSub" where
  "UnsubscribeAll c ps = fold (remove_client c) (map fst (subscribers ps)) ps"

definition HasSubscribers :: "ChunkID \<Rightarrow> PubSub \<Rightarrow> bool" where
  "HasSubscribers i ps \<longleftrightarrow> length (subs_of ps i) > 0"

text \<open>One delivery of \<open>Broadcast\<close>; a failed write is counted.\<close>

definition deliver :: "'n writer \<Rightarrow> OutgoingMessage \<Rightarrow> client \<Rightarrow> PubSub \<times> 'n \<Rightarrow> PubSub \<times> 'n" where
  "deliver WriteJSON msg c s =
     (case s of (ps, n) \<Rightarrow>
       (case WriteJSON c msg n of
          (n', None) \<Rightarrow> (ps, n')
        | (n', Some err) \<Rightarrow> (ps\<lparr>pubsub_m := map_option WebSocketDropped_Inc (pubsub_m ps)\<rparr>, n')))"

definition Broadcast ::
  "'n writer \<Rightarrow> (client list \<Rightarrow> client list) \<Rightarrow> ChunkID \<Rightarrow> u16 list \<Rightarrow> PubSub \<times> 'n \<Rightarrow> PubSub \<times> 'n" where
  "Broadcast WriteJSON order i cells s =
     (let clients = order (subs_of (fst s) i)
      in if length clients = 0 then s
         else fold (deliver WriteJSON
                      (OutgoingMessage ''CHUNK_STATE'' (OfChunkState (ChunkStatePayload (idX i) (idY i) cells))))
                clients s)"

section \<open>Invariant and abstraction\<close>

definition pubsub_wf :: "PubSub \<Rightarrow> bool" where
  "pubsub_wf ps \<longleftrightarrow> distinct (map fst (subscribers ps)) \<and>
     (\<forall>e\<in>set (subscribers ps). snd e \<noteq> [] \<and> distinct (snd e))"

definition watching :: "PubSub \<Rightarrow> (ChunkID \<times> client) set" where
  "watching ps = {(i, c). c \<in> set (subs_of ps i)}"

lemma watching_iff: "(i, c) \<in> watching ps \<longleftrightarrow> c \<in> set (subs_of ps i)"
  by (simp add: watching_def)

lemma pubsub_wf_subs:
  assumes "pubsub_wf ps"
  shows "distinct (subs_of ps i)" "map_of (subscribers ps) i = Some s \<Longrightarrow> s \<noteq> [] \<and> distinct s"
  using assms by (auto simp: pubsub_wf_def subs_of_def split: option.splits dest: map_of_SomeD)

lemma subs_of_update [simp]:
  "subs_of (ps\<lparr>subscribers := AList.update i s (subscribers ps)\<rparr>) j = (if j = i then s else subs_of ps j)"
  by (simp add: subs_of_def update_conv)

lemma subs_of_delete [simp]:
  "subs_of (ps\<lparr>subscribers := AList.delete i (subscribers ps)\<rparr>) j = (if j = i then [] else subs_of ps j)"
  by (simp add: subs_of_def delete_conv)

lemma set_update_subset: "set (AList.update k v al) \<subseteq> insert (k, v) (set al)"
  by (induction al) auto

lemma wf_Subscribe: "pubsub_wf ps \<Longrightarrow> pubsub_wf (Subscribe i c ps)"
  using set_update_subset[of i "List.insert c (subs_of ps i)" "subscribers ps"] pubsub_wf_subs(1)[of ps i]
  by (auto simp: pubsub_wf_def Subscribe_def distinct_update List.insert_def)

lemma wf_remove_client: "pubsub_wf ps \<Longrightarrow> pubsub_wf (remove_client c i ps)"
proof (cases "map_of (subscribers ps) i")
  case (Some s)
  assume wf: "pubsub_wf ps"
  have "set (AList.delete i (subscribers ps)) \<subseteq> set (subscribers ps)" by (auto simp: AList.delete_eq)
  then show ?thesis
    using wf Some set_update_subset[of i "removeAll c s" "subscribers ps"] pubsub_wf_subs(2)[OF wf Some]
    by (auto simp: pubsub_wf_def remove_client_def Let_def distinct_update distinct_delete distinct_removeAll)
qed (simp add: remove_client_def)

lemma subs_of_remove_client:
  "subs_of (remove_client c i ps) j = (if j = i then removeAll c (subs_of ps i) else subs_of ps j)"
proof (cases "map_of (subscribers ps) i")
  case None
  then show ?thesis by (simp add: remove_client_def subs_of_def)
next
  case (Some s)
  then have "subs_of ps i = s" by (simp add: subs_of_def)
  with Some show ?thesis by (simp add: remove_client_def Let_def)
qed

lemma fold_remove_client:
  "pubsub_wf ps \<Longrightarrow> pubsub_wf (fold (remove_client c) is ps) \<and>
     subs_of (fold (remove_client c) is ps) j = (if j \<in> set is then removeAll c (subs_of ps j) else subs_of ps j)"
  by (induction "is" arbitrary: ps) (auto simp: wf_remove_client subs_of_remove_client)

section \<open>The contract of a subscription service\<close>

datatype 'k event = Sub 'k client | Unsub 'k client | Drop client

text \<open>Whether client \<open>c\<close> watches \<open>k\<close> after a history of events, by its last relevant event.\<close>

fun wants :: "'k event list \<Rightarrow> 'k \<Rightarrow> client \<Rightarrow> bool \<Rightarrow> bool" where
  "wants [] k c b = b"
| "wants (Sub k' c' # es) k c b = wants es k c (b \<or> k' = k \<and> c' = c)"
| "wants (Unsub k' c' # es) k c b = wants es k c (b \<and> \<not> (k' = k \<and> c' = c))"
| "wants (Drop c' # es) k c b = wants es k c (b \<and> c' \<noteq> c)"

locale subscriptions =
  fixes wf :: "'s \<Rightarrow> bool"
    and sub :: "'k \<Rightarrow> client \<Rightarrow> 's \<Rightarrow> 's"
    and unsub :: "'k \<Rightarrow> client \<Rightarrow> 's \<Rightarrow> 's"
    and drop :: "client \<Rightarrow> 's \<Rightarrow> 's"
    and has :: "'k \<Rightarrow> 's \<Rightarrow> bool"
    and watchers :: "'s \<Rightarrow> ('k \<times> client) set"
  assumes wf_keep: "wf s \<Longrightarrow> wf (sub k c s) \<and> wf (unsub k c s) \<and> wf (drop c s)"
    and watchers_sub: "wf s \<Longrightarrow> watchers (sub k c s) = insert (k, c) (watchers s)"
    and watchers_unsub: "wf s \<Longrightarrow> watchers (unsub k c s) = watchers s - {(k, c)}"
    and watchers_drop: "wf s \<Longrightarrow> watchers (drop c s) = watchers s - UNIV \<times> {c}"
    and has_iff: "wf s \<Longrightarrow> has k s \<longleftrightarrow> (\<exists>c. (k, c) \<in> watchers s)"
begin

primrec apply_event :: "'k event \<Rightarrow> 's \<Rightarrow> 's" where
  "apply_event (Sub k c) s = sub k c s"
| "apply_event (Unsub k c) s = unsub k c s"
| "apply_event (Drop c) s = drop c s"

lemma wf_apply_event: "wf s \<Longrightarrow> wf (apply_event e s)"
  by (cases e) (simp_all add: wf_keep)

lemma wf_history: "wf s \<Longrightarrow> wf (fold apply_event es s)"
  by (induction es arbitrary: s) (simp_all add: wf_apply_event)

lemma watchers_history:
  "wf s \<Longrightarrow> (k, c) \<in> watchers (fold apply_event es s) \<longleftrightarrow> wants es k c ((k, c) \<in> watchers s)"
proof (induction es arbitrary: s)
  case (Cons e es)
  then have "(k, c) \<in> watchers (fold apply_event es (apply_event e s)) \<longleftrightarrow>
      wants es k c ((k, c) \<in> watchers (apply_event e s))"
    by (simp add: wf_apply_event)
  then show ?case
    using Cons.prems by (cases e) (auto simp: watchers_sub watchers_unsub watchers_drop conj_commute disj_commute
        intro!: arg_cong[where f = "wants es k c"])
qed simp

lemma dropped_client_gone: "wf s \<Longrightarrow> (k, c) \<notin> watchers (drop c s)"
  by (simp add: watchers_drop)

end

interpretation pubsub:
  subscriptions pubsub_wf Subscribe Unsubscribe UnsubscribeAll HasSubscribers watching
proof unfold_locales
  fix ps :: PubSub and i c
  assume wf: "pubsub_wf ps"
  show "pubsub_wf (Subscribe i c ps) \<and> pubsub_wf (Unsubscribe i c ps) \<and> pubsub_wf (UnsubscribeAll c ps)"
    using wf by (simp add: wf_Subscribe wf_remove_client Unsubscribe_def UnsubscribeAll_def fold_remove_client)
  show "watching (Subscribe i c ps) = insert (i, c) (watching ps)"
    by (auto simp: watching_iff Subscribe_def split: if_splits)
  show "watching (Unsubscribe i c ps) = watching ps - {(i, c)}"
    by (auto simp: watching_iff Unsubscribe_def subs_of_remove_client split: if_splits)
  have "subs_of ps j = []" if "j \<notin> set (map fst (subscribers ps))" for j
  proof -
    have "map_of (subscribers ps) j = None" using that by (simp add: map_of_eq_None_iff)
    then show ?thesis by (simp add: subs_of_def)
  qed
  then show "watching (UnsubscribeAll c ps) = watching ps - UNIV \<times> {c}"
    using fold_remove_client[OF wf, of c "map fst (subscribers ps)"]
    by (auto simp: watching_iff UnsubscribeAll_def split: if_splits)
  show "HasSubscribers i ps \<longleftrightarrow> (\<exists>c. (i, c) \<in> watching ps)"
    by (cases "subs_of ps i") (auto simp: HasSubscribers_def watching_iff)
qed


section \<open>Properties\<close>

primrec client_event :: "ChunkID event \<Rightarrow> PubSub \<Rightarrow> PubSub" where
  "client_event (Sub i c) ps = Subscribe i c ps"
| "client_event (Unsub i c) ps = Unsubscribe i c ps"
| "client_event (Drop c) ps = UnsubscribeAll c ps"

lemma client_event_is_apply_event: "client_event e ps = pubsub.apply_event e ps"
  by (cases e) simp_all

lemma pubsub_wf_NewPubSub [simp]: "pubsub_wf (NewPubSub m)" "watching (NewPubSub m) = {}"
  by (simp_all add: NewPubSub_def pubsub_wf_def watching_def subs_of_def)

text \<open>
  C29. Subscriptions: after any history of subscriptions, unsubscriptions and disconnections, a
  chunk has subscribers exactly if some client's last word on it was to subscribe; in particular a
  client that disconnected watches nothing, and no empty set stays in the map.
\<close>

theorem subscription_history:
  "HasSubscribers i (fold client_event es (NewPubSub m)) = (\<exists>c. wants es i c False) \<and>
   watching (fold client_event es (NewPubSub m)) = {(i, c). wants es i c False} \<and>
   pubsub_wf (fold client_event es (NewPubSub m)) \<and>
   (i, c) \<notin> watching (UnsubscribeAll c (fold client_event es (NewPubSub m)))"
proof -
  let ?ps = "fold client_event es (NewPubSub m)"
  have eq: "client_event = pubsub.apply_event" by (intro ext) (rule client_event_is_apply_event)
  have wf: "pubsub_wf ?ps" unfolding eq by (rule pubsub.wf_history) simp
  have w: "watching ?ps = {(i, c). wants es i c False}"
    unfolding eq using pubsub.watchers_history[of "NewPubSub m" _ _ es] by auto
  show ?thesis
    using wf w pubsub.has_iff[OF wf, of i] pubsub.dropped_client_gone[OF wf, of i c] by simp
qed

fun failed_writes :: "'n writer \<Rightarrow> OutgoingMessage \<Rightarrow> client list \<Rightarrow> 'n \<Rightarrow> nat" where
  "failed_writes WriteJSON msg [] n = 0"
| "failed_writes WriteJSON msg (c # cs) n =
     (if snd (WriteJSON c msg n) = None then 0 else 1) + failed_writes WriteJSON msg cs (fst (WriteJSON c msg n))"

definition dropped :: "PubSub \<Rightarrow> nat" where
  "dropped ps = (case pubsub_m ps of None \<Rightarrow> 0 | Some m \<Rightarrow> WebSocketDropped m)"

lemma fold_deliver:
  "snd (fold (deliver W msg) cs (ps, n)) = fold (\<lambda>c n. fst (W c msg n)) cs n \<and>
   subscribers (fst (fold (deliver W msg) cs (ps, n))) = subscribers ps \<and>
   (pubsub_m ps \<noteq> None \<longrightarrow>
      dropped (fst (fold (deliver W msg) cs (ps, n))) = dropped ps + failed_writes W msg cs n)"
proof (induction cs arbitrary: ps n)
  case (Cons c cs)
  obtain n' e where w: "W c msg n = (n', e)" by fastforce
  define ps' where "ps' = fst (deliver W msg c (ps, n))"
  have d: "deliver W msg c (ps, n) = (ps', n')" "subscribers ps' = subscribers ps"
    "pubsub_m ps \<noteq> None \<Longrightarrow> pubsub_m ps' \<noteq> None \<and> dropped ps' = dropped ps + (if e = None then 0 else 1)"
    by (cases e; auto simp: ps'_def deliver_def w dropped_def WebSocketDropped_Inc_def)+
  show ?case using Cons.IH[of ps' n'] d by (auto simp: w)
qed simp

text \<open>
  C30. \<open>Broadcast\<close> sends the new state of a chunk to each client that watches it, once each, in whatever
  order the map is iterated, and to nobody else; subscriptions stay as they are and the counter of
  dropped messages goes up by the number of failed writes.
\<close>

theorem broadcast_delivers:
  assumes "pubsub_wf ps" "mset (order (subs_of ps i)) = mset (subs_of ps i)"
    and "Broadcast W order i cells (ps, n) = (ps', n')"
  defines "msg \<equiv> OutgoingMessage ''CHUNK_STATE'' (OfChunkState (ChunkStatePayload (idX i) (idY i) cells))"
  shows "\<exists>cs. distinct cs \<and> set cs = {c. (i, c) \<in> watching ps} \<and>
     n' = fold (\<lambda>c n. fst (W c msg n)) cs n \<and> subscribers ps' = subscribers ps \<and>
     (pubsub_m ps \<noteq> None \<longrightarrow> dropped ps' = dropped ps + failed_writes W msg cs n)"
proof -
  let ?cs = "order (subs_of ps i)"
  have "distinct ?cs" using assms(2) pubsub_wf_subs(1)[OF assms(1)] by (metis mset_eq_imp_distinct_iff)
  moreover have "set ?cs = {c. (i, c) \<in> watching ps}"
    using mset_eq_setD[OF assms(2)] by (simp add: watching_iff)
  moreover have "fold (deliver W msg) ?cs (ps, n) = (ps', n')"
    using assms(3) by (simp add: Broadcast_def msg_def Let_def split: if_splits)
  ultimately show ?thesis
    using fold_deliver[of W msg ?cs ps n] by (intro exI[of _ ?cs]) simp
qed

text \<open>The writer of the witnesses: it logs what it is given, and client 9 is unreachable.\<close>

definition log_writer :: "(client \<times> OutgoingMessage) list writer" where
  "log_writer c msg n = (if c = 9 then (n, Some ''broken pipe'') else (n @ [(c, msg)], None))"

theorem broadcast_delivers_witness:
  "\<exists>cs. distinct cs \<and> set cs = {4, 9} \<and>
     (let msg = OutgoingMessage ''CHUNK_STATE'' (OfChunkState (ChunkStatePayload 1 2 [7]))
      in snd (Broadcast log_writer rev (ChunkID 1 2) [7]
               (Subscribe (ChunkID 1 2) 4 (Subscribe (ChunkID 1 2) 9 (NewPubSub (Some New))), []))
         = fold (\<lambda>c n. fst (log_writer c msg n)) cs [])"
proof -
  let ?ps = "Subscribe (ChunkID 1 2) 4 (Subscribe (ChunkID 1 2) 9 (NewPubSub (Some New)))"
  have "pubsub_wf ?ps" by (simp add: wf_Subscribe)
  moreover have "watching ?ps = {(ChunkID 1 2, 4), (ChunkID 1 2, 9)}"
    by (simp add: pubsub.watchers_sub wf_Subscribe)
  ultimately show ?thesis
    using broadcast_delivers[of ?ps rev "ChunkID 1 2" log_writer "[7]" "[]"]
    by (cases "Broadcast log_writer rev (ChunkID 1 2) [7] (?ps, [])") (auto simp: Let_def insert_commute)
qed

end
