(* ===== verification/Rate_Limits.thy ===== *)
theory Rate_Limits
  imports RateLimit
begin

text \<open>
  What the limiter promises: every call does exactly what the abstract token buckets do, the buckets
  keep within their capacities, and over any window of time no player and no crowd of players is
  granted more than a burst plus the refill of the window. A locale of budgets carries the counting
  argument; it is interpreted once for the player bucket and once for the global one.
\<close>

section \<open>Budgets\<close>

fun run_total :: "('e \<Rightarrow> 's \<Rightarrow> 's) \<Rightarrow> ('e \<Rightarrow> 's \<Rightarrow> int) \<Rightarrow> 'e list \<Rightarrow> 's \<Rightarrow> int" where
  "run_total step spent [] s = 0"
| "run_total step spent (e # es) s = spent e s + run_total step spent es (step e s)"

locale budget =
  fixes step :: "'e \<Rightarrow> 's \<Rightarrow> 's"
    and spent :: "'e \<Rightarrow> 's \<Rightarrow> int"
    and ok :: "'s \<Rightarrow> bool"
    and admissible :: "'e \<Rightarrow> bool"
    and potential :: "'s \<Rightarrow> int"
  assumes keeps: "ok s \<Longrightarrow> admissible e \<Longrightarrow> ok (step e s)"
    and pays: "ok s \<Longrightarrow> admissible e \<Longrightarrow> potential (step e s) + spent e s \<le> potential s"
    and nonneg: "ok s \<Longrightarrow> 0 \<le> potential s"
begin

lemma total_le: "ok s \<Longrightarrow> \<forall>e \<in> set es. admissible e \<Longrightarrow> run_total step spent es s \<le> potential s"
proof (induction es arbitrary: s)
  case Nil
  then show ?case by (simp add: nonneg)
next
  case (Cons e es)
  then have "run_total step spent es (step e s) \<le> potential (step e s)" by (simp add: keeps)
  with pays[of s e] Cons.prems show ?case by simp
qed

end

section \<open>Calls\<close>

datatype request = Mutate string int | Drain string int int

primrec requester :: "request \<Rightarrow> string" where
  "requester (Mutate p now) = p"
| "requester (Drain p now n) = p"

primrec request_time :: "request \<Rightarrow> int" where
  "request_time (Mutate p now) = now"
| "request_time (Drain p now n) = now"

definition drains_ok :: "request \<Rightarrow> bool" where
  "drains_ok q \<longleftrightarrow> (case q of Mutate p now \<Rightarrow> True | Drain p now n \<Rightarrow> 0 \<le> n)"

text \<open>One call of the limiter; an allowed mutation has consumed one token of the player.\<close>

primrec serve :: "'r redis \<Rightarrow> request \<Rightarrow> 'r \<Rightarrow> 'r \<times> (string + int)" where
  "serve c (Mutate p now) r =
     (case AllowMutation c p now r of
        (r', Inl e) \<Rightarrow> (r', Inl e)
      | (r', Inr allowed) \<Rightarrow> (r', Inr (if allowed then 1 else 0)))"
| "serve c (Drain p now n) r = DrainN c p now n r"

primrec serve_abs :: "request \<Rightarrow> (string \<Rightarrow> bucket) \<Rightarrow> (string \<Rightarrow> bucket) \<times> int" where
  "serve_abs (Mutate p now) B = map_prod id (\<lambda>ok. if ok then 1 else 0) (allow_abs p now B)"
| "serve_abs (Drain p now n) B = drain_abs p now n B"

definition granted_player :: "'r redis \<Rightarrow> string \<Rightarrow> request \<Rightarrow> 'r \<Rightarrow> int" where
  "granted_player c p q r =
     (if requester q = p then (case snd (serve c q r) of Inl e \<Rightarrow> 0 | Inr k \<Rightarrow> k) else 0)"

definition granted_call :: "'r redis \<Rightarrow> request \<Rightarrow> 'r \<Rightarrow> int" where
  "granted_call c q r = (case snd (serve c q r) of Inl e \<Rightarrow> 0 | Inr k \<Rightarrow> if 0 < k then 1 else 0)"

text \<open>The stored buckets lie within their capacities.\<close>

definition within :: "int \<Rightarrow> bucket \<Rightarrow> bool" where
  "within cap b \<longleftrightarrow> (case b of None \<Rightarrow> True | Some (t, l) \<Rightarrow> 0 \<le> t \<and> t \<le> cap)"

definition limits_ok :: "'r redis \<Rightarrow> 'r \<Rightarrow> bool" where
  "limits_ok c r \<longleftrightarrow> buckets_ok c r \<and> within 10000 (bucket_at c r global_key) \<and>
     (\<forall>p. within 50 (bucket_at c r (player_key p)))"

definition redis_ok :: "'r redis \<Rightarrow> bool" where
  "redis_ok c \<longleftrightarrow> redis_hash_laws c \<and> redis_eval_laws c"

lemma AllowMutation_cases:
  assumes "redis_ok c" "buckets_ok c r" and run: "AllowMutation c p now r = (r', res)"
  shows "buckets_ok c r'"
    and "(\<exists>e. res = Inl e) \<and> r' = r \<or>
      (\<exists>ok. allow_abs p now (bucket_at c r) = (bucket_at c r', ok) \<and> (res = Inr ok \<or> (\<exists>e. res = Inl e)))"
proof -
  note laws = assms(1)[unfolded redis_ok_def redis_eval_laws_def]
  define script :: "'a \<Rightarrow> 'a \<times> (string + int)"
    where "script = luaTokenBucket c global_key (player_key p) now 10000 2000 50 5"
  obtain r1 res1 where s: "script r = (r1, res1)" by fastforce
  note ref = luaTokenBucket_refines[OF conjunct1[OF laws] assms(2) s[unfolded script_def]]
  obtain ok where a: "allow_abs p now (bucket_at c r) = (bucket_at c r1, ok)"
    and res1: "res1 = Inr (if ok then 1 else 0)" using ref(1) by blast
  consider (answered) k where "Eval c script r = (r', Inr k)" "res = Inr (k = 1)"
    | (err) e where "Eval c script r = (r', Inl e)" "res = Inl e"
    using run unfolding AllowMutation_def script_def[symmetric]
    by (cases "Eval c script r"; cases "snd (Eval c script r)") auto
  then have *: "r' = r \<and> (\<exists>e. res = Inl e) \<or> r' = r1 \<and> (res = Inr ok \<or> (\<exists>e. res = Inl e))"
  proof cases
    case answered
    with laws have "script r = (r', Inr k)" by blast
    with s res1 answered show ?thesis by auto
  next
    case err
    with laws have "r' = r \<or> r' = fst (script r)" by blast
    with s err show ?thesis by auto
  qed
  show "buckets_ok c r'" using * ref(2) assms(2) by auto
  show "(\<exists>e. res = Inl e) \<and> r' = r \<or>
      (\<exists>ok. allow_abs p now (bucket_at c r) = (bucket_at c r', ok) \<and> (res = Inr ok \<or> (\<exists>e. res = Inl e)))"
    using * a by auto
qed

lemma DrainN_cases:
  assumes "redis_ok c" "buckets_ok c r" and run: "DrainN c p now n r = (r', res)"
  shows "buckets_ok c r'"
    and "(\<exists>e. res = Inl e) \<and> r' = r \<or>
      (\<exists>k. drain_abs p now n (bucket_at c r) = (bucket_at c r', k) \<and> (res = Inr k \<or> (\<exists>e. res = Inl e)))"
proof -
  note laws = assms(1)[unfolded redis_ok_def redis_eval_laws_def]
  define script :: "'a \<Rightarrow> 'a \<times> (string + int)"
    where "script = luaDrainN c global_key (player_key p) now 10000 2000 50 5 n"
  obtain r1 res1 where s: "script r = (r1, res1)" by fastforce
  note ref = luaDrainN_refines[OF conjunct1[OF laws] assms(2) s[unfolded script_def]]
  obtain k where a: "drain_abs p now n (bucket_at c r) = (bucket_at c r1, k)" and res1: "res1 = Inr k"
    using ref(1) by blast
  have e: "Eval c script r = (r', res)" using run by (simp add: DrainN_def script_def)
  have *: "r' = r \<and> (\<exists>e. res = Inl e) \<or> r' = r1 \<and> (res = Inr k \<or> (\<exists>e. res = Inl e))"
  proof (cases res)
    case (Inl x)
    with laws e have "r' = r \<or> r' = fst (script r)" by blast
    with s Inl show ?thesis by auto
  next
    case (Inr y)
    with laws e have "script r = (r', Inr y)" by blast
    with s res1 Inr show ?thesis by auto
  qed
  show "buckets_ok c r'" using * ref(2) assms(2) by auto
  show "(\<exists>e. res = Inl e) \<and> r' = r \<or>
      (\<exists>k. drain_abs p now n (bucket_at c r) = (bucket_at c r', k) \<and> (res = Inr k \<or> (\<exists>e. res = Inl e)))"
    using * a by auto
qed

lemma serve_cases:
  assumes "redis_ok c" "buckets_ok c r" and run: "serve c q r = (r', res)"
  shows "buckets_ok c r'"
    and "(\<exists>e. res = Inl e) \<and> r' = r \<or>
      (\<exists>k. serve_abs q (bucket_at c r) = (bucket_at c r', k) \<and> (res = Inr k \<or> (\<exists>e. res = Inl e)))"
proof -
  show "buckets_ok c r'"
    using run AllowMutation_cases(1)[OF assms(1,2)] DrainN_cases(1)[OF assms(1,2)]
    by (cases q) (auto split: prod.splits sum.splits)
  show "(\<exists>e. res = Inl e) \<and> r' = r \<or>
      (\<exists>k. serve_abs q (bucket_at c r) = (bucket_at c r', k) \<and> (res = Inr k \<or> (\<exists>e. res = Inl e)))"
  proof (cases q)
    case (Mutate p now)
    obtain res1 where "AllowMutation c p now r = (r', res1)"
      and "res = map_sum id (\<lambda>ok. if ok then 1 else 0) res1"
      using run Mutate by (auto split: prod.splits sum.splits)
    then show ?thesis using AllowMutation_cases(2)[OF assms(1,2), of p now r' res1] Mutate by auto
  next
    case (Drain p now n)
    then show ?thesis using run DrainN_cases(2)[OF assms(1,2), of p now n r' res] by simp
  qed
qed


section \<open>Refilling\<close>

text \<open>What a bucket can still grant up to the end \<open>T1\<close> of a window that starts at \<open>T0\<close>.\<close>

definition worth :: "int \<Rightarrow> int \<Rightarrow> int \<Rightarrow> int \<Rightarrow> bucket \<Rightarrow> int" where
  "worth cap rate T0 T1 b =
     (case b of
        None \<Rightarrow> cap + rate * (T1 - T0)
      | Some (t, l) \<Rightarrow> min cap (t + rate * max 0 (T0 - l)) + rate * max 0 (T1 - max l T0))"

lemma refill_within:
  assumes "within cap b" "0 \<le> rate" "0 \<le> cap" "refill cap rate now b = (t, l)"
  shows "0 \<le> t" "t \<le> cap"
  using assms by (auto simp: refill_def within_def split: option.splits)

lemma worth_nonneg:
  assumes "within cap b" "0 \<le> rate" "0 \<le> cap" "T0 \<le> T1"
  shows "0 \<le> worth cap rate T0 T1 b"
  using assms by (auto simp: worth_def within_def split: option.splits)

lemma refill_worth:
  assumes "within cap b" "0 < rate" "0 \<le> cap" "T0 \<le> now" "now \<le> T1" "refill cap rate now b = (t, l)"
  shows "t - d + rate * max 0 (T1 - l) + d \<le> worth cap rate T0 T1 b" "T0 \<le> l"
proof -
  have scale: "rate * x + rate * y = rate * (x + y)" for x y by (simp add: distrib_left)
  have mono: "x \<le> y \<Longrightarrow> rate * x \<le> rate * y" for x y using assms(2) by simp
  have "t + rate * max 0 (T1 - l) \<le> worth cap rate T0 T1 b \<and> T0 \<le> l"
  proof (cases b)
    case None
    then show ?thesis using assms mono[of "T1 - now" "T1 - T0"] by (simp add: refill_def worth_def)
  next
    case (Some tl)
    obtain t0 l0 where b: "b = Some (t0, l0)" using Some by (cases tl) auto
    show ?thesis
    proof (cases "l0 < now")
      case True
      then have "0 < (now - l0) * rate" using assms(2) by simp
      then have tl: "t = min cap (t0 + rate * (now - l0))" "l = now"
        using assms(6) True by (auto simp: b refill_def mult.commute)
      show ?thesis
      proof (cases "l0 \<le> T0")
        case True
        then show ?thesis
          using assms tl scale[of "now - T0" "T1 - now"] scale[of "T0 - l0" "now - T0"]
          by (simp add: b worth_def min_def split: if_splits) (use mono[of 0 "now - T0"] in linarith)
      next
        case False
        then show ?thesis
          using assms tl scale[of "now - l0" "T1 - now"] \<open>l0 < now\<close>
          by (auto simp: b worth_def within_def min_def max_def split: if_splits)
      qed
    next
      case False
      then have "t = t0" "l = l0" using assms(1,6) by (auto simp: b refill_def within_def)
      with False assms show ?thesis by (simp add: b worth_def within_def)
    qed
  qed
  then show "t - d + rate * max 0 (T1 - l) + d \<le> worth cap rate T0 T1 b" "T0 \<le> l" by simp_all
qed

lemma worth_take:
  assumes "0 \<le> t" "t \<le> cap" "T0 \<le> l" "0 \<le> k"
  shows "worth cap rate T0 T1 (Some (t - k, l)) = t - k + rate * max 0 (T1 - l)"
  using assms by (simp add: worth_def)

lemma refill_take:
  assumes "within cap b" "0 < rate" "0 \<le> cap" "T0 \<le> now" "now \<le> T1" "refill cap rate now b = (t, l)"
    and "0 \<le> k"
  shows "worth cap rate T0 T1 (Some (t - k, l)) + k \<le> worth cap rate T0 T1 b"
  using worth_take[OF refill_within[OF assms(1) less_imp_le[OF assms(2)] assms(3,6)]
      refill_worth(2)[OF assms(1-6)] assms(7)] refill_worth(1)[OF assms(1-6), of k]
  by simp


section \<open>One call against the budgets\<close>

text \<open>A call either leaves the buckets alone and grants nothing, or acts as the abstract call and grants at most what it answers.\<close>

lemma serve_effect:
  assumes "redis_ok c" "buckets_ok c r"
  shows "buckets_ok c (fst (serve c q r))"
    and "bucket_at c (fst (serve c q r)) = bucket_at c r \<and>
           granted_player c p q r = 0 \<and> granted_call c q r = 0 \<or>
         (\<exists>B k. serve_abs q (bucket_at c r) = (B, k) \<and> bucket_at c (fst (serve c q r)) = B \<and>
            granted_player c p q r \<in> {0, if requester q = p then k else 0} \<and>
            granted_call c q r \<in> {0, if 0 < k then 1 else 0})"
proof -
  obtain r' res where s: "serve c q r = (r', res)" by fastforce
  note * = serve_cases[OF assms s]
  show "buckets_ok c (fst (serve c q r))" using *(1) s by simp
  show "bucket_at c (fst (serve c q r)) = bucket_at c r \<and>
           granted_player c p q r = 0 \<and> granted_call c q r = 0 \<or>
         (\<exists>B k. serve_abs q (bucket_at c r) = (B, k) \<and> bucket_at c (fst (serve c q r)) = B \<and>
            granted_player c p q r \<in> {0, if requester q = p then k else 0} \<and>
            granted_call c q r \<in> {0, if 0 < k then 1 else 0})"
  proof -
    consider (failed) e where "res = Inl e" "r' = r"
      | (lost) k e where "serve_abs q (bucket_at c r) = (bucket_at c r', k)" "res = Inl e"
      | (answered) k where "serve_abs q (bucket_at c r) = (bucket_at c r', k)" "res = Inr k"
      using *(2) by blast
    then show ?thesis
      by cases (simp_all add: s granted_player_def granted_call_def)
  qed
qed

definition table_ok :: "(string \<Rightarrow> bucket) \<Rightarrow> bool" where
  "table_ok B \<longleftrightarrow> within 10000 (B global_key) \<and> (\<forall>p. within 50 (B (player_key p)))"

text \<open>A call in terms of the two refilled buckets: both requests write the same entries.\<close>

lemma serve_abs_eq:
  assumes "refill 10000 2000 (request_time q) (B global_key) = (gt, gl)"
    and "refill 50 5 (request_time q) (B (player_key (requester q))) = (pt, pl)"
    and "drains_ok q" "0 \<le> pt" "serve_abs q B = (B', k)"
  shows "B' = B \<and> k = 0 \<or> B' = B(global_key := Some (gt, gl)) \<and> k = 0 \<or>
    (1 \<le> gt \<and> 0 \<le> k \<and> k \<le> pt \<and>
     B' = B(global_key := Some (gt - 1, gl), player_key (requester q) := Some (pt - k, pl)))"
  using assms by (cases q) (auto simp: allow_abs_def drain_abs_def drains_ok_def split: if_splits)

lemma serve_abs_ok:
  assumes "table_ok B" "drains_ok q" "serve_abs q B = (B', k)"
  shows "table_ok B'" "0 \<le> k"
proof -
  obtain gt gl where g: "refill 10000 2000 (request_time q) (B global_key) = (gt, gl)" by fastforce
  obtain pt pl where p: "refill 50 5 (request_time q) (B (player_key (requester q))) = (pt, pl)" by fastforce
  have b: "0 \<le> gt" "gt \<le> 10000" "0 \<le> pt" "pt \<le> 50"
    using refill_within[OF _ _ _ g] refill_within[OF _ _ _ p] assms(1) by (simp_all add: table_ok_def)
  note eq = serve_abs_eq[OF g p assms(2) b(3) assms(3)]
  show "0 \<le> k" using eq by linarith
  show "table_ok B'" using eq assms(1) b by (auto simp: table_ok_def within_def)
qed

lemma serve_abs_worth:
  assumes "table_ok B" "drains_ok q" "T0 \<le> request_time q" "request_time q \<le> T1"
    and run: "serve_abs q B = (B', k)"
  shows "worth 50 5 T0 T1 (B' (player_key p)) + (if requester q = p then k else 0)
           \<le> worth 50 5 T0 T1 (B (player_key p))"
    and "worth 10000 2000 T0 T1 (B' global_key) + (if 0 < k then 1 else 0) \<le> worth 10000 2000 T0 T1 (B global_key)"
proof -
  obtain gt gl where g: "refill 10000 2000 (request_time q) (B global_key) = (gt, gl)" by fastforce
  obtain pt pl where p: "refill 50 5 (request_time q) (B (player_key (requester q))) = (pt, pl)" by fastforce
  have w: "within 10000 (B global_key)" "within 50 (B (player_key (requester q)))"
    using assms(1) by (simp_all add: table_ok_def)
  have pt: "0 \<le> pt" using refill_within(1)[OF w(2) _ _ p] by simp
  note eq = serve_abs_eq[OF g p assms(2) pt run]
  have gw: "0 \<le> j \<Longrightarrow> worth 10000 2000 T0 T1 (Some (gt - j, gl)) + j \<le> worth 10000 2000 T0 T1 (B global_key)" for j
    by (rule refill_take[OF w(1) _ _ assms(3,4) g]) simp_all
  have pw: "0 \<le> j \<Longrightarrow> worth 50 5 T0 T1 (Some (pt - j, pl)) + j
      \<le> worth 50 5 T0 T1 (B (player_key (requester q)))" for j
    by (rule refill_take[OF w(2) _ _ assms(3,4) p]) simp_all
  show "worth 50 5 T0 T1 (B' (player_key p)) + (if requester q = p then k else 0)
           \<le> worth 50 5 T0 T1 (B (player_key p))"
    using eq pw[of k] by auto
  show "worth 10000 2000 T0 T1 (B' global_key) + (if 0 < k then 1 else 0) \<le> worth 10000 2000 T0 T1 (B global_key)"
    using eq gw[of 0] gw[of 1] by auto
qed

section \<open>The two budgets\<close>

definition timely :: "int \<Rightarrow> int \<Rightarrow> request \<Rightarrow> bool" where
  "timely T0 T1 q \<longleftrightarrow> drains_ok q \<and> T0 \<le> request_time q \<and> request_time q \<le> T1"

definition serving :: "'r redis \<Rightarrow> 'r \<Rightarrow> bool" where
  "serving c r \<longleftrightarrow> redis_ok c \<and> buckets_ok c r \<and> table_ok (bucket_at c r)"

lemma serve_serving:
  assumes "serving c r" "drains_ok q"
  shows "serving c (fst (serve c q r))"
proof -
  have ok: "redis_ok c" "buckets_ok c r" "table_ok (bucket_at c r)"
    using assms(1) by (simp_all add: serving_def)
  show ?thesis
    using serve_effect[OF ok(1,2), where q = q] serve_abs_ok[OF ok(3) assms(2)] ok
    unfolding serving_def by metis
qed

lemma serve_worth:
  assumes "serving c r" "timely T0 T1 q"
  shows "worth 50 5 T0 T1 (bucket_at c (fst (serve c q r)) (player_key p)) + granted_player c p q r
           \<le> worth 50 5 T0 T1 (bucket_at c r (player_key p))"
    and "worth 10000 2000 T0 T1 (bucket_at c (fst (serve c q r)) global_key) + granted_call c q r
           \<le> worth 10000 2000 T0 T1 (bucket_at c r global_key)"
proof -
  have ok: "redis_ok c" "buckets_ok c r" "table_ok (bucket_at c r)" "drains_ok q"
      "T0 \<le> request_time q" "request_time q \<le> T1"
    using assms by (simp_all add: serving_def timely_def)
  note w = serve_abs_worth[OF ok(3-6)] and pos = serve_abs_ok(2)[OF ok(3,4)]
  show "worth 50 5 T0 T1 (bucket_at c (fst (serve c q r)) (player_key p)) + granted_player c p q r
           \<le> worth 50 5 T0 T1 (bucket_at c r (player_key p))"
    using serve_effect(2)[OF ok(1,2), of q p] w(1)[of _ _ p] pos by (fastforce split: if_splits)
  show "worth 10000 2000 T0 T1 (bucket_at c (fst (serve c q r)) global_key) + granted_call c q r
           \<le> worth 10000 2000 T0 T1 (bucket_at c r global_key)"
    using serve_effect(2)[OF ok(1,2), of q p] w(2) pos by (fastforce split: if_splits)
qed

interpretation player_budget:
  budget "\<lambda>q r. fst (serve c q r)" "granted_player c p" "\<lambda>r. serving c r \<and> T0 \<le> T1" "timely T0 T1"
    "\<lambda>r. worth 50 5 T0 T1 (bucket_at c r (player_key p))"
  for c p T0 T1
  by unfold_locales
    (auto simp: serve_serving timely_def intro!: serve_worth(1) worth_nonneg,
     auto simp: serving_def table_ok_def)

interpretation global_budget:
  budget "\<lambda>q r. fst (serve c q r)" "granted_call c" "\<lambda>r. serving c r \<and> T0 \<le> T1" "timely T0 T1"
    "\<lambda>r. worth 10000 2000 T0 T1 (bucket_at c r global_key)"
  for c T0 T1
  by unfold_locales
    (auto simp: serve_serving timely_def intro!: serve_worth(2) worth_nonneg,
     auto simp: serving_def table_ok_def)

lemma worth_window:
  assumes "within cap b" "0 \<le> rate" "0 \<le> cap" "T0 \<le> T1"
  shows "worth cap rate T0 T1 b \<le> cap + rate * (T1 - T0)"
proof -
  have "rate * max 0 (T1 - max l T0) \<le> rate * (T1 - T0)" for l
    by (rule mult_left_mono) (use assms in auto)
  then show ?thesis
    by (auto simp: worth_def split: option.split intro!: add_mono)
qed


section \<open>Properties\<close>

text \<open>
  C23. \<open>AllowMutation\<close> implements the two-bucket check: when the call is answered, it is allowed exactly
  if both refilled buckets hold a token; then each loses one. If the global bucket is empty nothing is
  written; if only the player's is empty the global token taken first is given back. No other
  player's bucket is touched.
\<close>

theorem allow_mutation_refines:
  assumes "redis_ok c" "buckets_ok c r" and "AllowMutation c p now r = (r', Inr ok)"
  shows "(bucket_at c r', ok) = allow_abs p now (bucket_at c r) \<and>
    (ok \<longleftrightarrow> 1 \<le> fst (refill 10000 2000 now (bucket_at c r global_key)) \<and>
            1 \<le> fst (refill 50 5 now (bucket_at c r (player_key p)))) \<and>
    (\<forall>k. k \<notin> {global_key, player_key p} \<longrightarrow> bucket_at c r' k = bucket_at c r k) \<and>
    buckets_ok c r'"
proof -
  have ref: "(bucket_at c r', ok) = allow_abs p now (bucket_at c r)"
    using AllowMutation_cases(2)[OF assms] by auto
  moreover from ref have "ok \<longleftrightarrow> 1 \<le> fst (refill 10000 2000 now (bucket_at c r global_key)) \<and>
            1 \<le> fst (refill 50 5 now (bucket_at c r (player_key p)))"
    and "\<forall>k. k \<notin> {global_key, player_key p} \<longrightarrow> bucket_at c r' k = bucket_at c r k"
    by (auto simp: allow_abs_def split: prod.splits if_splits)
  ultimately show ?thesis using AllowMutation_cases(1)[OF assms] by blast
qed

definition demo_database :: memory where
  "demo_database =
     \<lparr>hashes =
        [((player_key ''bob'', ''tokens''), 0), ((player_key ''bob'', ''last_refill''), 100),
         ((global_key, ''tokens''), 10), ((global_key, ''last_refill''), 100)],
      strings = []\<rparr>"

lemma demo_database_bucket:
  "bucket_at memory_redis demo_database k =
     (if k = player_key ''bob'' then Some (0, 100) else if k = global_key then Some (10, 100) else None)"
  by (simp add: bucket_at_def memory_hash_field demo_database_def)

lemma demo_database_ok: "redis_ok memory_redis" "buckets_ok memory_redis demo_database"
    "serving memory_redis demo_database"
proof -
  show r: "redis_ok memory_redis" by (simp add: redis_ok_def)
  show b: "buckets_ok memory_redis demo_database"
    by (auto simp: buckets_ok_def memory_hash_field demo_database_def)
  show "serving memory_redis demo_database"
    by (simp add: serving_def r b table_ok_def demo_database_bucket within_def)
qed

lemma demo_allow:
  "\<exists>r'. AllowMutation memory_redis ''bob'' 100 demo_database = (r', Inr False)"
  by (simp add: AllowMutation_def memory_redis_def luaTokenBucket_def check_and_decrement_def
      lua_refill_def Let_def demo_database_def write_bucket_def player_key_def global_key_def)

theorem allow_mutation_refines_witness:
  "\<exists>r'. AllowMutation memory_redis ''bob'' 100 demo_database = (r', Inr False) \<and>
     bucket_at memory_redis r' global_key = Some (10, 100) \<and>
     bucket_at memory_redis r' (player_key ''bob'') = Some (0, 100) \<and>
     bucket_at memory_redis r' (player_key ''eve'') = None"
proof -
  obtain r' where r': "AllowMutation memory_redis ''bob'' 100 demo_database = (r', Inr False)"
    using demo_allow by blast
  from allow_mutation_refines[OF demo_database_ok(1,2) r'] r' show ?thesis
    by (auto simp: allow_abs_def demo_database_bucket refill_def)
qed

text \<open>
  C24. \<open>DrainN\<close> with an answered call: with an empty global bucket it consumes nothing and writes
  nothing; otherwise it charges the global bucket exactly one token and the player exactly the smaller
  of the request and what the refilled bucket holds, so the player's bucket never goes below zero.
\<close>

theorem drain_refines:
  assumes "redis_ok c" "buckets_ok c r" "table_ok (bucket_at c r)" "0 \<le> n"
    and "DrainN c p now n r = (r', Inr consumed)"
  shows "(bucket_at c r', consumed) = drain_abs p now n (bucket_at c r) \<and>
    consumed =
      (if fst (refill 10000 2000 now (bucket_at c r global_key)) < 1 then 0
       else min n (fst (refill 50 5 now (bucket_at c r (player_key p))))) \<and>
    0 \<le> consumed \<and> buckets_ok c r' \<and> table_ok (bucket_at c r')"
proof -
  have ref: "(bucket_at c r', consumed) = drain_abs p now n (bucket_at c r)"
    using DrainN_cases(2)[OF assms(1,2,5)] by auto
  moreover from ref have "consumed =
      (if fst (refill 10000 2000 now (bucket_at c r global_key)) < 1 then 0
       else min n (fst (refill 50 5 now (bucket_at c r (player_key p)))))"
    by (auto simp: drain_abs_def split: prod.splits if_splits)
  moreover have "0 \<le> consumed" "table_ok (bucket_at c r')"
    using serve_abs_ok[OF assms(3), of "Drain p now n"] assms(4) ref[symmetric] by (simp_all add: drains_ok_def)
  ultimately show ?thesis using DrainN_cases(1)[OF assms(1,2,5)] by blast
qed

lemma demo_drain:
  "\<exists>r'. DrainN memory_redis ''eve'' 101 51 demo_database = (r', Inr 50)"
  by (simp add: DrainN_def memory_redis_def luaDrainN_def
      lua_refill_def Let_def demo_database_def write_bucket_def player_key_def global_key_def)

theorem drain_refines_witness:
  "\<exists>r'. DrainN memory_redis ''eve'' 101 51 demo_database = (r', Inr 50) \<and>
     bucket_at memory_redis r' global_key = Some (2009, 101) \<and>
     bucket_at memory_redis r' (player_key ''eve'') = Some (0, 101)"
proof -
  obtain r' where r': "DrainN memory_redis ''eve'' 101 51 demo_database = (r', Inr 50)"
    using demo_drain by blast
  have "table_ok (bucket_at memory_redis demo_database)"
    using demo_database_ok(3) by (simp add: serving_def)
  from drain_refines[OF demo_database_ok(1,2) this _ r'] r' show ?thesis
    by (auto simp: drain_abs_def demo_database_bucket refill_def)
qed

text \<open>
  C21. Whatever calls arrive within a window of \<open>T1 - T0\<close> seconds, in any order of their clocks, a
  player consumes at most 50 tokens plus 5 for each second of the window. Calls whose answer is lost
  may charge the player but never grant more.
\<close>

theorem player_rate_bound:
  assumes "serving c r" "T0 \<le> T1" "\<forall>q\<in>set qs. timely T0 T1 q"
  shows "run_total (\<lambda>q r. fst (serve c q r)) (granted_player c p) qs r \<le> 50 + 5 * (T1 - T0)"
proof -
  have "run_total (\<lambda>q r. fst (serve c q r)) (granted_player c p) qs r
      \<le> worth 50 5 T0 T1 (bucket_at c r (player_key p))"
    by (rule player_budget.total_le) (use assms in auto)
  also have "\<dots> \<le> 50 + 5 * (T1 - T0)"
    by (rule worth_window) (use assms in \<open>auto simp: serving_def table_ok_def\<close>)
  finally show ?thesis .
qed

theorem player_rate_bound_witness:
  "run_total (\<lambda>q r. fst (serve memory_redis q r)) (granted_player memory_redis ''bob'')
     [Mutate ''bob'' 100, Mutate ''eve'' 102, Drain ''bob'' 103 40, Mutate ''bob'' 101] demo_database \<le> 65"
  using player_rate_bound[OF demo_database_ok(3), of 100 103
      "[Mutate ''bob'' 100, Mutate ''eve'' 102, Drain ''bob'' 103 40, Mutate ''bob'' 101]" "''bob''"]
  by (simp add: timely_def drains_ok_def)

text \<open>
  C22. Over a window of \<open>T1 - T0\<close> seconds the whole server grants at most 10000 calls plus 2000 for each
  second, whatever the players do.
\<close>

theorem global_rate_bound:
  assumes "serving c r" "T0 \<le> T1" "\<forall>q\<in>set qs. timely T0 T1 q"
  shows "run_total (\<lambda>q r. fst (serve c q r)) (granted_call c) qs r \<le> 10000 + 2000 * (T1 - T0)"
proof -
  have "run_total (\<lambda>q r. fst (serve c q r)) (granted_call c) qs r
      \<le> worth 10000 2000 T0 T1 (bucket_at c r global_key)"
    by (rule global_budget.total_le) (use assms in auto)
  also have "\<dots> \<le> 10000 + 2000 * (T1 - T0)"
    by (rule worth_window) (use assms in \<open>auto simp: serving_def table_ok_def\<close>)
  finally show ?thesis .
qed

theorem global_rate_bound_witness:
  "run_total (\<lambda>q r. fst (serve memory_redis q r)) (granted_call memory_redis)
     [Mutate ''bob'' 100, Mutate ''eve'' 102, Drain ''bob'' 103 40, Mutate ''bob'' 101] demo_database \<le> 16000"
  using global_rate_bound[OF demo_database_ok(3), of 100 103
      "[Mutate ''bob'' 100, Mutate ''eve'' 102, Drain ''bob'' 103 40, Mutate ''bob'' 101]"]
  by (simp add: timely_def drains_ok_def)



end
