(* ===== verification/Server.thy ===== *)
theory Server
  imports Tick Storage PubSub Rate_Limits
begin

text \<open>
  The wiring of \<^verbatim>\<open>main.go\<close>: the world the registry's callbacks act on is the database, the
  subscriptions, the network and the metrics of saving; the registry is configured with the
  broadcast of the PubSub and with the storage engine. What is outside the program (Redis, the
  connections, the iteration order of maps) is the environment, a record of parameters.
\<close>

record ('r, 'n) World =
  db :: 'r
  subs :: PubSub
  net :: 'n
  save_metrics :: Metrics

record ('r, 'n) Env =
  redisClient :: "'r redis"
  WriteJSON :: "'n writer"
  order :: "client list \<Rightarrow> client list"

type_synonym ('r, 'n) server = "Registry \<times> ('r, 'n) World"

definition registry_config :: "('r, 'n) Env \<Rightarrow> ('r, 'n) World RegistryConfig" where
  "registry_config env =
     \<lparr>OnTick = Some (\<lambda>i cells w.
        (case Broadcast (WriteJSON env) (order env) i cells (subs w, net w) of
           (ps, n) \<Rightarrow> w\<lparr>subs := ps, net := n\<rparr>)),
      Persist = Some (\<lambda>chunk w.
        (case SaveChunk (redisClient env) chunk (db w) of
           (r', err) \<Rightarrow> (w\<lparr>db := r', save_metrics := RedisSaveLatency_Observe (save_metrics w)\<rparr>, err))),
      Load = Some (\<lambda>i w. LoadChunk (redisClient env) i (db w)),
      HasSubscribers = Some (\<lambda>i w. PubSub.HasSubscribers i (subs w))\<rparr>"

definition start_server :: "nat \<Rightarrow> 'r \<Rightarrow> 'n \<Rightarrow> ('r, 'n) server" where
  "start_server NumCPU r n =
     (NewRegistry NumCPU (Some New),
      \<lparr>db = r, subs = NewPubSub (Some New), net = n, save_metrics = New\<rparr>)"

end
