(* ===== verification/Router.thy ===== *)
theory Router
  imports Server
begin

text \<open>
  \<^verbatim>\<open>gateway/router.go\<close>: the dispatch of one message of a client. A handler runs as one step on the state
  of the server; the readings of the clock it makes are the function \<open>clock\<close>, the \<open>k\<close>-th
  reading being \<open>clock k\<close>. Writing to the client may fail; the handlers ignore the error.
\<close>

section \<open>Coordinates\<close>

definition worldToChunkLocal :: "i64 \<Rightarrow> i64 \<times> u8" where
  "worldToChunkLocal n =
     (let c = go_div n (word_of_nat ChunkSize); rem = go_rem n (word_of_nat ChunkSize);
          (c, rem) = (if n <s 0 \<and> rem \<noteq> 0 then (c - 1, rem + word_of_nat ChunkSize) else (c, rem))
      in (c, ucast rem))"

definition spawnWorldCell :: "('r, 'n) Env \<Rightarrow> ('r, 'n) World \<Rightarrow> i64 \<times> i64 \<Rightarrow> Registry \<Rightarrow> Registry" where
  "spawnWorldCell env w xy r =
     (let (cx, lx) = worldToChunkLocal (fst xy);
          (cy, ly) = worldToChunkLocal (snd xy);
          (a, r') = GetOrCreate (registry_config env) w (ChunkID cx cy) r
      in ProcessSpawn a lx ly r')"

section \<open>Answers\<close>

definition send :: "('r, 'n) Env \<Rightarrow> client \<Rightarrow> OutgoingMessage \<Rightarrow> ('r, 'n) server \<Rightarrow> ('r, 'n) server" where
  "send env cl msg s = (case s of (r, w) \<Rightarrow> (r, w\<lparr>net := fst (WriteJSON env cl msg (net w))\<rparr>))"

definition sendError :: "('r, 'n) Env \<Rightarrow> client \<Rightarrow> string \<Rightarrow> string \<Rightarrow> ('r, 'n) server \<Rightarrow> ('r, 'n) server" where
  "sendError env cl code message = send env cl (OutgoingMessage ''ERROR'' (OfError (ErrorPayload code message)))"

text \<open>The result of \<open>parsePayload\<close> is the state and the command, \<open>None\<close> after the error was sent.\<close>

definition parsePayload ::
  "('r, 'n) Env \<Rightarrow> client \<Rightarrow> ('a \<Rightarrow> json \<Rightarrow> 'a option) \<Rightarrow> 'a \<Rightarrow> any \<Rightarrow> ('r, 'n) server \<Rightarrow>
   ('r, 'n) server \<times> 'a option" where
  "parsePayload env cl decode zero payload s =
     (case recode decode zero payload of
        None \<Rightarrow> (sendError env cl ''INVALID_PAYLOAD'' ''Malformed payload'' s, None)
      | Some cmd \<Rightarrow> (s, Some cmd))"

section \<open>Charging\<close>

definition checkRateLimit ::
  "('r, 'n) Env \<Rightarrow> string \<Rightarrow> client \<Rightarrow> int \<Rightarrow> ('r, 'n) server \<Rightarrow> ('r, 'n) server \<times> bool" where
  "checkRateLimit env playerID cl now s =
     (case s of (r, w) \<Rightarrow>
       (case AllowMutation (redisClient env) playerID now (db w) of
          (d, Inl err) \<Rightarrow> (sendError env cl ''INTERNAL_ERROR'' ''Rate limiter unavailable'' (r, w\<lparr>db := d\<rparr>), False)
        | (d, Inr allowed) \<Rightarrow>
            if \<not> allowed then (sendError env cl ''RATE_LIMITED'' ''Slow down!'' (r, w\<lparr>db := d\<rparr>), False)
            else ((r, w\<lparr>db := d\<rparr>), True)))"

fun chargeN ::
  "('r, 'n) Env \<Rightarrow> string \<Rightarrow> client \<Rightarrow> (nat \<Rightarrow> int) \<Rightarrow> nat \<Rightarrow> ('r, 'n) server \<Rightarrow> ('r, 'n) server \<times> bool" where
  "chargeN env playerID cl clock 0 s = (s, True)"
| "chargeN env playerID cl clock (Suc n) s =
     (case checkRateLimit env playerID cl (clock 0) s of
        (s', False) \<Rightarrow> (s', False)
      | (s', True) \<Rightarrow> chargeN env playerID cl (clock \<circ> Suc) n s')"

section \<open>The commands\<close>

text \<open>Spawning the cells of a pattern at its root; the sums wrap around at 64 bits.\<close>

definition spawn_cells :: "('r, 'n) Env \<Rightarrow> (i64 \<times> i64) list \<Rightarrow> ('r, 'n) server \<Rightarrow> ('r, 'n) server" where
  "spawn_cells env cells s = (case s of (r, w) \<Rightarrow> (fold (spawnWorldCell env w) cells r, w))"

definition Route_SPAWN ::
  "('r, 'n) Env \<Rightarrow> string \<Rightarrow> any \<Rightarrow> client \<Rightarrow> (nat \<Rightarrow> int) \<Rightarrow> ('r, 'n) server \<Rightarrow> ('r, 'n) server" where
  "Route_SPAWN env playerID payload cl clock s =
     (case checkRateLimit env playerID cl (clock 0) s of
        (s1, False) \<Rightarrow> s1
      | (s1, True) \<Rightarrow>
          (case parsePayload env cl decode_SpawnCommand (SpawnCommand 0 0) payload s1 of
             (s2, None) \<Rightarrow> s2
           | (s2, Some cmd) \<Rightarrow>
               send env cl (OutgoingMessage ''SPAWN_ACK'' (OfSpawn cmd))
                 (spawn_cells env [(spawnX cmd, spawnY cmd)] s2)))"

definition Route_PLACE_SHAPE ::
  "('r, 'n) Env \<Rightarrow> string \<Rightarrow> any \<Rightarrow> client \<Rightarrow> (nat \<Rightarrow> int) \<Rightarrow> ('r, 'n) server \<Rightarrow> ('r, 'n) server" where
  "Route_PLACE_SHAPE env playerID payload cl clock s =
     (case parsePayload env cl decode_PlaceShapeCommand (PlaceShapeCommand 0 0 []) payload s of
        (s1, None) \<Rightarrow> s1
      | (s1, Some cmd) \<Rightarrow>
          (case GetShape (shapeName cmd) of
             None \<Rightarrow> sendError env cl ''UNKNOWN_SHAPE'' (''Unknown shape: '' @ shapeName cmd) s1
           | Some cells \<Rightarrow>
               (case chargeN env playerID cl clock (length cells) s1 of
                  (s2, False) \<Rightarrow> s2
                | (s2, True) \<Rightarrow>
                    send env cl (OutgoingMessage ''PLACE_SHAPE_ACK'' (OfPlaceShape cmd))
                      (spawn_cells env (map (\<lambda>c. (shapeX cmd + offX c, shapeY cmd + offY c)) cells) s2))))"

definition LargeCustomPenalty :: nat where
  "LargeCustomPenalty = 25"

definition validation_message :: "string \<Rightarrow> string" where
  "validation_message code =
     ''Custom piece validation failed: '' @ code @ '' (max 100'' @ [CHR 0xC3, CHR 0x97] @
     ''100, max 10000 cells)''"

definition busy_message :: string where
  "busy_message = ''Server is busy '' @ [CHR 0xE2, CHR 0x80, CHR 0x94] @ '' try again shortly''"

definition tokens_wanted :: "CellOffset list \<Rightarrow> nat" where
  "tokens_wanted cells =
     (if LargeCustomThreshold < length cells then length cells + LargeCustomPenalty else length cells)"

definition Route_PLACE_CUSTOM ::
  "('r, 'n) Env \<Rightarrow> string \<Rightarrow> any \<Rightarrow> client \<Rightarrow> (nat \<Rightarrow> int) \<Rightarrow> ('r, 'n) server \<Rightarrow> ('r, 'n) server" where
  "Route_PLACE_CUSTOM env playerID payload cl clock s =
     (case parsePayload env cl decode_PlaceCustomCommand (PlaceCustomCommand 0 0 nil_slice) payload s of
        (s1, None) \<Rightarrow> s1
      | (s1, Some cmd) \<Rightarrow>
          (case ValidateCustomCells (elements (customCells cmd)) of
             Inl code \<Rightarrow> sendError env cl code (validation_message code) s1
           | Inr validCells \<Rightarrow>
               (case s1 of (r, w) \<Rightarrow>
                 (case DrainN (redisClient env) playerID (clock 0) (int (tokens_wanted validCells)) (db w) of
                    (d, Inl err) \<Rightarrow>
                      sendError env cl ''INTERNAL_ERROR'' ''Rate limiter unavailable'' (r, w\<lparr>db := d\<rparr>)
                  | (d, Inr consumed) \<Rightarrow>
                      if consumed = 0 \<and> 0 < tokens_wanted validCells
                      then sendError env cl ''RATE_LIMITED'' busy_message (r, w\<lparr>db := d\<rparr>)
                      else send env cl (OutgoingMessage ''PLACE_CUSTOM_ACK'' (OfPlaceCustom cmd))
                             (spawn_cells env (map (\<lambda>c. (customX cmd + cellX c, customY cmd + cellY c)) validCells)
                                (r, w\<lparr>db := d\<rparr>))))))"

definition subscribe_ref :: "('r, 'n) Env \<Rightarrow> client \<Rightarrow> ChunkRef \<Rightarrow> ('r, 'n) server \<Rightarrow> ('r, 'n) server" where
  "subscribe_ref env cl ref s =
     (case s of (r, w) \<Rightarrow>
       let i = ChunkID (refX ref) (refY ref);
           w1 = w\<lparr>subs := Subscribe i cl (subs w)\<rparr>;
           cells = PeekChunk (registry_config env) w1 i r
       in if length cells > 0
          then send env cl (OutgoingMessage ''CHUNK_STATE'' (OfChunkState (ChunkStatePayload (refX ref) (refY ref) cells)))
                 (snd (GetOrCreate (registry_config env) w1 i r), w1)
          else (r, w1))"

definition Route_SUBSCRIBE ::
  "('r, 'n) Env \<Rightarrow> any \<Rightarrow> client \<Rightarrow> ('r, 'n) server \<Rightarrow> ('r, 'n) server" where
  "Route_SUBSCRIBE env payload cl s =
     (case parsePayload env cl decode_SubscribeCommand (SubscribeCommand nil_slice) payload s of
        (s1, None) \<Rightarrow> s1
      | (s1, Some cmd) \<Rightarrow> fold (subscribe_ref env cl) (elements (subChunks cmd)) s1)"

definition unsubscribe_ref :: "client \<Rightarrow> ChunkRef \<Rightarrow> ('r, 'n) server \<Rightarrow> ('r, 'n) server" where
  "unsubscribe_ref cl ref s =
     (case s of (r, w) \<Rightarrow> (r, w\<lparr>subs := Unsubscribe (ChunkID (refX ref) (refY ref)) cl (subs w)\<rparr>))"

definition Route_UNSUBSCRIBE ::
  "('r, 'n) Env \<Rightarrow> any \<Rightarrow> client \<Rightarrow> ('r, 'n) server \<Rightarrow> ('r, 'n) server" where
  "Route_UNSUBSCRIBE env payload cl s =
     (case parsePayload env cl decode_SubscribeCommand (SubscribeCommand nil_slice) payload s of
        (s1, None) \<Rightarrow> s1
      | (s1, Some cmd) \<Rightarrow> fold (unsubscribe_ref cl) (elements (subChunks cmd)) s1)"

definition Route ::
  "('r, 'n) Env \<Rightarrow> string \<Rightarrow> IncomingMessage \<Rightarrow> client \<Rightarrow> (nat \<Rightarrow> int) \<Rightarrow> ('r, 'n) server \<Rightarrow> ('r, 'n) server" where
  "Route env playerID msg cl clock s =
     (if inType msg = ''SPAWN'' then Route_SPAWN env playerID (inPayload msg) cl clock s
      else if inType msg = ''PLACE_SHAPE'' then Route_PLACE_SHAPE env playerID (inPayload msg) cl clock s
      else if inType msg = ''PLACE_CUSTOM'' then Route_PLACE_CUSTOM env playerID (inPayload msg) cl clock s
      else if inType msg = ''SUBSCRIBE'' then Route_SUBSCRIBE env (inPayload msg) cl s
      else if inType msg = ''UNSUBSCRIBE'' then Route_UNSUBSCRIBE env (inPayload msg) cl s
      else if inType msg = ''PING'' then s
      else sendError env cl ''UNKNOWN_COMMAND'' (''Command type not supported: '' @ inType msg) s)"

section \<open>The connection\<close>

text \<open>
  \<^verbatim>\<open>gateway/websocket.go\<close>: one turn of the read loop on the bytes of a message, and the life of a connection:
  the messages until reading fails, then the removal of all its subscriptions.
\<close>

definition handle_message ::
  "('r, 'n) Env \<Rightarrow> string \<Rightarrow> client \<Rightarrow> string \<times> (nat \<Rightarrow> int) \<Rightarrow> ('r, 'n) server \<Rightarrow> ('r, 'n) server" where
  "handle_message env playerID cl m s =
     (case Option.bind (parse_json (fst m)) (decode_IncomingMessage (IncomingMessage [] ANil)) of
        None \<Rightarrow> sendError env cl ''INVALID_FORMAT'' ''Message must be valid JSON'' s
      | Some msg \<Rightarrow> Route env playerID msg cl (snd m) s)"

definition close_connection :: "client \<Rightarrow> ('r, 'n) server \<Rightarrow> ('r, 'n) server" where
  "close_connection cl s = (case s of (r, w) \<Rightarrow> (r, w\<lparr>subs := UnsubscribeAll cl (subs w)\<rparr>))"

text \<open>
  A request for a connection. \<open>Upgrade\<close> is \<^verbatim>\<open>websocket.Upgrader\<close> of the library, which may refuse with an error; the
  code only tells it which origins to accept. \<open>messages\<close> are those read until reading fails.
\<close>

record Request =
  RemoteAddr :: string
  Origin :: string

definition CheckOrigin :: "Request \<Rightarrow> bool" where
  "CheckOrigin r \<longleftrightarrow> True"

definition HandleWebSocket ::
  "('r, 'n) Env \<Rightarrow> ((Request \<Rightarrow> bool) \<Rightarrow> Request \<Rightarrow> string option) \<Rightarrow> Request \<Rightarrow> client \<Rightarrow>
   (string \<times> (nat \<Rightarrow> int)) list \<Rightarrow> ('r, 'n) server \<Rightarrow> ('r, 'n) server" where
  "HandleWebSocket env Upgrade r cl messages s =
     (case Upgrade CheckOrigin r of
        Some err \<Rightarrow> s
      | None \<Rightarrow>
          let playerID = RemoteAddr r
          in close_connection cl (fold (handle_message env playerID cl) messages s))"

end
