(* ===== verification/Router_Inv.thy ===== *)
theory Router_Inv
  imports Router
begin

text \<open>
  What the handlers of the router do to the board, the buckets, the subscriptions and the connection.
\<close>

section \<open>Coordinates\<close>

lemma small_word_zero:
  assumes "\<bar>s\<bar> < 64"
  shows "(word_of_int s :: i64) = 0 \<longleftrightarrow> s = 0"
proof -
  have "(word_of_int s :: i64) = 0 \<longleftrightarrow> s mod 2 ^ 64 = 0"
    using uint_word_of_int[of s, where 'a = 64] by (simp add: word_uint_eq_iff)
  moreover have "s mod 2 ^ 64 = 0 \<longleftrightarrow> s = 0"
    using assms zdvd_not_zless[of "s" "2 ^ 64"] by (auto simp: mod_eq_0_iff_dvd dest: dvd_imp_le_int)
  ultimately show ?thesis by simp
qed

lemma small_word_cast:
  assumes "0 \<le> s" "s < 64"
  shows "ucast (word_of_int s :: i64) = (word_of_int s :: u8)"
proof -
  have "uint (word_of_int s :: i64) = s" using assms by (simp add: uint_word_of_int)
  then show ?thesis by (metis ucast_eq)
qed

text \<open>Go's division truncates; the correction makes it round down.\<close>

lemma floor_from_truncation:
  "(if k < 0 \<and> k smod 64 \<noteq> 0 then (k sdiv 64 - 1, k smod 64 + 64) else (k sdiv 64, k smod 64)) = (k div 64, k mod (64 :: int))"
proof (cases "k < 0")
  case True
  define m where "m = - k"
  have m: "0 < m" "k = - m" using True by (simp_all add: m_def)
  have "m sdiv 64 = m div 64" "m smod 64 = m mod 64"
    using m by (simp_all add: signed_divide_int_def signed_modulo_int_def)
  then show ?thesis using m by (simp add: zdiv_zminus1_eq_if zmod_zminus1_eq_if)
next
  case False
  then show ?thesis by (auto simp: signed_divide_int_def signed_modulo_int_def sgn_if)
qed

lemma worldToChunkLocal_eq:
  "worldToChunkLocal n = (word_of_int (sint n div 64), word_of_int (sint n mod 64))"
proof -
  let ?k = "sint n"
  have c64: "(word_of_nat ChunkSize :: i64) = word_of_int 64" "sint (word_of_int 64 :: i64) = 64"
    by (simp_all add: ChunkSize_def)
  have "\<bar>?k smod 64\<bar> < 64" by (simp add: signed_modulo_int_def abs_mult sgn_if abs_mod_less)
  then have rem: "(word_of_int (?k smod 64) :: i64) = 0 \<longleftrightarrow> ?k smod 64 = 0" by (rule small_word_zero)
  have neg: "n <s 0 \<longleftrightarrow> ?k < 0" by (simp add: word_sless_alt)
  note floor = floor_from_truncation[of ?k]
  show ?thesis
  proof (cases "?k < 0 \<and> ?k smod 64 \<noteq> 0")
    case True
    then have "?k div 64 = ?k sdiv 64 - 1" "?k mod 64 = ?k smod 64 + 64" using floor by simp_all
    then show ?thesis
      using True neg rem small_word_cast[of "?k mod 64"]
      by (simp add: worldToChunkLocal_def Let_def go_div_def go_rem_def c64 flip: wi_hom_add wi_hom_sub)
  next
    case False
    then have "?k div 64 = ?k sdiv 64" "?k mod 64 = ?k smod 64" using floor by (simp_all split: if_splits)
    then show ?thesis
      using False neg rem small_word_cast[of "?k mod 64"]
      by (auto simp: worldToChunkLocal_def Let_def go_div_def go_rem_def c64)
  qed
qed

text \<open>A world coordinate on the torus.\<close>

definition world_coord :: "i64 \<Rightarrow> coord" where
  "world_coord n = word_of_int (sint n)"

definition world_cell :: "i64 \<times> i64 \<Rightarrow> coord \<times> coord" where
  "world_cell xy = (world_coord (fst xy), world_coord (snd xy))"

lemma worldToChunkLocal_coord:
  assumes "worldToChunkLocal n = (c, l)"
  shows "sint n = 64 * sint c + int (unat l)" "unat l < 64" "gcoord c (int (unat l)) = world_coord n"
proof -
  have cl: "c = word_of_int (sint n div 64)" "l = word_of_int (sint n mod 64)"
    using assms by (simp_all add: worldToChunkLocal_eq)
  have u: "uint l = sint n mod 64"
    unfolding cl by (simp add: uint_word_of_int)
  then have l: "int (unat l) = sint n mod 64" by (simp add: uint_nat[symmetric])
  have "- (2 ^ 63) \<le> sint n" "sint n < 2 ^ 63" using sint_ge[of n] sint_lt[of n] by simp_all
  then have "- (2 ^ 63) \<le> sint n div 64" "sint n div 64 < 2 ^ 63" by presburger+
  then have c: "sint c = sint n div 64"
    unfolding cl by (simp add: signed_of_int signed_take_bit_int_eq_self)
  show "sint n = 64 * sint c + int (unat l)" unfolding c l by simp
  then have n: "sint n = 64 * sint c + int (unat l)" .
  show "unat l < 64" using l pos_mod_bound[of 64 "sint n"] by linarith
  have "(uint c - sint c) mod 2 ^ 64 = 0"
    by (simp add: mod_eq_0_iff_dvd flip: mod_eq_dvd_iff) (simp add: uint_sint take_bit_eq_mod)
  then obtain k where "uint c - sint c = 2 ^ 64 * k" by (auto simp: mod_eq_0_iff_dvd elim: dvdE)
  then have "uint c * 64 + int (unat l) - sint n = 2 ^ 70 * k" using n by simp
  then show "gcoord c (int (unat l)) = world_coord n"
    unfolding gcoord_def world_coord_def coord_of_int_eq by simp
qed

section \<open>The invariant of the server\<close>

definition env_ok :: "('r, 'n) Env \<Rightarrow> bool" where
  "env_ok env \<longleftrightarrow> redis_ok (redisClient env) \<and> redis_kv_laws (redisClient env) \<and>
     redis_frame_laws (redisClient env) \<and> (\<forall>cs. mset (order env cs) = mset cs)"

text \<open>What is stored under a chunk's key is a chunk with that identifier.\<close>

definition chunks_ok :: "'r redis \<Rightarrow> 'r \<Rightarrow> bool" where
  "chunks_ok c d \<longleftrightarrow> (\<forall>i ch. LoadChunk c i d = Inr (Some ch) \<longrightarrow> ID ch = i)"

definition server_ok :: "('r, 'n) Env \<Rightarrow> ('r, 'n) server \<Rightarrow> bool" where
  "server_ok env s \<longleftrightarrow> env_ok env \<and> reg_wf (fst s) \<and> pubsub_wf (subs (snd s)) \<and>
     serving (redisClient env) (db (snd s)) \<and> chunks_ok (redisClient env) (db (snd s))"

text \<open>The live cells of the active chunks and of those in storage.\<close>

definition full_board :: "('r, 'n) Env \<Rightarrow> ('r, 'n) server \<Rightarrow> board" where
  "full_board env s = board (fst s) \<union> cold_cells (registry_config env) (snd s) (fst s)"

lemma LoadChunk_wf: "LoadChunk c i d = Inr (Some ch) \<Longrightarrow> wf_rows (rows ch)"
  by (auto simp: LoadChunk_def NewChunk_def SetRows_def split: get_result.splits option.splits)

lemma GetOrCreate_load_config:
  "GetOrCreate_load (registry_config env) w i =
     (case LoadChunk (redisClient env) i (db w) of Inr (Some ch) \<Rightarrow> ch | _ \<Rightarrow> NewChunk (idX i) (idY i))"
  by (simp add: GetOrCreate_load_def registry_config_def split: sum.splits option.splits)

lemma load_ok_config: "chunks_ok (redisClient env) (db w) \<Longrightarrow> load_ok (registry_config env) w"
  by (auto simp: load_ok_def GetOrCreate_load_config chunks_ok_def NewChunk_def
      split: sum.splits option.splits dest: LoadChunk_wf)

text \<open>Only the chunks in the database matter to what is loaded.\<close>

definition same_chunks :: "'r redis \<Rightarrow> 'r \<Rightarrow> 'r \<Rightarrow> bool" where
  "same_chunks c d d' \<longleftrightarrow> (\<forall>i. LoadChunk c i d' = LoadChunk c i d)"

lemma same_chunksD:
  assumes "same_chunks (redisClient env) (db w) (db w')"
  shows "cold_cells (registry_config env) w' r = cold_cells (registry_config env) w r"
    and "chunks_ok (redisClient env) (db w') = chunks_ok (redisClient env) (db w)"
  using assms by (simp_all add: same_chunks_def cold_cells_def GetOrCreate_load_config chunks_ok_def)

lemma same_chunks_refl [simp]: "same_chunks c d d"
  by (simp add: same_chunks_def)

lemma same_chunks_trans: "same_chunks c d d' \<Longrightarrow> same_chunks c d' d'' \<Longrightarrow> same_chunks c d d''"
  by (simp add: same_chunks_def)

section \<open>The limiter leaves the chunks alone\<close>

lemma write_bucket_Get:
  "redis_frame_laws c \<Longrightarrow> k' \<noteq> k \<Longrightarrow> Get c (write_bucket c k cap rate t l r) k' = Get c r k'"
  by (simp add: write_bucket_def Let_def redis_frame_laws_def)

lemma check_and_decrement_Get:
  "redis_frame_laws c \<Longrightarrow> k' \<noteq> k \<Longrightarrow> Get c (fst (check_and_decrement c k cap rate now r)) k' = Get c r k'"
  by (simp add: check_and_decrement_def write_bucket_Get split: sum.splits prod.splits)

lemma script_Get:
  assumes "redis_frame_laws c" "k' \<noteq> gk" "k' \<noteq> pk"
  shows "Get c (fst (luaTokenBucket c gk pk now a b d e r)) k' = Get c r k'"
    and "Get c (fst (luaDrainN c gk pk now a b d e n r)) k' = Get c r k'"
proof -
  obtain r1 x where 1: "check_and_decrement c gk a b now r = (r1, x)" by fastforce
  obtain r2 y where 2: "check_and_decrement c pk d e now r1 = (r2, y)" by fastforce
  have G: "Get c r1 k' = Get c r k'" "Get c r2 k' = Get c r1 k'"
    using check_and_decrement_Get[OF assms(1,2), of a b now r] check_and_decrement_Get[OF assms(1,3), of d e now r1]
    by (simp_all add: 1 2)
  have H: "Get c (HINCRBY c r2 gk ''tokens'' 1) k' = Get c r2 k'"
    using assms by (simp add: redis_frame_laws_def)
  show "Get c (fst (luaTokenBucket c gk pk now a b d e r)) k' = Get c r k'"
    using G H by (simp add: luaTokenBucket_def 1 2 split: sum.split bool.split)
  show "Get c (fst (luaDrainN c gk pk now a b d e n r)) k' = Get c r k'"
    using assms by (simp add: luaDrainN_def Let_def write_bucket_Get split: sum.split prod.split)
qed

lemma serve_Get:
  assumes "redis_eval_laws c" "redis_frame_laws c" "k' \<noteq> global_key" "\<And>p. k' \<noteq> player_key p"
  shows "Get c (fst (serve c q r)) k' = Get c r k'"
proof -
  have eval: "Get c (fst (Eval c script r)) k' = Get c r k'"
    if "Get c (fst (script r)) k' = Get c r k'" for script
    using that assms(1) unfolding redis_eval_laws_def
    by (cases "Eval c script r"; cases "snd (Eval c script r)") (auto, metis fst_conv, metis fst_conv)
  show ?thesis
  proof (cases q)
    case (Mutate p now)
    have "fst (serve c q r) = fst (Eval c (luaTokenBucket c global_key (player_key p) now 10000 2000 50 5) r)"
      by (simp add: Mutate AllowMutation_def split: prod.split sum.split)
    then show ?thesis using eval script_Get(1)[OF assms(2,3,4)] by simp
  next
    case (Drain p now n)
    then show ?thesis using eval script_Get(2)[OF assms(2,3,4)] by (simp add: DrainN_def)
  qed
qed

lemma chunkKey_not_limiter: "chunkKey i \<noteq> global_key" "chunkKey i \<noteq> player_key p"
  by (simp_all add: chunkKey_def global_key_def player_key_def)

lemma serve_same_chunks:
  "redis_eval_laws c \<Longrightarrow> redis_frame_laws c \<Longrightarrow> same_chunks c d (fst (serve c q d))"
  unfolding same_chunks_def
  by (intro allI LoadChunk_cong serve_Get chunkKey_not_limiter)

section \<open>Answers and charging\<close>

abbreviation serves :: "('r, 'n) Env \<Rightarrow> request \<Rightarrow> 'r \<Rightarrow> 'r" where
  "serves env q d \<equiv> fst (serve (redisClient env) q d)"

lemma send_simps [simp]:
  "fst (send env cl msg s) = fst s"
  "db (snd (send env cl msg s)) = db (snd s)" "subs (snd (send env cl msg s)) = subs (snd s)"
  "fst (sendError env cl code m s) = fst s"
  "db (snd (sendError env cl code m s)) = db (snd s)" "subs (snd (sendError env cl code m s)) = subs (snd s)"
  by (simp_all add: send_def sendError_def split: prod.splits)

text \<open>The invariant and the board depend on these parts of the state only.\<close>

lemma server_cong:
  assumes "fst s' = fst s" "subs (snd s') = subs (snd s)" "db (snd s') = db (snd s)"
  shows "server_ok env s' = server_ok env s" "full_board env s' = full_board env s"
  using assms same_chunksD(1)[of env "snd s" "snd s'"] by (simp_all add: server_ok_def full_board_def)

lemma server_send [simp]:
  "server_ok env (send env cl msg s) = server_ok env s" "full_board env (send env cl msg s) = full_board env s"
  "server_ok env (sendError env cl code m s) = server_ok env s"
  "full_board env (sendError env cl code m s) = full_board env s"
  by (rule server_cong; simp)+

lemma server_okD:
  assumes "server_ok env s"
  shows "env_ok env" "reg_wf (fst s)" "pubsub_wf (subs (snd s))" "serving (redisClient env) (db (snd s))"
    "chunks_ok (redisClient env) (db (snd s))" "load_ok (registry_config env) (snd s)"
    "redis_eval_laws (redisClient env)" "redis_frame_laws (redisClient env)" "redis_kv_laws (redisClient env)"
  using assms by (simp_all add: server_ok_def env_ok_def redis_ok_def load_ok_config)

text \<open>Running a limiter call on the database keeps the invariant and the board.\<close>

lemma server_serve:
  assumes "server_ok env (r, w)" "drains_ok q"
  shows "server_ok env (r, w\<lparr>db := serves env q (db w)\<rparr>)"
    and "full_board env (r, w\<lparr>db := serves env q (db w)\<rparr>) = full_board env (r, w)"
proof -
  note ok = server_okD[OF assms(1), simplified]
  have same: "same_chunks (redisClient env) (db w) (db (w\<lparr>db := serves env q (db w)\<rparr>))"
    using serve_same_chunks[OF ok(7,8)] by simp
  have "serving (redisClient env) (serves env q (db w))" by (rule serve_serving[OF ok(4) assms(2)])
  with ok show "server_ok env (r, w\<lparr>db := serves env q (db w)\<rparr>)"
    using same_chunksD(2)[OF same] by (simp add: server_ok_def)
  show "full_board env (r, w\<lparr>db := serves env q (db w)\<rparr>) = full_board env (r, w)"
    using same_chunksD(1)[OF same] by (simp add: full_board_def)
qed

text \<open>
  A handler works within a budget: what it did to the database is a list of limiter calls at the
  times it read from the clock, which granted the player at least \<open>k\<close> tokens.
\<close>

definition charges :: "('r, 'n) Env \<Rightarrow> string \<Rightarrow> int set \<Rightarrow> int \<Rightarrow> ('r, 'n) server \<Rightarrow> ('r, 'n) server \<Rightarrow> bool" where
  "charges env p T k s s' \<longleftrightarrow>
     (\<exists>qs. (\<forall>q\<in>set qs. drains_ok q \<and> request_time q \<in> T) \<and>
        db (snd s') = fold (serves env) qs (db (snd s)) \<and>
        k \<le> run_total (serves env) (granted_player (redisClient env) p) qs (db (snd s)))"

lemma run_total_append:
  "run_total step spent (es @ fs) s = run_total step spent es s + run_total step spent fs (fold step es s)"
  by (induction es arbitrary: s) simp_all

lemma charges_none: "db (snd s') = db (snd s) \<Longrightarrow> k \<le> 0 \<Longrightarrow> charges env p T k s s'"
  unfolding charges_def by (intro exI[of _ "[]"]) simp

lemma charges_trans:
  assumes "charges env p T k s s'" "charges env p T k' s' s''"
  shows "charges env p T (k + k') s s''"
proof -
  from assms(1) obtain qs where q: "\<forall>q\<in>set qs. drains_ok q \<and> request_time q \<in> T"
    "db (snd s') = fold (serves env) qs (db (snd s))"
    "k \<le> run_total (serves env) (granted_player (redisClient env) p) qs (db (snd s))"
    unfolding charges_def by blast
  from assms(2) obtain qs' where q': "\<forall>q\<in>set qs'. drains_ok q \<and> request_time q \<in> T"
    "db (snd s'') = fold (serves env) qs' (db (snd s'))"
    "k' \<le> run_total (serves env) (granted_player (redisClient env) p) qs' (db (snd s'))"
    unfolding charges_def by blast
  show ?thesis
    unfolding charges_def
    by (intro exI[of _ "qs @ qs'"]) (use q q' in \<open>auto simp: run_total_append\<close>)
qed

lemma charges_mono: "charges env p T k s s' \<Longrightarrow> k' \<le> k \<Longrightarrow> T \<subseteq> T' \<Longrightarrow> charges env p T' k' s s'"
  unfolding charges_def by (meson order_trans subsetD)

lemma charges_db: "charges env p T k s s' \<Longrightarrow> db (snd s'') = db (snd s') \<Longrightarrow> charges env p T k s s''"
  by (simp add: charges_def)

lemma granted_player_nonneg:
  assumes "serving c d" "drains_ok q"
  shows "0 \<le> granted_player c p q d"
proof -
  have ok: "redis_ok c" "buckets_ok c d" "table_ok (bucket_at c d)" using assms(1) by (simp_all add: serving_def)
  show ?thesis
    using serve_effect(2)[OF ok(1,2), of q p] serve_abs_ok(2)[OF ok(3) assms(2)] by (auto split: if_splits)
qed

lemma charges_one:
  assumes "drains_ok q" "request_time q \<in> T"
    and "db (snd s') = serves env q (db (snd s))"
    and "k \<le> granted_player (redisClient env) p q (db (snd s))"
  shows "charges env p T k s s'"
  unfolding charges_def by (intro exI[of _ "[q]"]) (use assms in simp)

lemma run_granted_nonneg:
  assumes "serving (redisClient env) d" "\<forall>q\<in>set qs. drains_ok q"
  shows "0 \<le> run_total (serves env) (granted_player (redisClient env) p) qs d"
  using assms by (induction qs arbitrary: d) (simp_all add: granted_player_nonneg serve_serving)

lemma charges_other: "server_ok env s \<Longrightarrow> charges env p' T k s s' \<Longrightarrow> charges env p T 0 s s'"
  unfolding charges_def by (metis run_granted_nonneg server_okD(4))

lemma checkRateLimit_effect:
  assumes ok: "server_ok env s" and run: "checkRateLimit env p cl now s = (s', allowed)"
  shows "server_ok env s'" "full_board env s' = full_board env s" "fst s' = fst s" "subs (snd s') = subs (snd s)"
    "now \<in> T \<Longrightarrow> charges env p T (if allowed then 1 else 0) s s'"
proof -
  obtain r w where s: "s = (r, w)" by fastforce
  obtain d res where a: "AllowMutation (redisClient env) p now (db w) = (d, res)" by fastforce
  have d: "d = serves env (Mutate p now) (db w)" by (simp add: a split: sum.split)
  have s': "fst s' = r" "subs (snd s') = subs w" "db (snd s') = d" "allowed \<longleftrightarrow> res = Inr True"
    using run by (auto simp: checkRateLimit_def s a split: sum.splits if_splits)
  note serve = server_serve[OF ok[unfolded s], of "Mutate p now", folded d]
  show "server_ok env s'" "full_board env s' = full_board env s"
    using serve server_cong[of s' "(r, w\<lparr>db := d\<rparr>)" env] s' by (simp_all add: s drains_ok_def)
  show "fst s' = fst s" "subs (snd s') = subs (snd s)" using s' s by simp_all
  have "(if allowed then 1 else 0) \<le> granted_player (redisClient env) p (Mutate p now) (db w)"
    using granted_player_nonneg[OF server_okD(4)[OF ok], of "Mutate p now" p] s'(4)
    by (auto simp: s granted_player_def a drains_ok_def)
  then show "now \<in> T \<Longrightarrow> charges env p T (if allowed then 1 else 0) s s'"
    using charges_one[of "Mutate p now" T s'] s' by (simp add: s drains_ok_def d)
qed

lemma chargeN_effect:
  assumes "server_ok env s" and "chargeN env p cl clock n s = (s', allowed)"
  shows "server_ok env s' \<and> full_board env s' = full_board env s \<and> fst s' = fst s \<and> subs (snd s') = subs (snd s) \<and>
    (range clock \<subseteq> T \<longrightarrow> charges env p T (if allowed then int n else 0) s s')"
  using assms
proof (induction n arbitrary: s clock)
  case 0
  then show ?case by (simp add: charges_none)
next
  case (Suc n)
  obtain s1 b where c: "checkRateLimit env p cl (clock 0) s = (s1, b)" by fastforce
  note one = checkRateLimit_effect[OF Suc.prems(1) c]
  show ?case
  proof (cases b)
    case False
    then have "s' = s1" "\<not> allowed" using Suc.prems(2) c by simp_all
    then show ?thesis using one(1-4) one(5)[of T] False by auto
  next
    case True
    then have rec: "chargeN env p cl (clock \<circ> Suc) n s1 = (s', allowed)" using Suc.prems(2) c by simp
    have "range (clock \<circ> Suc) \<subseteq> range clock" by auto
    moreover have "charges env p T 1 s s1 \<Longrightarrow> charges env p T (if allowed then int n else 0) s1 s' \<Longrightarrow>
        charges env p T (if allowed then int (Suc n) else 0) s s'"
      by (drule (1) charges_trans) (auto intro: charges_mono)
    ultimately show ?thesis
      using Suc.IH[OF one(1) rec] one True by (auto simp: subset_iff)
  qed
qed

section \<open>Spawning on the board\<close>

lemma spawnWorldCell_effect:
  assumes "reg_wf r" "load_ok (registry_config env) w"
  shows "reg_wf (spawnWorldCell env w xy r)"
    and "board (spawnWorldCell env w xy r) \<union> cold_cells (registry_config env) w (spawnWorldCell env w xy r) =
      board r \<union> cold_cells (registry_config env) w r \<union> {world_cell xy}"
proof -
  let ?cfg = "registry_config env"
  obtain cx lx where x: "worldToChunkLocal (fst xy) = (cx, lx)" by fastforce
  obtain cy ly where y: "worldToChunkLocal (snd xy) = (cy, ly)" by fastforce
  obtain a r' where g: "GetOrCreate ?cfg w (ChunkID cx cy) r = (a, r')" by fastforce
  note wf = GetOrCreate_wf[OF assms, of "ChunkID cx cy", unfolded g fst_conv snd_conv]
  have eq: "spawnWorldCell env w xy r = ProcessSpawn a lx ly r'"
    by (simp add: spawnWorldCell_def x y g)
  show "reg_wf (spawnWorldCell env w xy r)"
    unfolding eq by (rule ProcessSpawn_wf[OF wf(1) reg_wfD(3)[OF wf]])
  have cell: "gcell (ChunkID cx cy) (unat lx, unat ly) = world_cell xy"
    using worldToChunkLocal_coord(3)[OF x] worldToChunkLocal_coord(3)[OF y] by (simp add: gcell_def world_cell_def)
  have "board (ProcessSpawn a lx ly r') = board r' \<union> {world_cell xy}"
    using board_ProcessSpawn[OF wf] worldToChunkLocal_coord(2)[OF x] worldToChunkLocal_coord(2)[OF y] cell by simp
  then show "board (spawnWorldCell env w xy r) \<union> cold_cells ?cfg w (spawnWorldCell env w xy r) =
      board r \<union> cold_cells ?cfg w r \<union> {world_cell xy}"
    using full_board_GetOrCreate[OF assms, of "ChunkID cx cy"] unfolding eq g by auto
qed

interpretation router_sink:
  cell_sink "\<lambda>r. reg_wf r \<and> load_ok (registry_config env) w" "spawnWorldCell env w" "\<lambda>xy. Some (world_cell xy)"
    "\<lambda>r. board r \<union> cold_cells (registry_config env) w r"
  for env w
  by unfold_locales (simp_all add: spawnWorldCell_effect)

lemma spawn_cells_simps [simp]:
  "snd (spawn_cells env cells s) = snd s"
  by (simp add: spawn_cells_def split: prod.splits)

lemma spawn_cells_effect:
  assumes "server_ok env s"
  shows "server_ok env (spawn_cells env cells s)"
    and "full_board env (spawn_cells env cells s) = full_board env s \<union> world_cell ` set cells"
proof -
  obtain r w where s: "s = (r, w)" by fastforce
  note ok = server_okD[OF assms, unfolded s, simplified]
  show "server_ok env (spawn_cells env cells s)"
    using router_sink.fold_inv[of r env w cells] ok by (simp add: s spawn_cells_def server_ok_def)
  show "full_board env (spawn_cells env cells s) = full_board env s \<union> world_cell ` set cells"
    using router_sink.cells_fold[of r env w cells] ok by (auto simp: s spawn_cells_def full_board_def)
qed

section \<open>What a message asks for, and whether it is granted\<close>

definition requested :: "IncomingMessage \<Rightarrow> (i64 \<times> i64) list" where
  "requested msg =
     (if inType msg = ''SPAWN'' then
        (case recode decode_SpawnCommand (SpawnCommand 0 0) (inPayload msg) of
           None \<Rightarrow> [] | Some cmd \<Rightarrow> [(spawnX cmd, spawnY cmd)])
      else if inType msg = ''PLACE_SHAPE'' then
        (case recode decode_PlaceShapeCommand (PlaceShapeCommand 0 0 []) (inPayload msg) of
           None \<Rightarrow> []
         | Some cmd \<Rightarrow>
             (case GetShape (shapeName cmd) of
                None \<Rightarrow> [] | Some cells \<Rightarrow> map (\<lambda>c. (shapeX cmd + offX c, shapeY cmd + offY c)) cells))
      else if inType msg = ''PLACE_CUSTOM'' then
        (case recode decode_PlaceCustomCommand (PlaceCustomCommand 0 0 nil_slice) (inPayload msg) of
           None \<Rightarrow> []
         | Some cmd \<Rightarrow>
             (case ValidateCustomCells (elements (customCells cmd)) of
                Inl e \<Rightarrow> [] | Inr cells \<Rightarrow> map (\<lambda>c. (customX cmd + cellX c, customY cmd + cellY c)) cells))
      else [])"

text \<open>The cells the text of a message asks for.\<close>

definition wire_cells :: "string \<Rightarrow> (i64 \<times> i64) list" where
  "wire_cells txt =
     (case Option.bind (parse_json txt) (decode_IncomingMessage (IncomingMessage [] ANil)) of None \<Rightarrow> [] | Some msg \<Rightarrow> requested msg)"

text \<open>The limiter's verdict: one token for a cell, one for each cell of a shape, a drain for a custom piece.\<close>

definition granted ::
  "('r, 'n) Env \<Rightarrow> string \<Rightarrow> IncomingMessage \<Rightarrow> client \<Rightarrow> (nat \<Rightarrow> int) \<Rightarrow> ('r, 'n) server \<Rightarrow> bool" where
  "granted env p msg cl clock s =
     (if inType msg = ''SPAWN'' then snd (checkRateLimit env p cl (clock 0) s)
      else if inType msg = ''PLACE_SHAPE'' then snd (chargeN env p cl clock (length (requested msg)) s)
      else if inType msg = ''PLACE_CUSTOM'' then
        (let n = length (requested msg); wanted = (if 50 < n then n + 25 else n)
         in case snd (DrainN (redisClient env) p (clock 0) (int wanted) (db (snd s))) of
              Inl e \<Rightarrow> False | Inr consumed \<Rightarrow> consumed \<noteq> 0)
      else False)"

text \<open>The effect every handler has: the invariant, the board, and the limiter calls it made.\<close>

definition handled ::
  "('r, 'n) Env \<Rightarrow> string \<Rightarrow> int set \<Rightarrow> (i64 \<times> i64) list \<Rightarrow> int \<Rightarrow> ('r, 'n) server \<Rightarrow> ('r, 'n) server \<Rightarrow> bool" where
  "handled env p T cells k s s' \<longleftrightarrow>
     server_ok env s' \<and> full_board env s' = full_board env s \<union> world_cell ` set cells \<and> charges env p T k s s'"

lemma handled_none:
  "server_ok env s \<Longrightarrow> fst s' = fst s \<Longrightarrow> subs (snd s') = subs (snd s) \<Longrightarrow> db (snd s') = db (snd s) \<Longrightarrow> k \<le> 0 \<Longrightarrow>
   handled env p T [] k s s'"
  using server_cong[of s' s env] by (simp add: handled_def charges_none)

lemma parsePayload_None: "recode dec zero payload = None \<Longrightarrow>
    parsePayload env cl dec zero payload s = (sendError env cl ''INVALID_PAYLOAD'' ''Malformed payload'' s, None)"
  by (simp add: parsePayload_def)

lemma parsePayload_Some: "recode dec zero payload = Some cmd \<Longrightarrow> parsePayload env cl dec zero payload s = (s, Some cmd)"
  by (simp add: parsePayload_def)

lemma Route_SPAWN_effect:
  assumes ok: "server_ok env s" and ty: "inType msg = ''SPAWN''" and T: "range clock \<subseteq> T"
  shows "handled env p T (if granted env p msg cl clock s then requested msg else [])
    (if granted env p msg cl clock s then 1 else 0) s (Route env p msg cl clock s)"
proof -
  obtain s1 b where c: "checkRateLimit env p cl (clock 0) s = (s1, b)" by fastforce
  note one = checkRateLimit_effect[OF ok c]
  have g: "granted env p msg cl clock s = b" by (simp add: granted_def ty c)
  have "clock 0 \<in> T" using T by auto
  then have ch: "charges env p T (if b then 1 else 0) s s1" by (rule one(5))
  show ?thesis
  proof (cases b)
    case False
    then show ?thesis using one ch by (simp add: handled_def Route_def Route_SPAWN_def ty c g)
  next
    case True
    show ?thesis
    proof (cases "recode decode_SpawnCommand (SpawnCommand 0 0) (inPayload msg)")
      case None
      then have "Route env p msg cl clock s = sendError env cl ''INVALID_PAYLOAD'' ''Malformed payload'' s1"
        using True by (simp add: Route_def Route_SPAWN_def ty c parsePayload_None)
      then show ?thesis
        using one ch True None by (simp add: handled_def g requested_def ty charges_db)
    next
      case (Some cmd)
      then have "Route env p msg cl clock s = send env cl (OutgoingMessage ''SPAWN_ACK'' (OfSpawn cmd))
          (spawn_cells env [(spawnX cmd, spawnY cmd)] s1)"
        using True by (simp add: Route_def Route_SPAWN_def ty c parsePayload_Some)
      then show ?thesis
        using one ch True Some spawn_cells_effect[OF one(1), of "[(spawnX cmd, spawnY cmd)]"]
        by (simp add: handled_def g requested_def ty charges_db)
    qed
  qed
qed

lemma Route_PLACE_SHAPE_effect:
  assumes ok: "server_ok env s" and ty: "inType msg = ''PLACE_SHAPE''" and T: "range clock \<subseteq> T"
  shows "handled env p T (if granted env p msg cl clock s then requested msg else [])
    (if granted env p msg cl clock s then int (length (requested msg)) else 0) s (Route env p msg cl clock s)"
proof (cases "recode decode_PlaceShapeCommand (PlaceShapeCommand 0 0 []) (inPayload msg)")
  case None
  then have "requested msg = []" by (simp add: requested_def ty)
  then show ?thesis
    using handled_none[OF ok] None by (simp add: Route_def Route_PLACE_SHAPE_def ty parsePayload_None)
next
  case (Some cmd)
  show ?thesis
  proof (cases "GetShape (shapeName cmd)")
    case None
    then have "requested msg = []" using Some by (simp add: requested_def ty)
    then show ?thesis
      using handled_none[OF ok] None Some by (simp add: Route_def Route_PLACE_SHAPE_def ty parsePayload_Some)
  next
    case (Some cells)
    let ?cells = "map (\<lambda>c. (shapeX cmd + offX c, shapeY cmd + offY c)) cells"
    have req: "requested msg = ?cells"
      using Some \<open>recode _ _ _ = Some cmd\<close> by (simp add: requested_def ty)
    obtain s1 b where c: "chargeN env p cl clock (length cells) s = (s1, b)" by fastforce
    note charge = chargeN_effect[OF ok c, of T]
    have ch: "charges env p T (if b then int (length cells) else 0) s s1" using charge T by blast
    have g: "granted env p msg cl clock s = b" by (simp add: granted_def ty req c)
    have "Route env p msg cl clock s =
        (if b then send env cl (OutgoingMessage ''PLACE_SHAPE_ACK'' (OfPlaceShape cmd)) (spawn_cells env ?cells s1) else s1)"
      using Some \<open>recode _ _ _ = Some cmd\<close>
      by (simp add: Route_def Route_PLACE_SHAPE_def ty parsePayload_Some c split: bool.split)
    then show ?thesis
      using charge ch spawn_cells_effect[of env s1 ?cells] by (auto simp: handled_def g req charges_db)
  qed
qed

lemma validate_nonempty: "ValidateCustomCells cells = Inr out \<Longrightarrow> out \<noteq> []"
proof -
  assume v: "ValidateCustomCells cells = Inr out"
  then have "cells \<noteq> []" "out = firsts cells {}"
    by (auto simp: ValidateCustomCells_def validate_loop split: if_splits)
  then show ?thesis by (cases cells) simp_all
qed

lemma placed_custom_effect:
  assumes ok: "server_ok env s" and ty: "inType msg = ''PLACE_CUSTOM''" and T: "range clock \<subseteq> T"
    and cmd: "recode decode_PlaceCustomCommand (PlaceCustomCommand 0 0 nil_slice) (inPayload msg) = Some cmd"
    and Inr: "ValidateCustomCells (elements (customCells cmd)) = Inr cells"
  shows "handled env p T (if granted env p msg cl clock s then requested msg else [])
    (if granted env p msg cl clock s \<and> requested msg \<noteq> [] then 1 else 0) s (Route env p msg cl clock s)"
proof -
  let ?cells = "map (\<lambda>c. (customX cmd + cellX c, customY cmd + cellY c)) cells"
  let ?n = "int (tokens_wanted cells)"
  have t0: "clock 0 \<in> T" using T by auto
  have req: "requested msg = ?cells" using Inr cmd by (simp add: requested_def ty)
  have n: "0 < length cells" "0 < tokens_wanted cells"
    using validate_nonempty[OF Inr] by (simp_all add: tokens_wanted_def)
  obtain r w where s: "s = (r, w)" by fastforce
  obtain d res where dr: "DrainN (redisClient env) p (clock 0) ?n (db w) = (d, res)" by fastforce
  let ?q = "Drain p (clock 0) ?n"
  have d: "serves env ?q (db w) = d" by (simp add: dr)
  have q: "drains_ok ?q" by (simp add: drains_ok_def)
  note serve = server_serve[OF ok[unfolded s] q, unfolded d]
  have "(if 50 < length cells then length cells + 25 else length cells) = tokens_wanted cells"
    by (simp add: tokens_wanted_def LargeCustomThreshold_def LargeCustomPenalty_def)
  then have g: "granted env p msg cl clock s \<longleftrightarrow> (\<exists>k. res = Inr k \<and> k \<noteq> 0)"
    by (simp add: granted_def ty req Let_def s dr split: sum.split)
  have pay: "(if granted env p msg cl clock s \<and> requested msg \<noteq> [] then 1 else 0)
      \<le> granted_player (redisClient env) p ?q (db w)"
    using granted_player_nonneg[OF server_okD(4)[OF ok] q, of p] g
    by (auto simp: s granted_player_def dr split: if_splits)
  have ch: "db (snd s') = d \<Longrightarrow>
      charges env p T (if granted env p msg cl clock s \<and> requested msg \<noteq> [] then 1 else 0) s s'" for s'
    using charges_one[OF q, of T s'] t0 pay d by (simp add: s)
  have "Route env p msg cl clock s =
      (if granted env p msg cl clock s
       then send env cl (OutgoingMessage ''PLACE_CUSTOM_ACK'' (OfPlaceCustom cmd))
              (spawn_cells env ?cells (r, w\<lparr>db := d\<rparr>))
       else if \<exists>e. res = Inl e
       then sendError env cl ''INTERNAL_ERROR'' ''Rate limiter unavailable'' (r, w\<lparr>db := d\<rparr>)
       else sendError env cl ''RATE_LIMITED'' busy_message (r, w\<lparr>db := d\<rparr>))"
    using n by (simp add: Route_def Route_PLACE_CUSTOM_def ty parsePayload_Some[OF cmd] Inr s dr g[unfolded s] split: sum.split)
  then show ?thesis
    using serve ch spawn_cells_effect[OF serve(1), of ?cells]
    by (auto simp: handled_def req s[symmetric])
qed

lemma Route_PLACE_CUSTOM_effect:
  assumes ok: "server_ok env s" and ty: "inType msg = ''PLACE_CUSTOM''" and T: "range clock \<subseteq> T"
  shows "handled env p T (if granted env p msg cl clock s then requested msg else [])
    (if granted env p msg cl clock s \<and> requested msg \<noteq> [] then 1 else 0) s (Route env p msg cl clock s)"
proof (cases "recode decode_PlaceCustomCommand (PlaceCustomCommand 0 0 nil_slice) (inPayload msg)")
  case None
  then have "requested msg = []" by (simp add: requested_def ty)
  then show ?thesis
    using handled_none[OF ok] None by (simp add: Route_def Route_PLACE_CUSTOM_def ty parsePayload_None)
next
  case (Some cmd)
  show ?thesis
  proof (cases "ValidateCustomCells (elements (customCells cmd))")
    case (Inl e)
    then have "requested msg = []" using Some by (simp add: requested_def ty)
    then show ?thesis
      using handled_none[OF ok] Inl Some by (simp add: Route_def Route_PLACE_CUSTOM_def ty parsePayload_Some)
  qed (rule placed_custom_effect[OF ok ty T Some])
qed

section \<open>Subscriptions\<close>

lemma server_subs:
  "server_ok env (r, w) \<Longrightarrow> pubsub_wf ps \<Longrightarrow> server_ok env (r, w\<lparr>subs := ps\<rparr>)"
  "full_board env (r, w\<lparr>subs := ps\<rparr>) = full_board env (r, w)"
  using same_chunksD[of env w "w\<lparr>subs := ps\<rparr>"] by (simp_all add: server_ok_def full_board_def)

lemma subscribe_ref_effect:
  assumes ok: "server_ok env s"
  shows "server_ok env (subscribe_ref env cl ref s)" "full_board env (subscribe_ref env cl ref s) = full_board env s"
    "db (snd (subscribe_ref env cl ref s)) = db (snd s)"
    "subs (snd (subscribe_ref env cl ref s)) = Subscribe (ChunkID (refX ref) (refY ref)) cl (subs (snd s))"
proof -
  obtain r w where s: "s = (r, w)" by fastforce
  let ?i = "ChunkID (refX ref) (refY ref)"
  let ?w = "w\<lparr>subs := Subscribe ?i cl (subs w)\<rparr>"
  let ?r = "snd (GetOrCreate (registry_config env) ?w ?i r)"
  have w: "server_ok env (r, ?w)" "full_board env (r, ?w) = full_board env (r, w)"
    using server_subs[where r = r and w = w] ok wf_Subscribe[OF server_okD(3)[OF ok]] by (simp_all add: s)
  note wd = server_okD[OF w(1), simplified]
  have g: "server_ok env (?r, ?w)" "full_board env (?r, ?w) = full_board env (r, ?w)"
    using GetOrCreate_wf(1)[OF wd(2,6), of ?i] w(1) full_board_GetOrCreate[OF wd(2,6), of ?i]
    by (simp_all add: server_ok_def full_board_def)
  show "server_ok env (subscribe_ref env cl ref s)" "full_board env (subscribe_ref env cl ref s) = full_board env s"
    using g w by (simp_all add: subscribe_ref_def s Let_def)
  show "db (snd (subscribe_ref env cl ref s)) = db (snd s)"
    "subs (snd (subscribe_ref env cl ref s)) = Subscribe ?i cl (subs (snd s))"
    by (simp_all add: subscribe_ref_def s Let_def)
qed

lemma unsubscribe_ref_effect:
  assumes ok: "server_ok env s"
  shows "server_ok env (unsubscribe_ref cl ref s)" "full_board env (unsubscribe_ref cl ref s) = full_board env s"
    "db (snd (unsubscribe_ref cl ref s)) = db (snd s)"
    "subs (snd (unsubscribe_ref cl ref s)) = Unsubscribe (ChunkID (refX ref) (refY ref)) cl (subs (snd s))"
proof -
  obtain r w where s: "s = (r, w)" by fastforce
  have "pubsub_wf (Unsubscribe i cl (subs w))" for i
    using server_okD(3)[OF ok] by (simp add: s pubsub.wf_keep)
  then show "server_ok env (unsubscribe_ref cl ref s)" "full_board env (unsubscribe_ref cl ref s) = full_board env s"
    using server_subs[where r = r and w = w] ok by (simp_all add: s unsubscribe_ref_def)
  show "db (snd (unsubscribe_ref cl ref s)) = db (snd s)"
    "subs (snd (unsubscribe_ref cl ref s)) = Unsubscribe (ChunkID (refX ref) (refY ref)) cl (subs (snd s))"
    by (simp_all add: s unsubscribe_ref_def)
qed

lemma refs_effect:
  assumes "server_ok env s"
  shows "server_ok env (fold (subscribe_ref env cl) refs s) \<and>
      full_board env (fold (subscribe_ref env cl) refs s) = full_board env s \<and>
      db (snd (fold (subscribe_ref env cl) refs s)) = db (snd s)"
    and "server_ok env (fold (unsubscribe_ref cl) refs s) \<and>
      full_board env (fold (unsubscribe_ref cl) refs s) = full_board env s \<and>
      db (snd (fold (unsubscribe_ref cl) refs s)) = db (snd s)"
  using assms
  by (induction refs arbitrary: s) (simp_all add: subscribe_ref_effect unsubscribe_ref_effect)

text \<open>The tokens a message is sure to cost its player when it is granted.\<close>

definition price :: "IncomingMessage \<Rightarrow> int" where
  "price msg =
     (if inType msg = ''SPAWN'' then 1
      else if inType msg = ''PLACE_SHAPE'' then int (length (requested msg))
      else if requested msg = [] then 0 else 1)"

lemma Route_refs_effect:
  assumes ok: "server_ok env s" and ty: "inType msg = ''SUBSCRIBE'' \<or> inType msg = ''UNSUBSCRIBE''"
  shows "handled env p T [] 0 s (Route env p msg cl clock s)"
proof (cases "recode decode_SubscribeCommand (SubscribeCommand nil_slice) (inPayload msg)")
  case None
  then show ?thesis
    using handled_none[OF ok] ty by (auto simp: Route_def Route_SUBSCRIBE_def Route_UNSUBSCRIBE_def parsePayload_None)
next
  case (Some cmd)
  then show ?thesis
    using ty refs_effect[OF ok]
    by (auto simp: Route_def Route_SUBSCRIBE_def Route_UNSUBSCRIBE_def parsePayload_Some handled_def charges_none)
qed

lemma Route_effect:
  assumes ok: "server_ok env s" and T: "range clock \<subseteq> T"
  shows "handled env p T (if granted env p msg cl clock s then requested msg else [])
    (if granted env p msg cl clock s then price msg else 0) s (Route env p msg cl clock s)"
proof -
  consider "inType msg = ''SPAWN''" | "inType msg = ''PLACE_SHAPE''" | "inType msg = ''PLACE_CUSTOM''"
    | (refs) "inType msg = ''SUBSCRIBE'' \<or> inType msg = ''UNSUBSCRIBE''"
    | (other) "inType msg \<notin> {''SPAWN'', ''PLACE_SHAPE'', ''PLACE_CUSTOM'', ''SUBSCRIBE'', ''UNSUBSCRIBE''}"
    by blast
  then show ?thesis
  proof cases
    case 1
    then show ?thesis using Route_SPAWN_effect[OF ok 1 T, of p cl] 1 by (cases "granted env p msg cl clock s") (auto simp: price_def)
  next
    case 2
    then show ?thesis using Route_PLACE_SHAPE_effect[OF ok 2 T, of p cl] 2 by (cases "granted env p msg cl clock s") (auto simp: price_def)
  next
    case 3
    then show ?thesis using Route_PLACE_CUSTOM_effect[OF ok 3 T, of p cl] 3 by (cases "granted env p msg cl clock s") (auto simp: price_def)
  next
    case refs
    then have "\<not> granted env p msg cl clock s" by (auto simp: granted_def)
    then show ?thesis using Route_refs_effect[OF ok refs] by simp
  next
    case other
    then have "\<not> granted env p msg cl clock s" by (simp add: granted_def)
    then show ?thesis using handled_none[OF ok] other by (simp add: Route_def)
  qed
qed

end
