(* ===== verification/Gateway.thy ===== *)
theory Gateway
  imports Router_Inv
begin

text \<open>
  What the gateway promises its clients: a message places all of the cells it asked for or none, at
  a price the limiter bounds; what it cannot read changes nothing; a connection that ends leaves no
  subscription behind.
\<close>

section \<open>Coordinates\<close>

text \<open>
  C33. \<open>worldToChunkLocal\<close> is floor division by the side of a chunk, negative coordinates included: the
  chunk and the local position give the coordinate back, the local position lies in the chunk, and
  the cell of the chunk at that position is the cell of the board at that coordinate.
\<close>

theorem world_to_chunk_floor:
  "case worldToChunkLocal n of (c, l) \<Rightarrow>
     sint c = sint n div 64 \<and> int (unat l) = sint n mod 64 \<and>
     sint n = 64 * sint c + int (unat l) \<and> gcoord c (int (unat l)) = world_coord n"
proof -
  obtain c l where cl: "worldToChunkLocal n = (c, l)" by fastforce
  note f = worldToChunkLocal_coord[OF cl]
  have "int (unat l) < 64" using f(2) by linarith
  then have "sint n div 64 = sint c" "sint n mod 64 = int (unat l)" unfolding f(1) by simp_all
  then show ?thesis using f by (simp add: cl)
qed

section \<open>Demonstration state\<close>

text \<open>A server with the in-memory database and a writer that logs, used by the witnesses.\<close>

definition demo_env :: "(memory, (client \<times> OutgoingMessage) list) Env" where
  "demo_env = \<lparr>redisClient = memory_redis, WriteJSON = log_writer, order = (\<lambda>cs. cs)\<rparr>"

definition demo_server :: "(memory, (client \<times> OutgoingMessage) list) server" where
  "demo_server = start_server 2 empty_memory []"

lemma demo_env_ok [simp]: "env_ok demo_env" "redisClient demo_env = memory_redis"
  by (simp_all add: env_ok_def demo_env_def redis_ok_def)

lemma empty_memory_ok: "serving memory_redis empty_memory" "chunks_ok memory_redis empty_memory"
proof -
  have b: "bucket_at memory_redis empty_memory k = None" for k
    by (simp add: bucket_at_def memory_hash_field empty_memory_def)
  show "serving memory_redis empty_memory"
    by (simp add: serving_def redis_ok_def buckets_ok_def table_ok_def within_def b)
      (simp add: memory_hash_field empty_memory_def)
  show "chunks_ok memory_redis empty_memory"
    by (simp add: chunks_ok_def LoadChunk_def memory_redis_def empty_memory_def NewChunk_def)
qed

lemma reg_wf_start [simp]: "reg_wf (NewRegistry n (Some New))"
  by (rule reg_wf_NewRegistry) (simp add: New_def)

lemma demo_server_ok [simp]: "server_ok demo_env demo_server"
  by (simp add: server_ok_def demo_server_def start_server_def empty_memory_ok)

section \<open>Placing cells\<close>

text \<open>
  C7. Every message keeps the server's invariant, and places all or nothing: if the limiter grants it, the
  board gains exactly the cells the message asks for, at their world coordinates, and otherwise not
  a single cell changes.
\<close>

theorem route_all_or_nothing:
  assumes "server_ok env s"
  shows "server_ok env (Route env p msg cl clock s) \<and>
    full_board env (Route env p msg cl clock s) =
      full_board env s \<union> (if granted env p msg cl clock s then world_cell ` set (requested msg) else {})"
  using Route_effect[OF assms order_refl, where p = p and msg = msg and cl = cl and clock = clock] by (auto simp: handled_def)

lemma demo_spawn:
  "requested (IncomingMessage ''SPAWN'' ANil) = [(0, 0)]"
  "granted demo_env ''bob'' (IncomingMessage ''SPAWN'' ANil) 4 (\<lambda>_. 7) demo_server"
proof -
  have "recode decode_SpawnCommand (SpawnCommand 0 0) ANil = Some (SpawnCommand 0 0)"
    by (simp add: recode_printable decode_SpawnCommand_def decode_struct_def)
  then show "requested (IncomingMessage ''SPAWN'' ANil) = [(0, 0)]" by (simp add: requested_def)
  show "granted demo_env ''bob'' (IncomingMessage ''SPAWN'' ANil) 4 (\<lambda>_. 7) demo_server"
    by (simp add: granted_def checkRateLimit_def demo_server_def start_server_def AllowMutation_def
        memory_redis_def luaTokenBucket_def check_and_decrement_def lua_refill_def Let_def empty_memory_def
        write_bucket_def player_key_def global_key_def)
qed

theorem route_all_or_nothing_witness:
  "full_board demo_env (Route demo_env ''bob'' (IncomingMessage ''SPAWN'' ANil) 4 (\<lambda>_. 7) demo_server) =
     full_board demo_env demo_server \<union> {(0, 0)}"
  using route_all_or_nothing[OF demo_server_ok, of "''bob''" "IncomingMessage ''SPAWN'' ANil" 4 "\<lambda>_. 7"]
  by (simp add: demo_spawn world_cell_def world_coord_def)

text \<open>The cells a list of messages places for a player by the commands that charge one token for each cell.\<close>

definition paid_cells :: "IncomingMessage \<Rightarrow> nat" where
  "paid_cells msg = (if inType msg = ''PLACE_CUSTOM'' then 0 else length (requested msg))"

fun placed_by ::
  "('r, 'n) Env \<Rightarrow> string \<Rightarrow> (string \<times> client \<times> IncomingMessage \<times> (nat \<Rightarrow> int)) list \<Rightarrow> ('r, 'n) server \<Rightarrow> nat" where
  "placed_by env p [] s = 0"
| "placed_by env p ((p', cl, msg, clock) # ms) s =
     (if p' = p \<and> granted env p' msg cl clock s then paid_cells msg else 0) +
     placed_by env p ms (Route env p' msg cl clock s)"

lemma paid_cells_price: "int (paid_cells msg) \<le> price msg"
  by (auto simp: paid_cells_def price_def requested_def split: option.splits sum.splits)

lemma placed_by_charges:
  assumes "server_ok env s" "\<forall>(p', cl, msg, clock)\<in>set ms. range clock \<subseteq> T"
  shows "\<exists>s'. charges env p T (int (placed_by env p ms s)) s s'"
  using assms
proof (induction ms arbitrary: s)
  case Nil
  then show ?case by (intro exI[of _ s] charges_none) simp_all
next
  case (Cons m ms)
  obtain p' cl msg clock where m: "m = (p', cl, msg, clock)" by (cases m) auto
  let ?s1 = "Route env p' msg cl clock s"
  have T: "range clock \<subseteq> T" using Cons.prems(2) m by simp
  note eff = Route_effect[OF Cons.prems(1) T, of p' msg cl]
  have ok: "server_ok env ?s1" using eff by (simp add: handled_def)
  obtain s' where s': "charges env p T (int (placed_by env p ms ?s1)) ?s1 s'"
    using Cons.IH[OF ok] Cons.prems(2) by auto
  have "charges env p T (int (if p' = p \<and> granted env p' msg cl clock s then paid_cells msg else 0)) s ?s1"
  proof (cases "p' = p \<and> granted env p' msg cl clock s")
    case True
    then have "charges env p T (price msg) s ?s1" using eff by (auto simp: handled_def)
    then show ?thesis using charges_mono[OF _ paid_cells_price subset_refl, of env p T msg s ?s1] True by auto
  next
    case False
    have "charges env p' T (if granted env p' msg cl clock s then price msg else 0) s ?s1"
      using eff by (simp add: handled_def)
    from charges_other[OF Cons.prems(1) this, of p] False show ?thesis by auto
  qed
  from charges_trans[OF this s'] have "charges env p T (int (placed_by env p (m # ms) s)) s s'"
    unfolding m placed_by.simps of_nat_add .
  then show ?case by (rule exI)
qed

text \<open>
  C17. However many connections send however many messages, the cells a player places by \<open>SPAWN\<close> and
  \<open>PLACE_SHAPE\<close> within a window of \<open>T1 - T0\<close> seconds are at most 50 plus 5 for each second.
\<close>

theorem player_cells_bound:
  assumes "server_ok env s" "T0 \<le> T1"
    and "\<forall>(p', cl, msg, clock)\<in>set ms. range clock \<subseteq> {T0..T1}"
  shows "int (placed_by env p ms s) \<le> 50 + 5 * (T1 - T0)"
proof -
  note ok = server_okD(4)[OF assms(1)]
  obtain qs where "\<forall>q\<in>set qs. drains_ok q \<and> request_time q \<in> {T0..T1}"
    and k: "int (placed_by env p ms s) \<le> run_total (serves env) (granted_player (redisClient env) p) qs (db (snd s))"
    using placed_by_charges[OF assms(1,3), of p] unfolding charges_def by blast
  then have "\<forall>q\<in>set qs. timely T0 T1 q" by (auto simp: timely_def)
  then have "run_total (serves env) (granted_player (redisClient env) p) qs (db (snd s))
      \<le> worth 50 5 T0 T1 (bucket_at (redisClient env) (db (snd s)) (player_key p))"
    by (intro player_budget.total_le) (use ok assms(2) in auto)
  also have "\<dots> \<le> 50 + 5 * (T1 - T0)"
    by (rule worth_window) (use ok assms(2) in \<open>auto simp: serving_def table_ok_def\<close>)
  finally show ?thesis using k by linarith
qed

theorem player_cells_bound_witness:
  "int (placed_by demo_env ''bob'' [(''bob'', 4, IncomingMessage ''SPAWN'' ANil, \<lambda>_. 7)] demo_server) \<le> 50 \<and>
   placed_by demo_env ''bob'' [(''bob'', 4, IncomingMessage ''SPAWN'' ANil, \<lambda>_. 7)] demo_server = 1"
  using player_cells_bound[OF demo_server_ok, of 7 7 "[(''bob'', 4, IncomingMessage ''SPAWN'' ANil, \<lambda>_. 7)]" "''bob''"]
  by (simp add: demo_spawn paid_cells_def)







section \<open>Messages\<close>

text \<open>
  A coordinate of magnitude at most \<open>2 ^ 53\<close> that a client writes in a message arrives as it was written, through the double it is held in and the text it is printed to in between.
\<close>

theorem spawn_payload_exact:
  assumes "\<bar>x\<bar> \<le> 2 ^ 53" "\<bar>y\<bar> \<le> 2 ^ 53"
  shows "Option.bind (any_of (JObj [(''x'', JNum (dec_int x)), (''y'', JNum (dec_int y))]))
      (recode decode_SpawnCommand (SpawnCommand 0 0)) = Some (SpawnCommand (word_of_int x) (word_of_int y))"
proof -
  obtain f where f: "ParseFloat (dec_int x) = Some f" "format_float f = dec_int x"
    using small_integer_exact[OF assms(1)] by blast
  obtain g where g: "ParseFloat (dec_int y) = Some g" "format_float g = dec_int y"
    using small_integer_exact[OF assms(2)] by blast
  have int64: "ParseInt 64 (dec_int i) = Some i" if "\<bar>i\<bar> \<le> 2 ^ 53" for i
    by (rule ParseInt_dec) (use that in auto)
  let ?j = "JObj [(''x'', JNum (dec_int x)), (''y'', JNum (dec_int y))]"
  have "json_of (AObj [(''x'', ANum f), (''y'', ANum g)]) = ?j" by (simp add: f g)
  moreover have "printable ?j" "fits 0 ?j"
    by (simp_all add: number_literal_dec plain_char_def maxNestingDepth_def)
  moreover have "decode_SpawnCommand (SpawnCommand 0 0) ?j = Some (SpawnCommand (word_of_int x) (word_of_int y))"
    using int64 assms by (simp add: decode_SpawnCommand_def decode_struct_def find_field_def decode_int64_def)
  ultimately show ?thesis by (simp add: f g recode_printable)
qed

theorem spawn_payload_exact_witness:
  "Option.bind (any_of (JObj [(''x'', JNum (dec_int (- 65))), (''y'', JNum (dec_int 9007199254740992))]))
     (recode decode_SpawnCommand (SpawnCommand 0 0)) = Some (SpawnCommand (- 65) 9007199254740992)"
  using spawn_payload_exact[of "- 65" 9007199254740992] by simp

lemma big_literals:
  "ParseFloat ''9007199254740993'' = Some (Float False 4503599627370496 1)"
  "ParseFloat ''9007199254740992'' = Some (Float False 4503599627370496 1)"
proof -
  have "literal_parts ''9007199254740993'' = (False, 9007199254740993, 0)"
    "literal_parts ''9007199254740992'' = (False, 9007199254740992, 0)"
    by (simp_all add: literal_parts_def is_digit_def digits_value_def)
  moreover have "bit_length 9007199254740993 = 54" "bit_length 9007199254740992 = 54" "bit_length (Suc 0) = 1"
    by (simp_all add: bit_length.simps)
  then have "round_float 9007199254740993 1 = Some (4503599627370496, 1)"
    "round_float 9007199254740992 1 = Some (4503599627370496, 1)"
    by (simp_all add: round_float_def floor_log2_def scale2_def div_half_even_def Let_def)
  ultimately show "ParseFloat ''9007199254740993'' = Some (Float False 4503599627370496 1)"
    "ParseFloat ''9007199254740992'' = Some (Float False 4503599627370496 1)"
    by (simp_all add: ParseFloat_def)
qed

lemma dec_big: "dec_int 9007199254740992 = ''9007199254740992''"
  by (simp add: dec_int_def dec_nat.simps char_of_def bit_0)

lemma big_format: "format_float (Float False 4503599627370496 1) = dec_int 9007199254740992"
  using small_integer_exact[of 9007199254740992] by (simp add: dec_big big_literals)

text \<open>
  From \<open>2 ^ 53\<close> on a coordinate can arrive changed: the message asks for 9007199254740993 and the
  command holds 9007199254740992, so the cell beside the one asked for is spawned.
\<close>

theorem big_coordinate_moves:
  "Option.bind (any_of (JObj [(''x'', JNum ''9007199254740993'')]))
     (recode decode_SpawnCommand (SpawnCommand 0 0)) = Some (SpawnCommand 9007199254740992 0)"
proof -
  let ?j = "JObj [(''x'', JNum (dec_int 9007199254740992))]"
  have "json_of (AObj [(''x'', ANum (Float False 4503599627370496 1))]) = ?j" by (simp add: big_format)
  moreover have "printable ?j" "fits 0 ?j"
    by (simp_all add: number_literal_dec plain_char_def maxNestingDepth_def)
  moreover have "ParseInt 64 (dec_int 9007199254740992) = Some 9007199254740992" by (rule ParseInt_dec) simp_all
  then have "decode_SpawnCommand (SpawnCommand 0 0) ?j = Some (SpawnCommand 9007199254740992 0)"
    by (simp add: decode_SpawnCommand_def decode_struct_def find_field_def decode_int64_def)
  ultimately show ?thesis by (simp add: big_literals recode_printable)
qed

section \<open>Subscriptions and the connection\<close>

lemma Snapshot_nonempty: "wf_rows (rows ch) \<Longrightarrow> live (rows ch) \<noteq> {} \<Longrightarrow> length (Snapshot ch) > 0"
  using set_RowsToOffsets[of "rows ch"] by (auto simp: Snapshot_def Rows_def)

lemma peek_sees_cells:
  assumes ok: "server_ok env (r, w)" and i: "i \<notin> fst ` set (chunks r)" and cells: "full_board env (r, w) \<inter> area i \<noteq> {}"
  shows "length (PeekChunk (registry_config env) w i r) > 0"
proof -
  let ?cfg = "registry_config env"
  note wd = server_okD[OF ok, simplified]
  have "cells_of j (rows (GetOrCreate_load ?cfg w j)) \<inter> area i = {}" if "j \<noteq> i" for j
    using cells_of_area[of "rows (GetOrCreate_load ?cfg w j)" j] wd(6) area_disjoint[OF that]
    by (auto simp: load_ok_def)
  then have "cold_cells ?cfg w r \<inter> area i \<subseteq> cells_of i (rows (GetOrCreate_load ?cfg w i))"
    unfolding cold_cells_def by fastforce
  then have "cells_of i (rows (GetOrCreate_load ?cfg w i)) \<noteq> {}"
    using cells board_area_inactive[OF wd(2) i] by (auto simp: full_board_def)
  then have live: "live (rows (GetOrCreate_load ?cfg w i)) \<noteq> {}" by (simp add: cells_of_def)
  have none: "map_of (chunks r) i = None" using i by (simp add: map_of_eq_None_iff)
  have zero: "live (rows (NewChunk (idX i) (idY i))) = {}" by (simp add: NewChunk_def zero_rows_iff)
  obtain ch where ch: "LoadChunk (redisClient env) i (db w) = Inr (Some ch)"
    using live zero by (auto simp: GetOrCreate_load_config split: sum.splits option.splits)
  then have "length (Snapshot ch) > 0"
    using live LoadChunk_wf[OF ch] by (intro Snapshot_nonempty) (simp_all add: GetOrCreate_load_config)
  then show ?thesis using ch by (simp add: PeekChunk_def none registry_config_def)
qed

definition active_chunks :: "('r, 'n) server \<Rightarrow> ChunkID set" where
  "active_chunks s = fst ` set (chunks (fst s))"

lemma subscribe_ref_chunks:
  assumes "server_ok env s"
  shows "active_chunks s \<subseteq> active_chunks (subscribe_ref env cl ref s)"
    and "full_board env s \<inter> area (ChunkID (refX ref) (refY ref)) \<noteq> {} \<Longrightarrow>
      ChunkID (refX ref) (refY ref) \<in> active_chunks (subscribe_ref env cl ref s)"
proof -
  obtain r w where s: "s = (r, w)" by fastforce
  let ?i = "ChunkID (refX ref) (refY ref)"
  let ?w = "w\<lparr>subs := Subscribe ?i cl (subs w)\<rparr>"
  show "active_chunks s \<subseteq> active_chunks (subscribe_ref env cl ref s)"
    using GetOrCreate_frame(4)[of "registry_config env" ?w ?i r] by (auto simp: active_chunks_def s subscribe_ref_def Let_def)
  assume cells: "full_board env s \<inter> area ?i \<noteq> {}"
  have w: "server_ok env (r, ?w)" "full_board env (r, ?w) = full_board env (r, w)"
    using server_subs[where r = r and w = w] assms wf_Subscribe[OF server_okD(3)[OF assms]] by (simp_all add: s)
  show "?i \<in> active_chunks (subscribe_ref env cl ref s)"
  proof (cases "?i \<in> fst ` set (chunks r)")
    case True
    then show ?thesis
      using GetOrCreate_frame(4)[of "registry_config env" ?w ?i r] by (auto simp: active_chunks_def s subscribe_ref_def Let_def)
  next
    case False
    then have "length (PeekChunk (registry_config env) ?w ?i r) > 0"
      by (rule peek_sees_cells[OF w(1)]) (use cells w(2) s in simp)
    then show ?thesis
      using GetOrCreate_frame(4)[of "registry_config env" ?w ?i r] by (simp add: active_chunks_def s subscribe_ref_def Let_def)
  qed
qed

definition ref_id :: "ChunkRef \<Rightarrow> ChunkID" where
  "ref_id ref = ChunkID (refX ref) (refY ref)"

lemma subscribe_refs:
  assumes "server_ok env s"
  shows "watching (subs (snd (fold (subscribe_ref env cl) refs s))) = watching (subs (snd s)) \<union> ref_id ` set refs \<times> {cl} \<and>
    active_chunks s \<subseteq> active_chunks (fold (subscribe_ref env cl) refs s) \<and>
    (\<forall>ref\<in>set refs. full_board env s \<inter> area (ref_id ref) \<noteq> {} \<longrightarrow>
       ref_id ref \<in> active_chunks (fold (subscribe_ref env cl) refs s))"
  using assms
proof (induction refs arbitrary: s)
  case (Cons ref refs)
  let ?s1 = "subscribe_ref env cl ref s"
  note eff = subscribe_ref_effect[OF Cons.prems, where cl = cl and ref = ref] and ch = subscribe_ref_chunks[OF Cons.prems, where cl = cl and ref = ref]
  have "watching (subs (snd ?s1)) = insert (ref_id ref, cl) (watching (subs (snd s)))"
    using pubsub.watchers_sub[OF server_okD(3)[OF Cons.prems]] by (simp add: eff(4) ref_id_def)
  then show ?case
    using Cons.IH[OF eff(1)] ch unfolding eff(2) ref_id_def[symmetric] by (simp add: insert_commute) blast
qed simp

text \<open>
  C19. After \<open>SUBSCRIBE\<close> the client watches exactly the chunks it did before and those it named, nobody
  else's subscriptions change, no cell appears or disappears, and every named chunk that holds a live
  cell, in memory or only in storage, is active, so it takes part in the next tick.
\<close>

theorem subscribe_wakes_chunks:
  fixes p :: string and cl :: client and clock :: "nat \<Rightarrow> int"
  assumes "server_ok env s" and "inType msg = ''SUBSCRIBE''"
    and "recode decode_SubscribeCommand (SubscribeCommand nil_slice) (inPayload msg) = Some cmd"
  defines "s' \<equiv> Route env p msg cl clock s"
  shows "watching (subs (snd s')) = watching (subs (snd s)) \<union> ref_id ` set (elements (subChunks cmd)) \<times> {cl} \<and>
    full_board env s' = full_board env s \<and> active_chunks s \<subseteq> active_chunks s' \<and>
    (\<forall>ref\<in>set (elements (subChunks cmd)). full_board env s \<inter> area (ref_id ref) \<noteq> {} \<longrightarrow> ref_id ref \<in> active_chunks s')"
proof -
  have "s' = fold (subscribe_ref env cl) (elements (subChunks cmd)) s"
    using assms(2,3) by (simp add: s'_def Route_def Route_SUBSCRIBE_def parsePayload_Some)
  then show ?thesis
    using subscribe_refs[OF assms(1)] refs_effect(1)[OF assms(1)] by simp
qed

definition subscribe_message :: IncomingMessage where
  "subscribe_message = IncomingMessage ''SUBSCRIBE'' (AObj [(''chunks'', AArr [AObj []])])"

lemma decode_subscribe_message:
  "recode decode_SubscribeCommand (SubscribeCommand nil_slice) (inPayload subscribe_message) =
     Some (SubscribeCommand (Slice [ChunkRef 0 0] 1))"
proof -
  let ?j = "JObj [(''chunks'', JArr [JObj []])]"
  have "json_of (inPayload subscribe_message) = ?j" by (simp add: subscribe_message_def)
  moreover have "printable ?j" "fits 0 ?j" by (simp_all add: plain_char_def maxNestingDepth_def)
  ultimately show ?thesis
    by (simp add: recode_printable decode_SubscribeCommand_def decode_struct_def find_field_def
        decode_slice_def decode_ChunkRef_def nil_slice_def)
qed

theorem subscribe_wakes_chunks_witness:
  "watching (subs (snd (Route demo_env ''bob'' subscribe_message 4 (\<lambda>_. 7) demo_server))) = {(ChunkID 0 0, 4)}"
  using subscribe_wakes_chunks[OF demo_server_ok _ decode_subscribe_message, of "''bob''" 4 "\<lambda>_. 7"]
  by (simp add: subscribe_message_def elements_def ref_id_def demo_server_def start_server_def)

lemma Route_subs:
  assumes "server_ok env s" "inType msg \<notin> {''SUBSCRIBE'', ''UNSUBSCRIBE''}"
  shows "subs (snd (Route env p msg cl clock s)) = subs (snd s)"
proof -
  have rate: "subs (snd (fst (checkRateLimit env p cl now s))) = subs (snd s)" for now
    using checkRateLimit_effect(4)[OF assms(1)] by (metis prod.collapse)
  have charge: "subs (snd (fst (chargeN env p cl clock n s))) = subs (snd s)" for n
    using chargeN_effect[OF assms(1)] by (metis prod.collapse)
  have spawn: "subs (snd (Route_SPAWN env p pl cl clock s)) = subs (snd s)" for pl
  proof -
    obtain s1 b where c: "checkRateLimit env p cl (clock 0) s = (s1, b)" by fastforce
    then have "subs (snd s1) = subs (snd s)" using rate[of "clock 0"] by simp
    then show ?thesis by (simp add: Route_SPAWN_def c parsePayload_def split: bool.split option.split)
  qed
  have shape: "subs (snd (Route_PLACE_SHAPE env p pl cl clock s)) = subs (snd s)" for pl
  proof -
    have "subs (snd (case chargeN env p cl clock (length cells) s of
            (s2, False) \<Rightarrow> s2 | (s2, True) \<Rightarrow> send env cl m (spawn_cells env cs s2))) = subs (snd s)"
      for cells :: "off list" and m cs
      using charge[of "length cells"] by (cases "chargeN env p cl clock (length cells) s") (simp split: bool.split)
    then show ?thesis by (simp add: Route_PLACE_SHAPE_def parsePayload_def split: option.split)
  qed
  have custom: "subs (snd (Route_PLACE_CUSTOM env p pl cl clock s)) = subs (snd s)" for pl
    by (cases s) (simp add: Route_PLACE_CUSTOM_def parsePayload_def split: option.split sum.split prod.split)
  show ?thesis using assms(2) spawn shape custom by (simp add: Route_def)
qed

definition others :: "client \<Rightarrow> ('r, 'n) server \<Rightarrow> (ChunkID \<times> client) set" where
  "others cl s = watching (subs (snd s)) - UNIV \<times> {cl}"

lemma refs_others:
  assumes "server_ok env s"
  shows "others cl (fold (subscribe_ref env cl) refs s) = others cl s"
    and "others cl (fold (unsubscribe_ref cl) refs s) = others cl s"
proof -
  show "others cl (fold (subscribe_ref env cl) refs s) = others cl s"
    using subscribe_refs[OF assms, of cl refs] by (auto simp: others_def)
  show "others cl (fold (unsubscribe_ref cl) refs s) = others cl s"
    using assms
  proof (induction refs arbitrary: s)
    case (Cons ref refs)
    have "others cl (unsubscribe_ref cl ref s) = others cl s"
      using pubsub.watchers_unsub[OF server_okD(3)[OF Cons.prems]]
      by (auto simp: others_def unsubscribe_ref_effect(4)[OF Cons.prems])
    then show ?case using Cons.IH[OF unsubscribe_ref_effect(1)[OF Cons.prems]] by simp
  qed simp
qed

lemma Route_others:
  assumes ok: "server_ok env s"
  shows "others cl (Route env p msg cl clock s) = others cl s"
proof -
  consider (subscribe) "inType msg = ''SUBSCRIBE''" | (unsubscribe) "inType msg = ''UNSUBSCRIBE''"
    | (neither) "inType msg \<notin> {''SUBSCRIBE'', ''UNSUBSCRIBE''}" by blast
  then show ?thesis
  proof cases
    case subscribe
    then show ?thesis
      using refs_others(1)[OF ok]
      by (simp add: Route_def Route_SUBSCRIBE_def parsePayload_def others_def split: option.split)
  next
    case unsubscribe
    then show ?thesis
      using refs_others(2)[OF ok]
      by (simp add: Route_def Route_UNSUBSCRIBE_def parsePayload_def others_def split: option.split)
  next
    case neither
    then show ?thesis by (simp add: others_def Route_subs[OF ok neither])
  qed
qed

lemma handle_message_effect:
  assumes "server_ok env s"
  shows "server_ok env (handle_message env p cl m s) \<and> others cl (handle_message env p cl m s) = others cl s \<and>
    full_board env s \<subseteq> full_board env (handle_message env p cl m s)"
proof (cases "Option.bind (parse_json (fst m)) (decode_IncomingMessage (IncomingMessage [] ANil))")
  case None
  then show ?thesis using assms by (simp add: handle_message_def others_def)
next
  case (Some msg)
  then show ?thesis
    using Route_effect[OF assms order_refl, where p = p and msg = msg and cl = cl and clock = "snd m"]
      Route_others[OF assms, of cl p msg "snd m"]
    by (simp add: handle_message_def handled_def)
qed

lemma messages_effect:
  assumes "server_ok env s"
  shows "server_ok env (fold (handle_message env p cl) ms s) \<and> others cl (fold (handle_message env p cl) ms s) = others cl s \<and>
    full_board env s \<subseteq> full_board env (fold (handle_message env p cl) ms s)"
  using assms
proof (induction ms arbitrary: s)
  case (Cons m ms)
  then show ?case using handle_message_effect[OF Cons.prems, of p cl m] by fastforce
qed simp

lemma connection_effect:
  fixes p :: string and cl :: client and messages :: "(string \<times> (nat \<Rightarrow> int)) list"
  assumes "server_ok env s"
  defines "s' \<equiv> close_connection cl (fold (handle_message env p cl) messages s)"
  shows "watching (subs (snd s')) = others cl s \<and> server_ok env s' \<and> full_board env s \<subseteq> full_board env s'"
proof -
  obtain r w where s1: "fold (handle_message env p cl) messages s = (r, w)" by fastforce
  have ok: "server_ok env (r, w)" "others cl (r, w) = others cl s" "full_board env s \<subseteq> full_board env (r, w)"
    using messages_effect[OF assms(1), of p cl messages] by (simp_all add: s1)
  have wf: "pubsub_wf (subs w)" using server_okD(3)[OF ok(1)] by simp
  have s': "s' = (r, w\<lparr>subs := UnsubscribeAll cl (subs w)\<rparr>)"
    by (simp add: s'_def close_connection_def s1)
  have "watching (subs (snd s')) = others cl (r, w)"
    by (simp add: s' pubsub.watchers_drop[OF wf] others_def)
  moreover have "server_ok env s' \<and> full_board env s' = full_board env (r, w)"
    using server_subs[where r = r and w = w] ok(1) pubsub.wf_keep[OF wf] by (simp add: s')
  ultimately show ?thesis using ok(2,3) by simp
qed

text \<open>
  C18. A connection cleans up after itself: a request that the library refuses to upgrade changes nothing. Otherwise,
  whatever bytes arrive, once the connection ends the client watches
  nothing, the subscriptions of all other clients are as they were, no live cell has been removed,
  and the server's invariant holds. Where the request comes from makes no difference to whether it is accepted.
\<close>

theorem connection_cleanup:
  fixes Upgrade :: "(Request \<Rightarrow> bool) \<Rightarrow> Request \<Rightarrow> string option" and r :: Request and cl :: client and messages :: "(string \<times> (nat \<Rightarrow> int)) list"
  assumes "server_ok env s"
  defines "s' \<equiv> HandleWebSocket env Upgrade r cl messages s"
  shows "(if Upgrade (\<lambda>_. True) r = None
      then watching (subs (snd s')) = watching (subs (snd s)) - UNIV \<times> {cl} \<and> full_board env s \<subseteq> full_board env s'
      else s' = s) \<and> server_ok env s'"
proof -
  have "CheckOrigin = (\<lambda>_. True)" by (simp add: CheckOrigin_def fun_eq_iff)
  then show ?thesis
    using connection_effect[OF assms(1), of cl "RemoteAddr r" messages] assms(1)
    by (auto simp: s'_def HandleWebSocket_def others_def)
qed

theorem connection_cleanup_witness:
  "watching (subs (snd (HandleWebSocket demo_env (\<lambda>check r. if check r then None else Some ''bad origin'')
       \<lparr>RemoteAddr = ''10.0.0.7:5000'', Origin = ''http://example.org''\<rparr> 4 [(''{'', \<lambda>_. 7), (''[]'', \<lambda>_. 8)]
     (fst demo_server, (snd demo_server)\<lparr>subs := Subscribe (ChunkID 0 0) 4 (NewPubSub (Some New))\<rparr>)))) = {}"
proof -
  let ?s = "(fst demo_server, (snd demo_server)\<lparr>subs := Subscribe (ChunkID 0 0) 4 (NewPubSub (Some New))\<rparr>)"
  have "server_ok demo_env ?s"
    using server_subs(1)[of demo_env "fst demo_server" "snd demo_server"] by (simp add: wf_Subscribe)
  then show ?thesis
    using connection_cleanup[of demo_env ?s "\<lambda>check r. if check r then None else Some ''bad origin''"
        "\<lparr>RemoteAddr = ''10.0.0.7:5000'', Origin = ''http://example.org''\<rparr>" 4 "[(''{'', \<lambda>_. 7), (''[]'', \<lambda>_. 8)]"]
    by (auto simp: pubsub.watchers_sub)
qed




end
