(* ===== verification/World_Invariant.thy ===== *)
theory World_Invariant
  imports Tick
begin

text \<open>
  What a tick does to the world behind the callbacks of the registry, and to the idle counters. The
  contract of the callbacks is a locale: a property of the world that announcing a chunk and
  persisting an empty chunk both keep is kept by the whole tick.
\<close>

locale world_invariant =
  fixes cfg :: "'w RegistryConfig" and keeps :: "'w \<Rightarrow> bool"
  assumes announce: "keeps w \<Longrightarrow> keeps (after_tick_world cfg i rs w)"
    and persist: "keeps w \<Longrightarrow> keeps (persisted_world cfg \<lparr>ID = i, rows = zero_rows\<rparr> w)"
begin

lemma processJob_world:
  assumes "reg_wf r" "(i, state job) \<in> set (chunks r)" "keeps w"
    and "processJob cfg job zero_scratch (r, w) = (sc', r', w')"
  shows "keeps w'"
proof -
  note w1 = announce[OF assms(3), of i "next_rows i job"]
  show ?thesis using assms(4) w1 persist[OF w1, of i] unfolding processJob_cases[OF assms(1,2)] by (auto split: if_splits)
qed

text \<open>A job of a chunk that stays empty and that nobody watches counts one more idle tick, if the chunk survives.\<close>

lemma processJob_idle:
  assumes r: "reg_wf r" and e: "(i, state job) \<in> set (chunks r)" and w: "keeps w"
    and empty: "next_rows i job = zero_rows" and lone: "\<And>w. keeps w \<Longrightarrow> \<not> watched cfg i w"
    and res: "processJob cfg job zero_scratch (r, w) = (sc', r', w')" and stay: "i \<in> fst ` set (chunks r')"
  shows "sint (idleTicks (heap r' ! state job)) = sint (idleTicks (heap r ! state job)) + 1"
proof -
  let ?a = "state job"
  have a: "?a < length (heap r)" using reg_wfD(3)[OF r e] .
  have idle: "0 \<le> sint (idleTicks (heap r ! ?a))" "sint (idleTicks (heap r ! ?a)) < 100"
    using r e by (auto simp: reg_wf_def entry_ok_def)
  have inc: "sint (idleTicks (heap r ! ?a) + 1) = sint (idleTicks (heap r ! ?a)) + 1"
    using sint_small[of "idleTicks (heap r ! ?a)" 1] idle by simp
  have "\<not> watched cfg i (after_tick_world cfg i (next_rows i job) w)" by (rule lone[OF announce[OF w]])
  then have "r' = update_state ?a (idleTicks_update (\<lambda>n. n + 1)) (stored i job r) \<or>
      r' = update_state ?a (idleTicks_update (\<lambda>n. n + 1)) (evict i (stored i job r))"
    using res empty unfolding processJob_cases[OF r e] by (auto split: if_splits)
  then show ?thesis using a inc by (auto simp: heap_update_state heap_stored)
qed

definition idled :: "ChunkID \<Rightarrow> tickJob \<Rightarrow> Registry \<Rightarrow> Registry \<Rightarrow> bool" where
  "idled i job r r' \<longleftrightarrow>
     (next_rows i job = zero_rows \<longrightarrow> (\<forall>w. keeps w \<longrightarrow> \<not> watched cfg i w) \<longrightarrow> i \<in> fst ` set (chunks r') \<longrightarrow>
      sint (idleTicks (heap r' ! state job)) = sint (idleTicks (heap r ! state job)) + 1)"

lemma runWorker_step_world:
  assumes r: "reg_wf r" and e: "(i, state job) \<in> set (chunks r)" and k: "k < length (workers r)" and w: "keeps w"
    and res: "runWorker_step cfg (k, job) (r, w) = (r', w')"
  shows "keeps w'" and "b \<noteq> state job \<Longrightarrow> heap r' ! b = heap r ! b" and "idled i job r r'"
proof -
  have z: "workers r ! k = zero_scratch" using r k by (simp add: reg_wf_def)
  obtain sc1 r1 w1 where p: "processJob cfg job zero_scratch (r, w) = (sc1, r1, w1)" by (metis prod_cases3)
  have "heap r' = heap r1" "chunks r' = chunks r1" "w' = w1" using res z p by (auto simp: runWorker_step_def)
  then show "keeps w'" and "b \<noteq> state job \<Longrightarrow> heap r' ! b = heap r ! b" and "idled i job r r'"
    using processJob_world[OF r e w p] processJob_effect(7)[OF r e p] processJob_idle[OF r e w _ _ p]
    by (simp_all add: idled_def)
qed

lemma run_jobs_world:
  assumes "reg_wf r" "distinct (map (\<lambda>kj. state (snd kj)) js)" "keeps w"
    and "\<And>k job. (k, job) \<in> set js \<Longrightarrow> k < length (workers r) \<and> (f (state job), state job) \<in> set (chunks r)"
    and "fold (runWorker_step cfg) js (r, w) = (r', w')"
  shows "keeps w' \<and> (\<forall>b. b \<notin> (\<lambda>kj. state (snd kj)) ` set js \<longrightarrow> heap r' ! b = heap r ! b) \<and>
    (\<forall>kj\<in>set js. idled (f (state (snd kj))) (snd kj) r r')"
  using assms
proof (induction js arbitrary: r w)
  case Nil
  then show ?case by simp
next
  case (Cons kj js)
  obtain k job where kj: "kj = (k, job)" by (cases kj)
  let ?i = "f (state job)"
  have e: "(?i, state job) \<in> set (chunks r)" and k: "k < length (workers r)"
    using Cons.prems(4)[of k job] by (simp_all add: kj)
  obtain r1 w1 where s: "runWorker_step cfg (k, job) (r, w) = (r1, w1)" by (metis prod.exhaust)
  note eff = runWorker_step_effect[OF Cons.prems(1) e k s] and world = runWorker_step_world[OF Cons.prems(1) e k Cons.prems(3) s]
  have d: "distinct (map (\<lambda>kj. state (snd kj)) js)" "state job \<notin> (\<lambda>kj. state (snd kj)) ` set js"
    using Cons.prems(2) by (simp_all add: kj)
  have mem: "k' < length (workers r1) \<and> (f (state job'), state job') \<in> set (chunks r1)"
    if "(k', job') \<in> set js" for k' job'
  proof -
    have e': "(f (state job'), state job') \<in> set (chunks r)" "k' < length (workers r)"
      using Cons.prems(4)[of k' job'] that by simp_all
    have "state job' \<noteq> state job" using d(2) that by force
    from other_job_stays[OF Cons.prems(1) e k s e'(1) this] show ?thesis using e'(2) eff(2) by simp
  qed
  have run: "fold (runWorker_step cfg) js (r1, w1) = (r', w')" using Cons.prems(5) s by (simp add: kj)
  note IH = Cons.IH[OF eff(1) d(1) world(1) mem run]
  have mono: "set (chunks r') \<subseteq> set (chunks r1)" using run_jobs[OF eff(1) d(1) mem run] by blast
  have keep: "heap r' ! state job = heap r1 ! state job" using IH d(2) by blast
  have "idled ?i job r r'" using world(3) mono by (auto simp: idled_def keep)
  moreover have "idled (f (state (snd kj'))) (snd kj') r r'" if "kj' \<in> set js" for kj'
  proof -
    have "state (snd kj') \<noteq> state job" using d(2) that by force
    then show ?thesis using IH that world(2) by (simp add: idled_def)
  qed
  ultimately show ?case using IH world(2) by (simp add: kj)
qed

text \<open>The whole tick: the world, and the idle counter of an active chunk that stays empty and unwatched.\<close>

lemma TickAll_world:
  assumes r: "reg_wf r" and load: "load_ok cfg w" and w: "keeps w"
    and sched: "valid_schedule (length (workers r)) sched"
    and res: "TickAll cfg cancelled sched (r, w) = (r', w')"
  shows "keeps w'"
    and "cold_cells cfg w r = {} \<Longrightarrow> \<not> cancelled i \<Longrightarrow> (i, a) \<in> set (chunks r) \<Longrightarrow> i \<in> fst ` set (chunks r') \<Longrightarrow>
      life_step (board r) \<inter> area i = {} \<Longrightarrow> (\<And>w. keeps w \<Longrightarrow> \<not> watched cfg i w) \<Longrightarrow>
      (i, a) \<in> set (chunks r') \<and> sint (idleTicks (heap r' ! a)) = sint (idleTicks (heap r ! a)) + 1"
proof -
  obtain jobs r1 where p: "TickAll_prepare cfg cancelled (r, w) = (jobs, r1)" by (metis prod.exhaust)
  note prep = TickAll_prepare_effect[OF r load p]
  have run: "fold (runWorker_step cfg) (sched jobs) (r1, w) = (r', w')" using res by (simp add: TickAll_def p)
  define f where "f a = ID (chunk_at r1 a)" for a
  have fid: "f a = j" if "(j, a) \<in> set (chunks r1)" for j a
    unfolding f_def by (rule reg_wfD(4)[OF prep(1) that])
  have act: "\<forall>job\<in>set jobs. (f (state job), state job) \<in> set (chunks r1)"
    using fid by (auto simp: prep(6) job_for_def)
  note sj = schedule_jobs[OF sched[folded prep(2)] prep(7) act]
  note jw = run_jobs_world[OF prep(1) sj(1) w sj(2) run] and pool = pool_effect[OF prep(1) sched[folded prep(2)] prep(7) act run]
  show "keeps w'" using jw by blast
  assume cold: "cold_cells cfg w r = {}" and c: "\<not> cancelled i" and a: "(i, a) \<in> set (chunks r)"
    and stay: "i \<in> fst ` set (chunks r')" and empty: "life_step (board r) \<inter> area i = {}"
    and lone: "\<And>w. keeps w \<Longrightarrow> \<not> watched cfg i w"
  have a1: "(i, a) \<in> set (chunks r1)" using a prep(3) by blast
  let ?job = "job_for r r1 i a"
  have job: "?job \<in> set jobs" using a1 c unfolding prep(6) by blast
  have st: "state ?job = a" by (simp add: job_for_def)
  have "cells_of i (next_rows i ?job) = {}"
    using pool(4)[OF job] TickAll_board(3)[OF r load cold sched res, of i] c empty fid[OF a1] st by simp
  then have "live (next_rows i ?job) = {}" by (simp add: cells_of_def)
  then have z: "next_rows i ?job = zero_rows" by (simp add: zero_rows_iff next_rows_def wf_simps)
  obtain k where "(k, ?job) \<in> set (sched jobs)" using sj(3)[OF job] by blast
  from bspec[OF jw[THEN conjunct2, THEN conjunct2] this] have "idled i ?job r1 r'"
    unfolding snd_conv st fid[OF a1] .
  then have "sint (idleTicks (heap r' ! a)) = sint (idleTicks (heap r1 ! a)) + 1"
    using z lone stay by (simp add: idled_def st)
  moreover have "heap r1 ! a = heap r ! a" using TickAll_prepare_heap[OF r load p] reg_wfD(3)[OF r a] by blast
  moreover have "(i, a) \<in> set (chunks r')"
  proof -
    obtain b where b: "(i, b) \<in> set (chunks r')" using stay by force
    then have "(i, b) \<in> set (chunks r1)" using pool(3) by blast
    then show ?thesis using b a1 prep(1) by (metis map_of_chunks option.inject)
  qed
  ultimately show "(i, a) \<in> set (chunks r') \<and> sint (idleTicks (heap r' ! a)) = sint (idleTicks (heap r ! a)) + 1" by simp
qed

end

text \<open>
  What a tick adds to a log that the world keeps: if announcing a chunk appends what depends on the chunk and its
  rows, and persisting one appends nothing, the tick appends the announcement of every active chunk, once each, with the rows
  of the next generation.
\<close>

locale world_log = world_invariant cfg keeps
  for cfg :: "'w RegistryConfig" and keeps :: "'w \<Rightarrow> bool" +
  fixes log :: "'w \<Rightarrow> 'm list" and said :: "ChunkID \<Rightarrow> rows \<Rightarrow> 'm list"
  assumes announce_log: "keeps w \<Longrightarrow> log (after_tick_world cfg i rs w) = log w @ said i rs"
    and persist_log: "keeps w \<Longrightarrow> log (persisted_world cfg \<lparr>ID = i, rows = zero_rows\<rparr> w) = log w"
begin

lemma runWorker_step_log:
  assumes r: "reg_wf r" and e: "(i, state job) \<in> set (chunks r)" and k: "k < length (workers r)" and w: "keeps w"
    and res: "runWorker_step cfg (k, job) (r, w) = (r', w')"
  shows "log w' = log w @ said i (next_rows i job)"
proof -
  have z: "workers r ! k = zero_scratch" using r k by (simp add: reg_wf_def)
  show ?thesis
    using res announce_log[OF w, of i "next_rows i job"] persist_log[OF announce[OF w, of i "next_rows i job"], of i]
    unfolding runWorker_step_def by (auto simp: z processJob_cases[OF r e] split: if_splits)
qed

lemma run_jobs_log:
  assumes "reg_wf r" "distinct (map (\<lambda>kj. state (snd kj)) js)" "keeps w"
    and "\<And>k job. (k, job) \<in> set js \<Longrightarrow> k < length (workers r) \<and> (f (state job), state job) \<in> set (chunks r)"
    and "fold (runWorker_step cfg) js (r, w) = (r', w')"
  shows "log w' = log w @ concat (map (\<lambda>kj. said (f (state (snd kj))) (next_rows (f (state (snd kj))) (snd kj))) js)"
  using assms
proof (induction js arbitrary: r w)
  case (Cons kj js)
  obtain k job where kj: "kj = (k, job)" by (cases kj)
  have e: "(f (state job), state job) \<in> set (chunks r)" and k: "k < length (workers r)"
    using Cons.prems(4)[of k job] by (simp_all add: kj)
  obtain r1 w1 where s: "runWorker_step cfg (k, job) (r, w) = (r1, w1)" by (metis prod.exhaust)
  note eff = runWorker_step_effect[OF Cons.prems(1) e k s]
  have "k' < length (workers r1) \<and> (f (state job'), state job') \<in> set (chunks r1)" if "(k', job') \<in> set js" for k' job'
  proof -
    have e': "(f (state job'), state job') \<in> set (chunks r)" "k' < length (workers r)"
      using Cons.prems(4)[of k' job'] that by simp_all
    have "state job' \<noteq> state job" using Cons.prems(2) that by (force simp: kj)
    from other_job_stays[OF Cons.prems(1) e k s e'(1) this] show ?thesis using e'(2) eff(2) by simp
  qed
  moreover have "fold (runWorker_step cfg) js (r1, w1) = (r', w')" using Cons.prems(5) s by (simp add: kj)
  ultimately show ?case
    using Cons.IH[OF eff(1) _ runWorker_step_world(1)[OF Cons.prems(1) e k Cons.prems(3) s]] Cons.prems(2)
      runWorker_step_log[OF Cons.prems(1) e k Cons.prems(3) s] by (simp add: kj)
qed simp

lemma TickAll_log:
  assumes r: "reg_wf r" and load: "load_ok cfg w" and w: "keeps w" and cold: "cold_cells cfg w r = {}"
    and sched: "valid_schedule (length (workers r)) sched" and res: "TickAll cfg (\<lambda>_. False) sched (r, w) = (r', w')"
  shows "\<exists>ks rs. distinct ks \<and> set ks = fst ` set (chunks (snd (TickAll_prepare cfg (\<lambda>_. False) (r, w)))) \<and>
    (\<forall>i\<in>set ks. wf_rows (rs i) \<and> cells_of i (rs i) = life_step (board r) \<inter> area i) \<and>
    log w' = log w @ concat (map (\<lambda>i. said i (rs i)) ks)"
proof -
  obtain jobs r1 where p: "TickAll_prepare cfg (\<lambda>_. False) (r, w) = (jobs, r1)" by (metis prod.exhaust)
  note prep = TickAll_prepare_effect[OF r load p] and keys = scheduled_keys[OF r load p sched[folded TickAll_prepare_effect(2)[OF r load p]]]
  have run: "fold (runWorker_step cfg) (sched jobs) (r1, w) = (r', w')" using res by (simp add: TickAll_def p)
  let ?key = "\<lambda>kj :: nat \<times> tickJob. ID (chunk_at r1 (state (snd kj)))"
  let ?rows = "\<lambda>i. next_rows i (job_for r r1 i (the (map_of (chunks r1) i)))"
  have "\<forall>job\<in>set jobs. (ID (chunk_at r1 (state job)), state job) \<in> set (chunks r1)"
    using reg_wfD(4)[OF prep(1)] by (auto simp: prep(6) job_for_def)
  note sj = schedule_jobs[OF sched[folded prep(2)] prep(7), of "\<lambda>a. ID (chunk_at r1 a)", OF this]
  have "wf_rows (?rows i) \<and> cells_of i (?rows i) = life_step (board r) \<inter> area i" if "i \<in> fst ` set (chunks r1)" for i
  proof -
    obtain a where a: "(i, a) \<in> set (chunks r1)" using \<open>i \<in> _\<close> by force
    then have "map_of (chunks r1) i = Some a" using map_of_chunks[OF prep(1)] by blast
    then show ?thesis using dispatched_next(2)[OF r load cold p a] by (simp add: next_rows_def wf_simps)
  qed
  moreover have "next_rows (?key kj) (snd kj) = ?rows (?key kj)" if "kj \<in> set (sched jobs)" for kj
    using keys(1)[OF that] map_of_chunks[OF prep(1)] by (metis option.sel)
  then have "log w' = log w @ concat (map (\<lambda>i. said i (?rows i)) (map ?key (sched jobs)))"
    using run_jobs_log[OF prep(1) sj(1) w sj(2) run] by (simp add: comp_def cong: map_cong)
  ultimately show ?thesis
    unfolding p snd_conv using keys(2,3) by (intro exI[of _ "map ?key (sched jobs)"] exI[of _ ?rows]) simp
qed

end

end
