(* ===== verification/System.thy ===== *)
theory System
  imports Gateway World_Invariant
begin

text \<open>
  The server as a whole: a state machine whose steps are the messages of the clients, the end of a
  connection, the tick of \<^verbatim>\<open>main.go\<close>'s loop and a restart of the process over the same database. A
  handler runs as one step between ticks; what interleaving with a tick does to a spawn is a
  theorem of \<^verbatim>\<open>Tick\<close>.
\<close>

section \<open>The world between ticks\<close>

text \<open>A chunk without cells is what the storage engine answers for a key it does not know.\<close>

definition only_empty :: "'r redis \<Rightarrow> 'r \<Rightarrow> bool" where
  "only_empty c d \<longleftrightarrow> redis_engine.holds c (\<lambda>i ch. ch = \<lparr>ID = i, rows = zero_rows\<rparr>) d"

lemma only_emptyD:
  assumes "only_empty c d"
  shows "LoadChunk c i d = Inr (Some ch) \<Longrightarrow> ch = \<lparr>ID = i, rows = zero_rows\<rparr>" and "chunks_ok c d"
proof -
  have *: "\<forall>i ch. LoadChunk c i d = Inr (Some ch) \<longrightarrow> ch = \<lparr>ID = i, rows = zero_rows\<rparr>"
    using assms by (simp add: only_empty_def redis_engine.holds_def)
  then show "LoadChunk c i d = Inr (Some ch) \<Longrightarrow> ch = \<lparr>ID = i, rows = zero_rows\<rparr>" by blast
  show "chunks_ok c d" using * by (force simp: chunks_ok_def)
qed

lemma only_empty_cold:
  assumes "only_empty (redisClient env) (db w)"
  shows "cold_cells (registry_config env) w r = {}"
proof -
  have "rows (GetOrCreate_load (registry_config env) w i) = zero_rows" for i
    using only_emptyD(1)[OF assms, of i] by (auto simp: GetOrCreate_load_config NewChunk_def split: sum.splits option.splits)
  then show ?thesis by (simp add: cold_cells_def cells_of_def)
qed

definition world_ok :: "('r, 'n) Env \<Rightarrow> ('r, 'n) World \<Rightarrow> bool" where
  "world_ok env w \<longleftrightarrow> env_ok env \<and> pubsub_wf (subs w) \<and> serving (redisClient env) (db w) \<and>
     only_empty (redisClient env) (db w)"

lemma SaveChunk_serving:
  assumes "redis_frame_laws c" "serving c r"
  shows "serving c (fst (SaveChunk c ch r))"
proof -
  let ?r = "fst (SaveChunk c ch r)" and ?k = "chunkKey (ID ch)"
  have own: "(\<forall>f. hash_field c ?r ?k f = None) \<or> (\<forall>f. hash_field c ?r ?k f = hash_field c r ?k f)"
    and other: "k \<noteq> ?k \<Longrightarrow> hash_field c ?r k f = hash_field c r k f" for k f
    using assms(1) by (simp_all add: redis_frame_laws_def SaveChunk_Set)
  have "buckets_ok c ?r"
    using assms(2) own other unfolding serving_def buckets_ok_def by metis
  moreover have "bucket_at c ?r k = bucket_at c r k" if "k \<noteq> ?k" for k
    by (simp add: bucket_at_def other[OF that] split: option.split)
  ultimately show ?thesis
    using assms(2) chunkKey_not_limiter[of "ID ch", THEN not_sym] by (simp add: serving_def table_ok_def)
qed

lemma registry_config_worlds:
  "after_tick_world (registry_config env) i rs w =
     w\<lparr>subs := fst (Broadcast (WriteJSON env) (order env) i (RowsToOffsets rs) (subs w, net w)),
       net := snd (Broadcast (WriteJSON env) (order env) i (RowsToOffsets rs) (subs w, net w))\<rparr>"
  "persisted_world (registry_config env) ch w =
     w\<lparr>db := fst (SaveChunk (redisClient env) ch (db w)), save_metrics := RedisSaveLatency_Observe (save_metrics w)\<rparr>"
  "watched (registry_config env) i w = PubSub.HasSubscribers i (subs w)"
  by (simp_all add: after_tick_world_def persisted_world_def watched_def registry_config_def split: prod.split)

lemma Broadcast_subscribers: "subscribers (fst (Broadcast W ord i cells s)) = subscribers (fst s)"
  using fold_deliver[of W _ "ord (subs_of (fst s) i)" "fst s" "snd s"] by (simp add: Broadcast_def Let_def)

lemma same_subscribers:
  assumes "subscribers ps = subscribers ps'"
  shows "pubsub_wf ps = pubsub_wf ps'" "watching ps = watching ps'"
    "PubSub.HasSubscribers i ps = PubSub.HasSubscribers i ps'"
  using assms by (simp_all add: pubsub_wf_def watching_def subs_of_def HasSubscribers_def)

interpretation server_world: world_invariant "registry_config env" "world_ok env" for env :: "('r, 'n) Env"
proof unfold_locales
  fix w :: "('r, 'n) World" and i rs
  assume w: "world_ok env w"
  show "world_ok env (after_tick_world (registry_config env) i rs w)"
    using w by (simp add: registry_config_worlds world_ok_def same_subscribers(1)[OF Broadcast_subscribers])
  have "redis_kv_laws (redisClient env)" "redis_frame_laws (redisClient env)"
    using w by (simp_all add: world_ok_def env_ok_def)
  then show "world_ok env (persisted_world (registry_config env) \<lparr>ID = i, rows = zero_rows\<rparr> w)"
    using w redis_engine.holds_save[of "redisClient env" "\<lparr>ID = i, rows = zero_rows\<rparr>"]
    by (simp add: registry_config_worlds world_ok_def only_empty_def SaveChunk_serving wf_simps)
qed

interpretation watchers_world:
  world_invariant "registry_config env" "\<lambda>w. subscribers (subs w) = S" for env :: "('r, 'n) Env" and S
  by unfold_locales (simp_all add: registry_config_worlds Broadcast_subscribers)

section \<open>The state machine\<close>

datatype ('r, 'n) action =
    Message string client "string \<times> (nat \<Rightarrow> int)"
  | Disconnect client
  | Tick "tickJob list \<Rightarrow> (nat \<times> tickJob) list"
  | Restart nat 'n

definition tick :: "('r, 'n) Env \<Rightarrow> (tickJob list \<Rightarrow> (nat \<times> tickJob) list) \<Rightarrow> ('r, 'n) server \<Rightarrow> ('r, 'n) server" where
  "tick env = TickAll (registry_config env) (\<lambda>_. False)"

inductive server_step :: "('r, 'n) Env \<Rightarrow> ('r, 'n) action \<Rightarrow> ('r, 'n) server \<Rightarrow> ('r, 'n) server \<Rightarrow> bool"
  for env where
  message: "server_step env (Message p cl m) s (handle_message env p cl m s)"
| disconnect: "server_step env (Disconnect cl) s (close_connection cl s)"
| tick: "valid_schedule (length (workers (fst s))) sched \<Longrightarrow> server_step env (Tick sched) s (tick env sched s)"
| restart: "server_step env (Restart NumCPU n) s (start_server NumCPU (db (snd s)) n)"

inductive_cases server_stepE: "server_step env a s s'"

inductive reachable :: "('r, 'n) Env \<Rightarrow> ('r, 'n) server \<Rightarrow> bool" for env where
  start: "env_ok env \<Longrightarrow> serving (redisClient env) d \<Longrightarrow> only_empty (redisClient env) d \<Longrightarrow>
    reachable env (start_server NumCPU d n)"
| step: "reachable env s \<Longrightarrow> server_step env a s s' \<Longrightarrow> reachable env s'"

text \<open>The invariant: the registry is well formed and the world is as the callbacks keep it.\<close>

definition system_ok :: "('r, 'n) Env \<Rightarrow> ('r, 'n) server \<Rightarrow> bool" where
  "system_ok env s \<longleftrightarrow> reg_wf (fst s) \<and> world_ok env (snd s)"

lemma system_okD:
  assumes "system_ok env s"
  shows "server_ok env s" "reg_wf (fst s)" "world_ok env (snd s)" "load_ok (registry_config env) (snd s)"
    "cold_cells (registry_config env) (snd s) (fst s) = {}" "full_board env s = board (fst s)"
proof -
  have e: "only_empty (redisClient env) (db (snd s))" using assms by (simp add: system_ok_def world_ok_def)
  show ok: "server_ok env s"
    using assms only_emptyD(2)[OF e] by (simp add: system_ok_def world_ok_def server_ok_def)
  show "reg_wf (fst s)" "world_ok env (snd s)" using assms by (simp_all add: system_ok_def)
  show "load_ok (registry_config env) (snd s)" by (rule server_okD(6)[OF ok])
  show cold: "cold_cells (registry_config env) (snd s) (fst s) = {}" by (rule only_empty_cold[OF e])
  then show "full_board env s = board (fst s)" by (simp add: full_board_def)
qed

lemma only_empty_same: "same_chunks c d d' \<Longrightarrow> only_empty c d' = only_empty c d"
  by (simp add: same_chunks_def only_empty_def redis_engine.holds_def)

lemma fold_serves_same:
  assumes "redis_eval_laws (redisClient env)" "redis_frame_laws (redisClient env)"
  shows "same_chunks (redisClient env) d (fold (serves env) qs d)"
proof (induction qs arbitrary: d)
  case (Cons q qs)
  show ?case
    using same_chunks_trans[OF serve_same_chunks[OF assms, of d q] Cons.IH[of "serves env q d"]] by simp
qed simp

lemma system_message:
  assumes "system_ok env s"
  shows "system_ok env (handle_message env p cl m s)"
proof -
  note ok = system_okD(1)[OF assms] and laws = server_okD(7,8)[OF system_okD(1)[OF assms]]
  have s': "server_ok env (handle_message env p cl m s)"
    using handle_message_effect[OF ok] by blast
  have "same_chunks (redisClient env) (db (snd s)) (db (snd (handle_message env p cl m s)))"
  proof (cases "Option.bind (parse_json (fst m)) (decode_IncomingMessage (IncomingMessage [] ANil))")
    case None
    then show ?thesis by (simp add: handle_message_def)
  next
    case (Some msg)
    have "\<exists>k. charges env p UNIV k s (Route env p msg cl (snd m) s)"
      using Route_effect[OF ok, where p = p and msg = msg and cl = cl and clock = "snd m" and T = UNIV]
      by (auto simp: handled_def)
    then show ?thesis
      using Some fold_serves_same[OF laws] by (auto simp: handle_message_def charges_def)
  qed
  then show ?thesis
    using s' assms by (simp add: only_empty_same system_ok_def world_ok_def server_ok_def)
qed

lemma system_close: "system_ok env s \<Longrightarrow> system_ok env (close_connection cl s)"
  by (cases s) (simp add: system_ok_def world_ok_def close_connection_def pubsub.wf_keep)

lemma system_start:
  "env_ok env \<Longrightarrow> serving (redisClient env) d \<Longrightarrow> only_empty (redisClient env) d \<Longrightarrow>
   system_ok env (start_server NumCPU d n)"
  by (simp add: system_ok_def start_server_def world_ok_def)

lemma tick_effect:
  assumes "system_ok env s" "valid_schedule (length (workers (fst s))) sched"
  shows "system_ok env (tick env sched s)" "board (fst (tick env sched s)) = life_step (board (fst s))"
    "workers (fst (tick env sched s)) = workers (fst s)"
    "subscribers (subs (snd (tick env sched s))) = subscribers (subs (snd s))"
proof -
  obtain r w where s: "s = (r, w)" by fastforce
  obtain r' w' where res: "TickAll (registry_config env) (\<lambda>_. False) sched (r, w) = (r', w')" by fastforce
  note d = system_okD[OF assms(1)[unfolded s], simplified] and v = assms(2)[unfolded s, simplified]
  note t = TickAll_board[OF d(2,4,5) v res]
  show "system_ok env (tick env sched s)"
    using t(1) server_world.TickAll_world(1)[OF d(2,4,3) v res] by (simp add: tick_def s res system_ok_def)
  have "board r' = life_step (board r)" by (rule board_eqI) (use t(3) in simp)
  then show "board (fst (tick env sched s)) = life_step (board (fst s))" by (simp add: tick_def s res)
  show "workers (fst (tick env sched s)) = workers (fst s)" using t(2) by (simp add: tick_def s res)
  show "subscribers (subs (snd (tick env sched s))) = subscribers (subs (snd s))"
    using watchers_world.TickAll_world(1)[OF d(2,4) refl v res] by (simp add: tick_def s res)
qed

lemma system_step: "system_ok env s \<Longrightarrow> server_step env a s s' \<Longrightarrow> system_ok env s'"
  by (erule server_stepE)
    (auto simp: system_message system_close tick_effect(1) world_ok_def
      intro!: system_start dest!: system_okD(3))

lemma reachable_ok: "reachable env s \<Longrightarrow> system_ok env s"
  by (induction rule: reachable.induct) (auto simp: system_start intro: system_step)

section \<open>The server plays Life\<close>

text \<open>The cells a message on the wire places, and the game the players see: the effect of a step on the board.\<close>

definition placed :: "('r, 'n) Env \<Rightarrow> string \<Rightarrow> client \<Rightarrow> string \<times> (nat \<Rightarrow> int) \<Rightarrow> ('r, 'n) server \<Rightarrow> (i64 \<times> i64) list" where
  "placed env p cl m s =
     (case Option.bind (parse_json (fst m)) (decode_IncomingMessage (IncomingMessage [] ANil)) of
        None \<Rightarrow> []
      | Some msg \<Rightarrow> if granted env p msg cl (snd m) s then requested msg else [])"

primrec game :: "('r, 'n) Env \<Rightarrow> ('r, 'n) action \<Rightarrow> ('r, 'n) server \<Rightarrow> board \<Rightarrow> board" where
  "game env (Message p cl m) s B = B \<union> world_cell ` set (placed env p cl m s)"
| "game env (Disconnect cl) s B = B"
| "game env (Tick sched) s B = life_step B"
| "game env (Restart NumCPU n) s B = {}"

lemma handle_message_board:
  assumes "server_ok env s"
  shows "full_board env (handle_message env p cl m s) = full_board env s \<union> world_cell ` set (placed env p cl m s)"
proof (cases "Option.bind (parse_json (fst m)) (decode_IncomingMessage (IncomingMessage [] ANil))")
  case None
  then show ?thesis by (simp add: handle_message_def placed_def)
next
  case (Some msg)
  then show ?thesis
    using Route_effect[OF assms order_refl, where p = p and msg = msg and cl = cl and clock = "snd m"]
    by (auto simp: handle_message_def placed_def handled_def)
qed

text \<open>
  C1. The server plays Life: in every state it can reach, whatever the clients sent and however the
  workers were scheduled, a tick turns the board into its next generation, a message adds the cells
  it was granted, the end of a connection changes nothing and a restart empties the board.
\<close>

theorem server_plays_life:
  assumes "reachable env s" "server_step env a s s'"
  shows "board (fst s') = game env a s (board (fst s))"
  using assms(2)
proof (cases rule: server_step.cases)
  case (message p cl m)
  note ok = reachable_ok[OF assms(1)]
  show ?thesis
    using handle_message_board[OF system_okD(1)[OF ok], of p cl m]
      system_okD(6)[OF ok] system_okD(6)[OF system_message[OF ok]] message by simp
next
  case (disconnect cl)
  then show ?thesis by (cases s) (simp add: close_connection_def)
next
  case (tick sched)
  then show ?thesis using tick_effect(2)[OF reachable_ok[OF assms(1)]] by simp
next
  case (restart NumCPU n)
  then show ?thesis by (simp add: start_server_def)
qed

lemma demo_only_empty: "only_empty memory_redis empty_memory"
  by (simp add: only_empty_def redis_engine.holds_def LoadChunk_def memory_redis_def empty_memory_def NewChunk_def)

lemma demo_reachable: "reachable demo_env demo_server"
  unfolding demo_server_def by (rule reachable.start) (simp_all add: empty_memory_ok demo_only_empty)

lemma demo_workers: "valid_schedule (length (workers (fst demo_server))) in_order"
  by (rule in_order_valid) (simp add: demo_server_def start_server_def NewRegistry_def Let_def)

theorem server_plays_life_witness:
  "board (fst (tick demo_env in_order demo_server)) = life_step (board (fst demo_server))"
  using server_plays_life[OF demo_reachable server_step.tick[OF demo_workers]] by simp

text \<open>
  The invariant of the running server: in every state it can reach, the registry is well formed (one
  state for each active chunk, under its own identifier, with 64 rows, fewer than a hundred idle
  ticks, and the gauge equal to the number of active chunks), the scratch buffers of the workers are
  clean, no chunk has a client twice or an empty set of clients, and every bucket is within its
  capacity.
\<close>

theorem reachable_invariant:
  assumes "reachable env s"
  shows "reg_wf (fst s) \<and> pubsub_wf (subs (snd s)) \<and> table_ok (bucket_at (redisClient env) (db (snd s)))"
  using reachable_ok[OF assms] by (simp add: system_ok_def world_ok_def serving_def)



section \<open>Running undisturbed\<close>

definition valid_schedules :: "('r, 'n) server \<Rightarrow> (tickJob list \<Rightarrow> (nat \<times> tickJob) list) list \<Rightarrow> bool" where
  "valid_schedules s scheds \<longleftrightarrow> list_all (valid_schedule (length (workers (fst s)))) scheds"

lemma ticks_effect:
  assumes "system_ok env s" "valid_schedules s scheds"
  shows "system_ok env (fold (tick env) scheds s) \<and>
    board (fst (fold (tick env) scheds s)) = (life_step ^^ length scheds) (board (fst s)) \<and>
    subscribers (subs (snd (fold (tick env) scheds s))) = subscribers (subs (snd s))"
  using assms
proof (induction scheds arbitrary: s)
  case (Cons sched scheds)
  have v: "valid_schedule (length (workers (fst s))) sched" using Cons.prems(2) by (simp add: valid_schedules_def)
  note t = tick_effect[OF Cons.prems(1) v]
  have "valid_schedules (tick env sched s) scheds" using Cons.prems(2) t(3) by (simp add: valid_schedules_def)
  from Cons.IH[OF t(1) this] show ?case by (simp add: t(2,4) funpow_swap1)
qed simp

text \<open>
  Left alone, the server computes the generations of its board: after \<open>n\<close> ticks the board is the
  \<open>n\<close>-th generation, and the subscriptions are unchanged.
\<close>

theorem ticks_are_generations:
  assumes "reachable env s" "valid_schedules s scheds"
  shows "board (fst (fold (tick env) scheds s)) = (life_step ^^ length scheds) (board (fst s)) \<and>
    watching (subs (snd (fold (tick env) scheds s))) = watching (subs (snd s))"
  using ticks_effect[OF reachable_ok[OF assms(1)] assms(2)] same_subscribers(2) by blast

lemma ticks_idle:
  assumes "system_ok env s" "valid_schedules s scheds" "\<not> PubSub.HasSubscribers i (subs (snd s))"
    and "\<forall>k<length scheds. (life_step ^^ Suc k) (board (fst s)) \<inter> area i = {}"
    and "\<forall>k\<le>length scheds. i \<in> active_chunks (fold (tick env) (take k scheds) s)"
    and "(i, a) \<in> set (chunks (fst s))"
  shows "(i, a) \<in> set (chunks (fst (fold (tick env) scheds s))) \<and>
    sint (idleTicks (heap (fst (fold (tick env) scheds s)) ! a)) =
      sint (idleTicks (heap (fst s) ! a)) + int (length scheds)"
  using assms
proof (induction scheds arbitrary: s)
  case (Cons sched scheds)
  let ?s1 = "tick env sched s"
  have v: "valid_schedule (length (workers (fst s))) sched" using Cons.prems(2) by (simp add: valid_schedules_def)
  note t = tick_effect[OF Cons.prems(1) v] and d = system_okD[OF Cons.prems(1)]
  have act: "i \<in> fst ` set (chunks (fst ?s1))"
    using spec[OF Cons.prems(5), of 1] by (simp add: active_chunks_def)
  have lone: "\<And>w. subscribers (subs w) = subscribers (subs (snd s)) \<Longrightarrow> \<not> watched (registry_config env) i w"
    using Cons.prems(3) same_subscribers(3) by (metis registry_config_worlds(3))
  have empty: "life_step (board (fst s)) \<inter> area i = {}" using spec[OF Cons.prems(4), of 0] by simp
  have "TickAll (registry_config env) (\<lambda>_. False) sched (fst s, snd s) = (fst ?s1, snd ?s1)" by (simp add: tick_def)
  from watchers_world.TickAll_world(2)[OF d(2,4) refl v this d(5) _ Cons.prems(6) act empty lone]
  have one: "(i, a) \<in> set (chunks (fst ?s1))"
    "sint (idleTicks (heap (fst ?s1) ! a)) = sint (idleTicks (heap (fst s) ! a)) + 1" by simp_all
  have "valid_schedules ?s1 scheds" using Cons.prems(2) t(3) by (simp add: valid_schedules_def)
  moreover have "\<not> PubSub.HasSubscribers i (subs (snd ?s1))"
    using Cons.prems(3) same_subscribers(3)[OF t(4)] by simp
  moreover have "\<forall>k<length scheds. (life_step ^^ Suc k) (board (fst ?s1)) \<inter> area i = {}"
    using Cons.prems(4) by (force simp: t(2) funpow_swap1)
  moreover have "\<forall>k\<le>length scheds. i \<in> active_chunks (fold (tick env) (take k scheds) ?s1)"
  proof (intro allI impI)
    fix k
    assume "k \<le> length scheds"
    then show "i \<in> active_chunks (fold (tick env) (take k scheds) ?s1)"
      using spec[OF Cons.prems(5), of "Suc k"] by simp
  qed
  ultimately show ?case using Cons.IH[OF t(1) _ _ _ _ one(1)] one(2) by simp
qed simp

lemma idle_chunk_leaves:
  assumes "reachable env s" "valid_schedules s scheds" "length scheds = 100"
    and "\<forall>cl. (i, cl) \<notin> watching (subs (snd s))"
    and "\<forall>k<100. (life_step ^^ Suc k) (board (fst s)) \<inter> area i = {}"
  shows "\<exists>k\<le>100. i \<notin> active_chunks (fold (tick env) (take k scheds) s)"
proof (rule ccontr)
  assume "\<not> ?thesis"
  then have act: "\<forall>k\<le>length scheds. i \<in> active_chunks (fold (tick env) (take k scheds) s)" using assms(3) by simp
  note ok = reachable_ok[OF assms(1)]
  have "i \<in> active_chunks s" using spec[OF act, of 0] by simp
  then obtain a where a: "(i, a) \<in> set (chunks (fst s))" by (auto simp: active_chunks_def)
  have lone: "\<not> PubSub.HasSubscribers i (subs (snd s))"
    using assms(4) by (simp add: HasSubscribers_def watching_iff)
  have "\<forall>k<length scheds. (life_step ^^ Suc k) (board (fst s)) \<inter> area i = {}" using assms(3,5) by simp
  from ticks_idle[OF ok assms(2) lone this act a]
  have end': "(i, a) \<in> set (chunks (fst (fold (tick env) scheds s)))"
    "sint (idleTicks (heap (fst (fold (tick env) scheds s)) ! a)) = sint (idleTicks (heap (fst s) ! a)) + 100"
    using assms(3) by simp_all
  have "reg_wf (fst (fold (tick env) scheds s))" "reg_wf (fst s)"
    using ticks_effect[OF ok assms(2)] ok by (simp_all add: system_ok_def)
  then have "sint (idleTicks (heap (fst (fold (tick env) scheds s)) ! a)) < 100" "0 \<le> sint (idleTicks (heap (fst s) ! a))"
    using end'(1) a by (auto simp: reg_wf_def entry_ok_def)
  then show False using end'(2) by simp
qed

text \<open>
  C8. A chunk nobody needs is given up: if nobody watches a chunk and it stays without cells for a hundred
  generations, it is removed from the registry within a hundred undisturbed ticks.
\<close>

theorem idle_chunk_hibernates:
  assumes "reachable env s" "valid_schedules s scheds" "length scheds = 100"
    and "\<forall>cl. (i, cl) \<notin> watching (subs (snd s))"
    and "\<forall>k<100. (life_step ^^ Suc k) (board (fst s)) \<inter> area i = {}"
  shows "\<exists>k\<le>100. i \<notin> active_chunks (fold (tick env) (take k scheds) s)"
  by (rule idle_chunk_leaves[OF assms])

text \<open>Messages leave the worker pool alone and never remove or replace an active chunk.\<close>

definition grows :: "Registry \<Rightarrow> Registry \<Rightarrow> bool" where
  "grows r r' \<longleftrightarrow> workers r' = workers r \<and> set (chunks r) \<subseteq> set (chunks r')"

lemma grows_refl [simp]: "grows r r"
  by (simp add: grows_def)

lemma grows_trans: "grows r r' \<Longrightarrow> grows r' r'' \<Longrightarrow> grows r r''"
  by (auto simp: grows_def)

lemma grows_fold: "(\<And>x r. grows r (step x r)) \<Longrightarrow> grows r (fold step xs r)"
  by (induction xs arbitrary: r) (auto intro: grows_trans)

lemma GetOrCreate_grows: "grows r (snd (GetOrCreate cfg w i r))"
  unfolding grows_def by (intro conjI GetOrCreate_frame(3,5))

lemma checkRateLimit_registry: "fst (fst (checkRateLimit env p cl now s)) = fst s"
  by (simp add: checkRateLimit_def case_prod_beta split: sum.split)

lemma chargeN_registry: "fst (fst (chargeN env p cl clock n s)) = fst s"
proof (induction n arbitrary: clock s)
  case (Suc n)
  obtain s1 b where c: "checkRateLimit env p cl (clock 0) s = (s1, b)" by fastforce
  then have "fst s1 = fst s" using checkRateLimit_registry[of env p cl "clock 0" s] by simp
  then show ?case using Suc by (simp add: c split: bool.split)
qed simp

lemma spawn_cells_grows [simp]: "grows (fst s) (fst (spawn_cells env cells s))"
proof (cases s)
  case (Pair r w)
  have "grows r (spawnWorldCell env w c r)" for c r
    using GetOrCreate_grows by (simp add: spawnWorldCell_def Let_def case_prod_beta grows_def)
  then show ?thesis by (simp add: Pair spawn_cells_def grows_fold)
qed

lemma subscribe_refs_grow [simp]: "grows (fst s) (fst (fold (subscribe_ref env cl) refs s))"
proof (induction refs arbitrary: s)
  case (Cons ref refs)
  have "grows (fst s) (fst (subscribe_ref env cl ref s))"
    by (simp add: subscribe_ref_def Let_def GetOrCreate_grows split: prod.split)
  from grows_trans[OF this Cons.IH] show ?case by simp
qed simp

lemma unsubscribe_refs_registry [simp]: "fst (fold (unsubscribe_ref cl) refs s) = fst s"
  by (induction refs arbitrary: s) (simp_all add: unsubscribe_ref_def split: prod.split)

lemma Route_grows: "grows (fst s) (fst (Route env p msg cl clock s))"
proof -
  have spawn: "grows (fst s) (fst (Route_SPAWN env p pl cl clock s))" for pl
    using checkRateLimit_registry[of env p cl "clock 0" s]
      spawn_cells_grows[of "fst (checkRateLimit env p cl (clock 0) s)" env]
    by (cases "checkRateLimit env p cl (clock 0) s") (simp add: Route_SPAWN_def parsePayload_def split: bool.split option.split)
  have "grows (fst s) (fst (case chargeN env p cl clock n s of (s2, False) \<Rightarrow> s2 | (s2, True) \<Rightarrow> send env cl msg (spawn_cells env cs s2)))"
    for n msg cs
    using chargeN_registry[of env p cl clock n s] spawn_cells_grows[of "fst (chargeN env p cl clock n s)" env]
    by (cases "chargeN env p cl clock n s") (simp split: bool.split)
  then have shape: "grows (fst s) (fst (Route_PLACE_SHAPE env p pl cl clock s))" for pl
    by (simp add: Route_PLACE_SHAPE_def parsePayload_def split: option.split)
  have "grows r (fst (spawn_cells env cells (r, w)))" for r w cells using spawn_cells_grows[of "(r, w)"] by simp
  then have custom: "grows (fst s) (fst (Route_PLACE_CUSTOM env p pl cl clock s))" for pl
    by (cases s) (simp add: Route_PLACE_CUSTOM_def parsePayload_def split: option.split sum.split prod.split)
  have subs: "grows (fst s) (fst (Route_SUBSCRIBE env pl cl s))" "grows (fst s) (fst (Route_UNSUBSCRIBE env pl cl s))" for pl
    by (simp_all add: Route_SUBSCRIBE_def Route_UNSUBSCRIBE_def parsePayload_def split: option.split)
  show ?thesis by (simp add: Route_def spawn shape custom subs)
qed

lemma handle_message_grows: "grows (fst s) (fst (handle_message env p cl m s))"
  by (simp add: handle_message_def Route_grows split: option.split)

lemma handle_message_workers: "workers (fst (handle_message env p cl m s)) = workers (fst s)"
  using handle_message_grows[of s env p cl m] by (simp add: grows_def)

text \<open>One spawned cell dies at once, and a hundred ticks later its chunk is gone.\<close>

definition spawned_server :: "(memory, (client \<times> OutgoingMessage) list) server" where
  "spawned_server = handle_message demo_env ''bob'' 4 (''{\"type\":\"SPAWN\"}'', \<lambda>_. 7) demo_server"

lemma spawn_text:
  "Option.bind (parse_json ''{\"type\":\"SPAWN\"}'') (decode_IncomingMessage (IncomingMessage [] ANil)) =
     Some (IncomingMessage ''SPAWN'' ANil)"
  by code_simp

lemma spawn_parsed: "parsePayload env cl decode_SpawnCommand (SpawnCommand 0 0) ANil s = (s, Some (SpawnCommand 0 0))"
  by (simp add: parsePayload_def recode_printable decode_SpawnCommand_def decode_struct_def)

lemma spawned_server_facts:
  "reachable demo_env spawned_server" "board (fst spawned_server) = {(0, 0)}"
  "watching (subs (snd spawned_server)) = {}" "length (workers (fst spawned_server)) = 2"
proof -
  have step: "server_step demo_env (Message ''bob'' 4 (''{\"type\":\"SPAWN\"}'', \<lambda>_. 7)) demo_server spawned_server"
    unfolding spawned_server_def by (rule server_step.message)
  show r: "reachable demo_env spawned_server" by (rule reachable.step[OF demo_reachable step])
  have Route: "spawned_server = Route demo_env ''bob'' (IncomingMessage ''SPAWN'' ANil) 4 (\<lambda>_. 7) demo_server"
    by (simp add: spawned_server_def handle_message_def spawn_text)
  have "full_board demo_env spawned_server = {(0, 0)}"
    using handle_message_board[OF demo_server_ok, of "''bob''" 4 "(''{\"type\":\"SPAWN\"}'', \<lambda>_. 7)"]
      system_okD(6)[OF reachable_ok[OF demo_reachable]]
    by (simp add: spawned_server_def placed_def spawn_text demo_spawn world_cell_def world_coord_def)
      (simp add: demo_server_def start_server_def)
  then show "board (fst spawned_server) = {(0, 0)}" using system_okD(6)[OF reachable_ok[OF r]] by simp
  show "watching (subs (snd spawned_server)) = {}"
    unfolding Route by (simp add: Route_subs) (simp add: demo_server_def start_server_def)
  show "length (workers (fst spawned_server)) = 2"
    unfolding spawned_server_def by (simp add: handle_message_workers demo_server_def start_server_def NewRegistry_def Let_def)
qed

lemma life_step_single: "life_step {g} = {}"
proof -
  have "card ({g} \<inter> A) \<le> 1" for A :: "(coord \<times> coord) set"
    using card_mono[of "{g}" "{g} \<inter> A"] by simp
  then show ?thesis by (auto simp: life_step_def life_count_card) (metis Suc_1 not_less_eq_eq numeral_3_eq_3 le_SucI)+
qed

lemma spawned_dies: "(life_step ^^ Suc k) {(0, 0)} = {}"
  by (induction k) (simp_all add: life_step_single)

lemma spawned_server_idles:
  "valid_schedules spawned_server (replicate 100 in_order)" "\<forall>cl. (i, cl) \<notin> watching (subs (snd spawned_server))"
  "\<forall>k<100. (life_step ^^ Suc k) (board (fst spawned_server)) \<inter> area i = {}"
  "ChunkID 0 0 \<in> active_chunks spawned_server"
proof -
  note facts = spawned_server_facts
  show "valid_schedules spawned_server (replicate 100 in_order)"
    using in_order_valid[of 2] by (simp add: valid_schedules_def facts(4) list_all_iff)
  show "\<forall>cl. (i, cl) \<notin> watching (subs (snd spawned_server))" by (simp add: facts(3))
  show "\<forall>k<100. (life_step ^^ Suc k) (board (fst spawned_server)) \<inter> area i = {}" unfolding facts(2) spawned_dies by simp
  have "(0, 0) \<in> board (fst spawned_server) \<inter> area (ChunkID 0 0)"
    by (auto simp: facts(2) area_def gcell_def gcoord_def intro!: image_eqI[of _ _ "(0, 0)"])
  then show "ChunkID 0 0 \<in> active_chunks spawned_server"
    using board_area_inactive[of "fst spawned_server" "ChunkID 0 0"] reachable_ok[OF facts(1)]
    by (auto simp: active_chunks_def system_ok_def)
qed

theorem idle_chunk_hibernates_witness:
  "ChunkID 0 0 \<in> active_chunks spawned_server \<and>
   (\<exists>k\<le>100. ChunkID 0 0 \<notin> active_chunks (fold (tick demo_env) (take k (replicate 100 in_order)) spawned_server))"
  using idle_chunk_hibernates[OF spawned_server_facts(1) spawned_server_idles(1) _ spawned_server_idles(2,3)]
    spawned_server_idles(4) by simp

end
