(* ===== verification/Patterns.thy ===== *)
theory Patterns
  imports Life Shapes
begin

unbundle bit_operations_syntax

text \<open>
  What the shapes of the catalogue do under the rule of Life. A pattern is evaluated in a window of
  rows, integers whose bits are the cells, by the bitwise rule for a whole row; as long as the border of the
  window is empty, a step of the window is a generation of the board.
\<close>

section \<open>A row at a time\<close>

definition majority :: "int \<Rightarrow> int \<Rightarrow> int \<Rightarrow> int" where
  "majority a b c = (a AND b) OR (a AND c) OR (b AND c)"

definition row_next :: "int \<Rightarrow> int \<Rightarrow> int \<Rightarrow> int" where
  "row_next a b c =
     (let la = push_bit 1 a; ra = drop_bit 1 a; lb = push_bit 1 b; rb = drop_bit 1 b;
          lc = push_bit 1 c; rc = drop_bit 1 c;
          sa = a XOR la XOR ra; ca = majority a la ra;
          sb = lb XOR rb; cb = lb AND rb;
          sc = c XOR lc XOR rc; cc = majority c lc rc;
          ones = sa XOR sb XOR sc; d = majority sa sb sc;
          single = (ca XOR cb) XOR (cc XOR d); double = (ca AND cb) OR (cc AND d)
      in (single XOR (single AND double)) AND (ones OR b))"

lemma adder:
  fixes p1 p2 p3 p4 p5 p6 p7 p8 q :: bool
  defines "maj \<equiv> \<lambda>a b c. a \<and> b \<or> (a \<and> c \<or> b \<and> c)"
  defines "n \<equiv> of_bool p1 + of_bool p2 + of_bool p3 + of_bool p4 + of_bool p5 + of_bool p6 + of_bool p7 + of_bool p8 :: nat"
  defines "sa \<equiv> p1 \<noteq> (p2 \<noteq> p3)" and "sb \<equiv> p4 \<noteq> p5" and "sc \<equiv> p6 \<noteq> (p7 \<noteq> p8)"
    and "ca \<equiv> maj p1 p2 p3" and "cb \<equiv> p4 \<and> p5" and "cc \<equiv> maj p6 p7 p8"
  defines "single \<equiv> (ca \<noteq> cb) \<noteq> (cc \<noteq> maj sa sb sc)" and "double \<equiv> ca \<and> cb \<or> cc \<and> maj sa sb sc"
  shows "((single \<noteq> (single \<and> double)) \<and> ((sa \<noteq> (sb \<noteq> sc)) \<or> q)) \<longleftrightarrow> n = 3 \<or> n = 2 \<and> q"
  unfolding assms
  by (cases p1; cases p2; cases p3; cases p4; cases p5; cases p6; cases p7; cases p8; simp)

definition left_bit :: "int \<Rightarrow> nat \<Rightarrow> bool" where
  "left_bit a x \<longleftrightarrow> x \<noteq> 0 \<and> bit a (x - 1)"

lemma bit_sides:
  "bit (push_bit 1 k) x = left_bit k x" "bit (drop_bit 1 k) x = bit k (Suc x)"
  by (simp_all only: bit_push_bit_iff_int bit_drop_bit_eq left_bit_def comp_def) auto

lemmas row_bits = row_next_def majority_def Let_def bit_and_iff bit_or_iff bit_xor_iff bit_sides

lemma bit_row_next:
  "bit (row_next a b c) x \<longleftrightarrow>
     (let n = of_bool (bit a x) + of_bool (left_bit a x) + of_bool (bit a (Suc x)) +
              of_bool (left_bit b x) + of_bool (bit b (Suc x)) +
              of_bool (bit c x) + of_bool (left_bit c x) + of_bool (bit c (Suc x)) :: nat
      in n = 3 \<or> n = 2 \<and> bit b x)"
  unfolding row_bits
  using adder[of "bit a x" "left_bit a x" "bit a (Suc x)" "left_bit b x" "bit b (Suc x)"
          "bit c x" "left_bit c x" "bit c (Suc x)" "bit b x"] .

section \<open>Windows\<close>

fun next_rows_from :: "int \<Rightarrow> int list \<Rightarrow> int list" where
  "next_rows_from a [] = []"
| "next_rows_from a (b # rest) = row_next a b (case rest of [] \<Rightarrow> 0 | c # _ \<Rightarrow> c) # next_rows_from b rest"

definition next_window :: "int list \<Rightarrow> int list" where
  "next_window rs = next_rows_from 0 rs"

definition row_at :: "int list \<Rightarrow> int \<Rightarrow> int" where
  "row_at rs y = (if 0 \<le> y \<and> nat y < length rs then rs ! nat y else 0)"

lemma length_next_rows_from [simp]: "length (next_rows_from a rs) = length rs"
  by (induction rs arbitrary: a) simp_all

lemma nth_next_rows_from:
  "y < length rs \<Longrightarrow> next_rows_from a rs ! y =
     row_next (if y = 0 then a else rs ! (y - 1)) (rs ! y) (if Suc y < length rs then rs ! Suc y else 0)"
proof (induction rs arbitrary: a y)
  case (Cons b rest)
  then show ?case by (cases y) (auto split: list.split)
qed simp

lemma row_at_next:
  assumes "0 \<le> y" "nat y < length rs"
  shows "row_at (next_window rs) y = row_next (row_at rs (y - 1)) (row_at rs y) (row_at rs (y + 1))"
proof -
  have "nat (y - 1) = nat y - 1" "nat (y + 1) = Suc (nat y)" "0 \<le> y - 1 \<longleftrightarrow> nat y \<noteq> 0" using assms(1) by auto
  then show ?thesis using assms by (auto simp: row_at_def next_window_def nth_next_rows_from)
qed

definition cell_at :: "int list \<Rightarrow> int \<Rightarrow> int \<Rightarrow> bool" where
  "cell_at rs x y \<longleftrightarrow> 0 \<le> x \<and> bit (row_at rs y) (nat x)"

definition window_board :: "coord \<times> coord \<Rightarrow> int list \<Rightarrow> board" where
  "window_board g rs = {(fst g + word_of_int x, snd g + word_of_int y) | x y. cell_at rs x y}"

text \<open>The border of a window is empty, and its rows have at most \<open>n\<close> bits.\<close>

definition window_clear :: "nat \<Rightarrow> int list \<Rightarrow> bool" where
  "window_clear n rs \<longleftrightarrow> rs \<noteq> [] \<and> hd rs = 0 \<and> last rs = 0 \<and> length rs \<le> n \<and> n \<le> 1000 \<and>
     list_all (\<lambda>r. r mod 2 = 0 \<and> 0 \<le> r \<and> r < 2 ^ n) rs"

fun run_window :: "nat \<Rightarrow> nat \<Rightarrow> int list \<Rightarrow> int list option" where
  "run_window n 0 rs = Some rs"
| "run_window n (Suc k) rs = (if window_clear n rs then run_window n k (next_window rs) else None)"

lemma cell_at_bounds:
  assumes "window_clear n rs" "cell_at rs x y"
  shows "0 < x" "x < 1000" "0 < y" "y < int (length rs) - 1" "length rs \<le> 1000"
proof -
  have y: "0 \<le> y" "nat y < length rs" and b: "bit (rs ! nat y) (nat x)" "0 \<le> x"
    using assms(2) by (auto simp: cell_at_def row_at_def split: if_splits)
  have mem: "rs ! nat y \<in> set rs" using y by simp
  then have r: "rs ! nat y mod 2 = 0" "0 \<le> rs ! nat y" "rs ! nat y < 2 ^ n"
    using assms(1) by (auto simp: window_clear_def list_all_iff)
  have "\<not> bit (rs ! nat y) 0" using r(1) by (simp add: bit_0 even_iff_mod_2_eq_zero)
  then show "0 < x" using b by (cases "x = 0") auto
  have "nat x < n"
  proof (rule ccontr)
    assume "\<not> nat x < n"
    then have "rs ! nat y < 2 ^ nat x" using r(3) by (meson le_less_linear less_le_trans one_le_numeral power_increasing)
    then have "rs ! nat y div 2 ^ nat x = 0" using r(2) by simp
    then show False using b(1) by (simp add: bit_iff_odd)
  qed
  moreover have "n \<le> 1000" using assms(1) by (simp add: window_clear_def)
  ultimately show "x < 1000" using b(2) by linarith
  have "rs ! nat y \<noteq> 0" using b(1) by auto
  moreover have "rs ! 0 = 0" "rs ! (length rs - 1) = 0"
    using assms(1) hd_conv_nth[of rs] last_conv_nth[of rs] by (simp_all only: window_clear_def) simp_all
  ultimately have "nat y \<noteq> 0" "nat y \<noteq> length rs - 1" by metis+
  then show "0 < y" "y < int (length rs) - 1" using y by auto
  show "length rs \<le> 1000" using assms(1) by (simp add: window_clear_def)
qed

definition small :: "int list \<Rightarrow> bool" where
  "small rs \<longleftrightarrow> (\<forall>x y. cell_at rs x y \<longrightarrow> 0 \<le> x \<and> x \<le> 1000 \<and> 0 \<le> y \<and> y \<le> 1000)"

lemma window_board_mem:
  assumes "small rs" "\<bar>X\<bar> \<le> 2 ^ 69 + 1" "\<bar>Y\<bar> \<le> 2 ^ 69 + 1"
  shows "(fst g + word_of_int X, snd g + word_of_int Y) \<in> window_board g rs \<longleftrightarrow> cell_at rs X Y"
proof
  assume "(fst g + word_of_int X, snd g + word_of_int Y) \<in> window_board g rs"
  then obtain x y where c: "cell_at rs x y" "(word_of_int X :: coord) = word_of_int x" "(word_of_int Y :: coord) = word_of_int y"
    by (auto simp: window_board_def)
  have eq: "a = e" if "(a - e) mod 2 ^ 70 = 0" "\<bar>a\<bar> \<le> 2 ^ 69 + 1" "0 \<le> e" "e \<le> 1000" for a e :: int
  proof -
    from that(1) have "2 ^ 70 dvd a - e" by (rule mod_0_imp_dvd)
    then obtain k where k: "a - e = 2 ^ 70 * k" by (rule dvdE)
    have "- (2 ^ 70) < a - e" "a - e < 2 ^ 70" using that(2-4) by (simp_all add: abs_le_iff)
    then have "- 1 < k" "k < 1" unfolding k by simp_all
    then show ?thesis using k by simp
  qed
  have m: "(X - x) mod 2 ^ 70 = 0" "(Y - y) mod 2 ^ 70 = 0" using c(2,3) by (simp_all only: coord_of_int_eq)
  have b: "0 \<le> x" "x \<le> 1000" "0 \<le> y" "y \<le> 1000" using assms(1) c(1) unfolding small_def by blast+
  have "X = x" "Y = y" using eq[OF m(1) assms(2) b(1,2)] eq[OF m(2) assms(3) b(3,4)] .
  then show "cell_at rs X Y" using c(1) by simp
qed (auto simp: window_board_def)

lemma window_clear_small: "window_clear n rs \<Longrightarrow> small rs"
  using cell_at_bounds by (fastforce simp: small_def)

lemma cell_at_next:
  assumes "window_clear n rs"
  shows "cell_at (next_window rs) x y \<longleftrightarrow>
    (let k = of_bool (cell_at rs x (y - 1)) + of_bool (cell_at rs (x - 1) (y - 1)) + of_bool (cell_at rs (x + 1) (y - 1)) +
             of_bool (cell_at rs (x - 1) y) + of_bool (cell_at rs (x + 1) y) +
             of_bool (cell_at rs x (y + 1)) + of_bool (cell_at rs (x - 1) (y + 1)) + of_bool (cell_at rs (x + 1) (y + 1)) :: nat
     in k = 3 \<or> k = 2 \<and> cell_at rs x y)"
proof (cases "0 \<le> x \<and> 0 \<le> y \<and> nat y < length rs")
  case True
  have "left_bit (row_at rs z) (nat x) = cell_at rs (x - 1) z" "bit (row_at rs z) (Suc (nat x)) = cell_at rs (x + 1) z"
    "bit (row_at rs z) (nat x) = cell_at rs x z" for z
  proof -
    have "nat (x - 1) = nat x - 1" "nat (x + 1) = Suc (nat x)" using True by auto
    then show "left_bit (row_at rs z) (nat x) = cell_at rs (x - 1) z" "bit (row_at rs z) (Suc (nat x)) = cell_at rs (x + 1) z"
      "bit (row_at rs z) (nat x) = cell_at rs x z"
      using True by (auto simp: left_bit_def cell_at_def)
  qed
  moreover have "cell_at (next_window rs) x y = bit (row_next (row_at rs (y - 1)) (row_at rs y) (row_at rs (y + 1))) (nat x)"
    using True by (simp add: cell_at_def row_at_next)
  ultimately show ?thesis by (simp only: bit_row_next)
next
  case False
  have none: "\<not> cell_at rs a b" if "a \<le> 0 \<or> b \<le> 0 \<or> int (length rs) - 1 \<le> b" for a b
    using that cell_at_bounds[OF assms, of a b] by linarith
  from False consider "x < 0" | "y < 0" | "int (length rs) \<le> y" by linarith
  then have out: "\<not> cell_at rs x (y - 1) \<and> \<not> cell_at rs (x - 1) (y - 1) \<and> \<not> cell_at rs (x + 1) (y - 1) \<and>
      \<not> cell_at rs (x - 1) y \<and> \<not> cell_at rs (x + 1) y \<and> \<not> cell_at rs x (y + 1) \<and> \<not> cell_at rs (x - 1) (y + 1) \<and>
      \<not> cell_at rs (x + 1) (y + 1)"
    by cases (simp_all add: none)
  have "\<not> cell_at (next_window rs) x y"
    using False by (auto simp: cell_at_def row_at_def next_window_def)
  then show ?thesis using out by simp
qed

lemma small_next: "window_clear n rs \<Longrightarrow> small (next_window rs)"
  unfolding small_def
proof (intro allI impI)
  fix x y
  assume c: "window_clear n rs" and cell: "cell_at (next_window rs) x y"
  have "\<exists>a b. cell_at rs a b \<and> \<bar>a - x\<bar> \<le> 1 \<and> \<bar>b - y\<bar> \<le> 1"
  proof (rule ccontr)
    assume "\<not> ?thesis"
    then have "\<not> cell_at rs (x + i) (y + j)" if "\<bar>i\<bar> \<le> 1" "\<bar>j\<bar> \<le> 1" for i j using that by force
    from this[of 0 "-1"] this[of "-1" "-1"] this[of 1 "-1"] this[of "-1" 0] this[of 1 0] this[of 0 1] this[of "-1" 1] this[of 1 1]
    show False using cell unfolding cell_at_next[OF c] by simp
  qed
  then show "0 \<le> x \<and> x \<le> 1000 \<and> 0 \<le> y \<and> y \<le> 1000"
    using cell_at_bounds[OF c] by force
qed

lemma next_window_life:
  assumes "window_clear n rs"
  shows "life_step (window_board g rs) = window_board g (next_window rs)"
proof -
  have "h \<in> life_step (window_board g rs) \<longleftrightarrow> h \<in> window_board g (next_window rs)" for h
  proof -
    define X Y where "X = sint (fst h - fst g)" and "Y = sint (snd h - snd g)"
    have h: "h = (fst g + word_of_int X, snd g + word_of_int Y)" by (simp add: X_def Y_def prod_eq_iff)
    have bound: "- (2 ^ 69) \<le> X" "X < 2 ^ 69" "- (2 ^ 69) \<le> Y" "Y < 2 ^ 69"
      using sint_ge[of "fst h - fst g"] sint_lt[of "fst h - fst g"] sint_ge[of "snd h - snd g"] sint_lt[of "snd h - snd g"]
      by (simp_all add: X_def Y_def)
    then have mem: "(fst g + word_of_int (X + a), snd g + word_of_int (Y + b)) \<in> window_board g rs \<longleftrightarrow> cell_at rs (X + a) (Y + b)"
      if "\<bar>a\<bar> \<le> 1" "\<bar>b\<bar> \<le> 1" for a b
      using that by (intro window_board_mem[OF window_clear_small[OF assms]]) linarith+
    note near = mem[of 0 0] mem[of "-1" 0] mem[of 1 0] mem[of "-1" "-1"] mem[of 0 "-1"] mem[of 1 "-1"]
      mem[of "-1" 1] mem[of 0 1] mem[of 1 1]
    have "life_count (window_board g rs) h =
        of_bool (cell_at rs (X - 1) (Y - 1)) + of_bool (cell_at rs X (Y - 1)) + of_bool (cell_at rs (X + 1) (Y - 1)) +
        of_bool (cell_at rs (X - 1) Y) + of_bool (cell_at rs (X + 1) Y) +
        of_bool (cell_at rs (X - 1) (Y + 1)) + of_bool (cell_at rs X (Y + 1)) + of_bool (cell_at rs (X + 1) (Y + 1))"
      using near by (simp add: life_count_def h add_diff_eq algebra_simps)
    moreover have "h \<in> window_board g rs \<longleftrightarrow> cell_at rs X Y" using near(1) h by simp
    moreover have "h \<in> window_board g (next_window rs) \<longleftrightarrow> cell_at (next_window rs) X Y"
      using window_board_mem[OF small_next[OF assms], of X Y g] h bound by simp
    ultimately show ?thesis
      unfolding cell_at_next[OF assms] life_step_def by (simp add: Let_def algebra_simps)
  qed
  then show ?thesis by blast
qed

lemma run_window_life:
  "run_window n k rs = Some rs' \<Longrightarrow> (life_step ^^ k) (window_board g rs) = window_board g rs'"
proof (induction k arbitrary: rs)
  case (Suc k)
  then have c: "window_clear n rs" and r: "run_window n k (next_window rs) = Some rs'" by (auto split: if_splits)
  show ?case using Suc.IH[OF r] by (simp add: funpow_swap1 next_window_life[OF c])
qed simp

section \<open>Shapes\<close>

text \<open>The cells of a list of offsets at a root, and the window of \<open>h\<close> rows that holds it with the given margins.\<close>

definition shape_board :: "coord \<times> coord \<Rightarrow> off list \<Rightarrow> board" where
  "shape_board g cs = (\<lambda>c. (fst g + word_of_int (sint (offX c)), snd g + word_of_int (sint (offY c)))) ` set cs"

fun or_row :: "nat \<Rightarrow> int \<Rightarrow> int list \<Rightarrow> int list" where
  "or_row y b [] = []"
| "or_row 0 b (r # rs) = (r OR b) # rs"
| "or_row (Suc y) b (r # rs) = r # or_row y b rs"

lemma or_row_update: "or_row y b rs = (if y < length rs then rs[y := rs ! y OR b] else rs)"
  by (induction y b rs rule: or_row.induct) simp_all

definition put :: "int \<Rightarrow> int \<Rightarrow> off \<Rightarrow> int list \<Rightarrow> int list" where
  "put mx my c rs = or_row (nat (sint (offY c) + my)) (2 ^ nat (sint (offX c) + mx)) rs"

definition window_of :: "nat \<Rightarrow> int \<Rightarrow> int \<Rightarrow> off list \<Rightarrow> int list" where
  "window_of h mx my cs = foldr (put mx my) cs (replicate h 0)"

definition in_window :: "nat \<Rightarrow> int \<Rightarrow> int \<Rightarrow> off list \<Rightarrow> bool" where
  "in_window h mx my cs \<longleftrightarrow> list_all (\<lambda>c. 0 \<le> sint (offX c) + mx \<and> 0 \<le> sint (offY c) + my \<and> sint (offY c) + my < int h) cs"

lemma cell_at_window_of:
  assumes "in_window h mx my cs"
  shows "length (window_of h mx my cs) = h"
    and "cell_at (window_of h mx my cs) x y \<longleftrightarrow> (\<exists>c\<in>set cs. x = sint (offX c) + mx \<and> y = sint (offY c) + my)"
  using assms
proof (induction cs)
  case Nil
  { case 1 show ?case by (simp add: window_of_def) }
  { case 2 show ?case by (simp add: window_of_def cell_at_def row_at_def) }
next
  case (Cons c cs)
  have w: "in_window h mx my cs" if "in_window h mx my (c # cs)" using that by (simp add: in_window_def)
  have win: "window_of h mx my (c # cs) = put mx my c (window_of h mx my cs)" by (simp add: window_of_def)
  { case 1 show ?case unfolding win using Cons.IH(1)[OF w[OF 1]] by (simp add: put_def or_row_update) }
  { case 2
    let ?y = "sint (offY c) + my" and ?rs = "window_of h mx my cs"
    have c: "0 \<le> sint (offX c) + mx" "0 \<le> ?y" "nat ?y < length ?rs"
      using 2 Cons.IH(1)[OF w[OF 2]] by (auto simp: in_window_def)
    have "row_at (put mx my c ?rs) y = (if y = ?y then row_at ?rs y OR 2 ^ nat (sint (offX c) + mx) else row_at ?rs y)"
      using c by (auto simp: put_def or_row_update row_at_def nth_list_update)
    moreover have "bit (2 ^ nat (sint (offX c) + mx) :: int) (nat x) \<longleftrightarrow> x = sint (offX c) + mx" if "0 \<le> x"
      using c(1) that by (auto simp: bit_exp_iff)
    ultimately have "cell_at (put mx my c ?rs) x y \<longleftrightarrow> x = sint (offX c) + mx \<and> y = ?y \<or> cell_at ?rs x y"
      using c(1) by (auto simp: cell_at_def bit_or_iff)
    then show ?case using Cons.IH(2)[OF w[OF 2]] win by auto }
qed

lemma window_of_board:
  assumes "in_window h mx my cs"
  shows "window_board g (window_of h mx my cs) = shape_board (fst g + word_of_int mx, snd g + word_of_int my) cs"
proof -
  have "window_board g (window_of h mx my cs) =
      (\<lambda>c. (fst g + word_of_int (sint (offX c) + mx), snd g + word_of_int (sint (offY c) + my))) ` set cs"
    unfolding window_board_def cell_at_window_of(2)[OF assms] by blast
  also have "\<dots> = shape_board (fst g + word_of_int mx, snd g + word_of_int my) cs"
    unfolding shape_board_def wi_hom_add[symmetric] fst_conv snd_conv by (intro image_cong refl) (simp add: add_ac)
  finally show ?thesis .
qed

lemma shape_becomes:
  assumes "run_window n k (window_of h mx my cs) = Some (window_of h mx' my' cs')"
    and "in_window h mx my cs" "in_window h mx' my' cs'"
  shows "(life_step ^^ k) (shape_board g cs) =
    shape_board (fst g + word_of_int (mx' - mx), snd g + word_of_int (my' - my)) cs'"
proof -
  let ?g = "(fst g - word_of_int mx, snd g - word_of_int my)"
  have "(life_step ^^ k) (window_board ?g (window_of h mx my cs)) = window_board ?g (window_of h mx' my' cs')"
    by (rule run_window_life[OF assms(1)])
  then show ?thesis
    unfolding window_of_board[OF assms(2)] window_of_board[OF assms(3)] wi_hom_sub[symmetric] by (simp add: algebra_simps)
qed

definition catalog_cells :: "string \<Rightarrow> off list" where
  "catalog_cells name = (case GetShape name of None \<Rightarrow> [] | Some cs \<Rightarrow> cs)"

text \<open>
  What becomes of the shapes: a number of generations and the cells there are after it, with the
  distance they have moved. The gun has then emitted a glider. Each entry is evaluated once, in a
  window of the given height with the given margin.
\<close>

definition emitted_glider :: "off list" where
  "emitted_glider = [Off 23 9, Off 23 11, Off 24 10, Off 24 11, Off 25 10]"

definition outcomes :: "(string \<times> nat \<times> int \<times> int \<times> off list) list" where
  "outcomes =
     [(''cell'', 1, 0, 0, []),
      (''block'', 1, 0, 0, catalog_cells ''block''),
      (''beehive'', 1, 0, 0, catalog_cells ''beehive''),
      (''blinker'', 2, 0, 0, catalog_cells ''blinker''),
      (''toad'', 2, 0, 0, catalog_cells ''toad''),
      (''beacon'', 2, 0, 0, catalog_cells ''beacon''),
      (''pulsar'', 3, 0, 0, catalog_cells ''pulsar''),
      (''glider'', 4, 1, 1, catalog_cells ''glider''),
      (''lwss'', 4, -2, 0, catalog_cells ''lwss''),
      (''diehard'', 130, 0, 0, []),
      (''gosper-gun'', 30, 0, 0, catalog_cells ''gosper-gun'' @ emitted_glider)]"

definition outcome_holds :: "string \<times> nat \<times> int \<times> int \<times> off list \<Rightarrow> nat \<times> int \<times> int \<Rightarrow> bool" where
  "outcome_holds e f \<longleftrightarrow> (case (e, f) of ((name, k, dx, dy, cs), (h, mx, my)) \<Rightarrow>
     run_window 48 k (window_of h mx my (catalog_cells name)) = Some (window_of h (mx + dx) (my + dy) cs) \<and>
     in_window h mx my (catalog_cells name) \<and> in_window h (mx + dx) (my + dy) cs)"

lemma outcomes_hold:
  "list_all2 outcome_holds outcomes
     [(3, 1, 1), (4, 1, 1), (5, 1, 1), (5, 2, 2), (6, 2, 2), (6, 1, 1), (17, 2, 2), (6, 1, 1), (9, 3, 3),
      (25, 7, 5), (14, 1, 1)]"
  by code_simp

lemma shape_outcome:
  assumes "(name, k, dx, dy, cs) \<in> set outcomes"
  shows "(life_step ^^ k) (shape_board g (catalog_cells name)) = shape_board (fst g + word_of_int dx, snd g + word_of_int dy) cs"
proof -
  obtain i where i: "i < length outcomes" "outcomes ! i = (name, k, dx, dy, cs)"
    using assms unfolding in_set_conv_nth by blast
  from list_all2_nthD[OF outcomes_hold i(1)] obtain f where "outcome_holds (name, k, dx, dy, cs) f"
    unfolding i(2) by blast
  then obtain h mx my where "outcome_holds (name, k, dx, dy, cs) (h, mx, my)" by (cases f) auto
  then show ?thesis
    using shape_becomes[of 48 k h mx my "catalog_cells name" "mx + dx" "my + dy" cs g] by (simp add: outcome_holds_def)
qed

lemma emitted_glider_moves:
  "(life_step ^^ 4) (shape_board g emitted_glider) = shape_board (fst g + 1, snd g + 1) emitted_glider"
proof -
  have "run_window 48 4 (window_of 16 1 1 emitted_glider) = Some (window_of 16 2 2 emitted_glider)"
    "in_window 16 1 1 emitted_glider" "in_window 16 2 2 emitted_glider"
    by code_simp+
  from shape_becomes[OF this] show ?thesis by simp
qed

lemma catalog_cells_small:
  "c \<in> set (catalog_cells name) \<Longrightarrow> 0 \<le> sint (offX c) \<and> sint (offX c) < 100 \<and> 0 \<le> sint (offY c) \<and> sint (offY c) < 100"
proof -
  have "list_all (\<lambda>(name, d). list_all (\<lambda>c. 0 \<le> sint (offX c) \<and> sint (offX c) < 100 \<and> 0 \<le> sint (offY c) \<and> sint (offY c) < 100)
      (Cells d)) catalog"
    by code_simp
  then show "c \<in> set (catalog_cells name) \<Longrightarrow> ?thesis"
    by (fastforce simp: catalog_cells_def GetShape_def list_all_iff dest: map_of_SomeD split: option.splits)
qed

end
