(* ===== verification/Catalogue.thy ===== *)
theory Catalogue
  imports System Patterns
begin









end
