(* ===== verification/Http.thy ===== *)
theory Http
  imports Models
begin



section \<open>The catalogue\<close>








section \<open>Addresses\<close>












section \<open>The filter\<close>




lemma dec_nat_nonempty [simp]: "dec_nat n \<noteq> []"
  using dec_nat_digits[of n] by simp






section \<open>Routes\<close>







end
