(* ===== verification/Startup.thy ===== *)
theory Startup
  imports Gateway "HOL-Library.Sublist"
begin

text \<open>
  \<^verbatim>\<open>main.go\<close> before it serves: where the address and the password of the database come from, and the
  errors that end the process. The environment variables, the metadata server and the secret
  manager of the cloud are a record of parameters.
\<close>

section \<open>Trimming white space\<close>

text \<open>\<^verbatim>\<open>strings.TrimSpace\<close>: the UTF-8 encodings of the characters with \<^verbatim>\<open>unicode.IsSpace\<close>.\<close>

definition spaces :: "string list" where
  "spaces =
     [[CHR 0x09], [CHR 0x0A], [CHR 0x0B], [CHR 0x0C], [CHR 0x0D], [CHR 0x20],
      [CHR 0xC2, CHR 0x85], [CHR 0xC2, CHR 0xA0], [CHR 0xE1, CHR 0x9A, CHR 0x80]] @
     map (\<lambda>n. [CHR 0xE2, CHR 0x80, char_of n]) ([0x80..<0x8B] @ [0xA8, 0xA9, 0xAF]) @
     [[CHR 0xE2, CHR 0x81, CHR 0x9F], [CHR 0xE3, CHR 0x80, CHR 0x80]]"

lemma spaces_nonempty: "w \<in> set spaces \<Longrightarrow> w \<noteq> []"
  by (auto simp: spaces_def)

function trim_left :: "string \<Rightarrow> string" where
  "trim_left s = (case find (\<lambda>w. prefix w s) spaces of None \<Rightarrow> s | Some w \<Rightarrow> trim_left (drop (length w) s))"
  by pat_completeness auto
termination
proof (relation "measure length")
  fix s w
  assume "find (\<lambda>w. prefix w s) spaces = Some w"
  then have "prefix w s" "w \<noteq> []" using spaces_nonempty by (auto simp: find_Some_iff)
  then show "(drop (length w) s, s) \<in> measure length" by (auto simp: prefix_def)
qed simp

function trim_right :: "string \<Rightarrow> string" where
  "trim_right s = (case find (\<lambda>w. suffix w s) spaces of None \<Rightarrow> s | Some w \<Rightarrow> trim_right (take (length s - length w) s))"
  by pat_completeness auto
termination
proof (relation "measure length")
  fix s w
  assume "find (\<lambda>w. suffix w s) spaces = Some w"
  then have "suffix w s" "w \<noteq> []" using spaces_nonempty by (auto simp: find_Some_iff)
  then show "(take (length s - length w) s, s) \<in> measure length" by (auto simp: suffix_def)
qed simp

declare trim_left.simps [simp del] trim_right.simps [simp del]

definition TrimSpace :: "string \<Rightarrow> string" where
  "TrimSpace s = trim_right (trim_left s)"

section \<open>Settings\<close>

record platform =
  Getenv :: "string \<Rightarrow> string"
  OnGCE :: bool
  ProjectID :: "string + string"
  NewClient :: "string option"
  AccessSecretVersion :: "string \<Rightarrow> string + string"

definition secret_path :: "string \<Rightarrow> string \<Rightarrow> string" where
  "secret_path project name = ''projects/'' @ project @ ''/secrets/'' @ name @ ''/versions/latest''"

definition readSecret :: "platform \<Rightarrow> string \<Rightarrow> string \<Rightarrow> string + string" where
  "readSecret p project name =
     (case AccessSecretVersion p (secret_path project name) of
        Inl err \<Rightarrow> Inl (''secret '' @ dquote # name @ dquote # '': '' @ err)
      | Inr data \<Rightarrow> Inr (TrimSpace data))"

text \<open>The options of the Redis client, address and password; \<open>Inl\<close> is the message of a fatal error.\<close>

definition redis_options :: "platform \<Rightarrow> string + string \<times> string" where
  "redis_options p =
     (let redisAddr = (if Getenv p ''REDIS_ADDR'' = [] then ''localhost:6379'' else Getenv p ''REDIS_ADDR'');
          redisPassword = Getenv p ''REDIS_PASSWORD''
      in if OnGCE p then
           (case ProjectID p of
              Inl err \<Rightarrow> Inl (''Failed to determine GCP project from metadata server: '' @ err)
            | Inr project \<Rightarrow>
                let environment = (if Getenv p ''ENVIRONMENT'' = [] then ''prod'' else Getenv p ''ENVIRONMENT'');
                    secretSuffix = (if environment = ''staging'' then ''_STAGING'' else [])
                in case NewClient p of
                     Some err \<Rightarrow> Inl (''Failed to create Secret Manager client: '' @ err)
                   | None \<Rightarrow>
                       (case readSecret p project (''REDIS_ADDR'' @ secretSuffix) of
                          Inl err \<Rightarrow> Inl (''Failed to read REDIS_ADDR'' @ secretSuffix @ '' from Secret Manager: '' @ err)
                        | Inr addr \<Rightarrow>
                            (case readSecret p project (''REDIS_PASSWORD'' @ secretSuffix) of
                               Inl err \<Rightarrow> Inl (''Failed to read REDIS_PASSWORD'' @ secretSuffix @ '' from Secret Manager: '' @ err)
                             | Inr pw \<Rightarrow> Inr (addr, pw))))
         else Inr (redisAddr, redisPassword))"

definition listen_addr :: "platform \<Rightarrow> string" where
  "listen_addr p = CHR '':'' # (if Getenv p ''PORT'' = [] then ''8080'' else Getenv p ''PORT'')"

text \<open>
  The start of the process: \<open>Ping\<close> is what the database at the given options answers, \<open>contents\<close> its
  data. A process that starts has the fresh server and the address it listens on.
\<close>

definition start_main ::
  "platform \<Rightarrow> (string \<times> string \<Rightarrow> string option) \<Rightarrow> (string \<times> string \<Rightarrow> 'r) \<Rightarrow> nat \<Rightarrow> 'n \<Rightarrow>
   string + ('r, 'n) server \<times> string" where
  "start_main p Ping contents NumCPU n =
     (case redis_options p of
        Inl err \<Rightarrow> Inl err
      | Inr opts \<Rightarrow>
          (case Ping opts of
             Some err \<Rightarrow> Inl (''Redis unreachable at '' @ fst opts @ '': '' @ err)
           | None \<Rightarrow> Inr (start_server NumCPU (contents opts) n, listen_addr p)))"

section \<open>Properties\<close>

text \<open>Two platforms that cannot be told apart on the cloud by a process that reads only the secrets with a suffix.\<close>

definition same_secrets :: "string \<Rightarrow> platform \<Rightarrow> platform \<Rightarrow> bool" where
  "same_secrets tag p q \<longleftrightarrow>
     OnGCE p = OnGCE q \<and> ProjectID p = ProjectID q \<and> NewClient p = NewClient q \<and>
     Getenv p ''ENVIRONMENT'' = Getenv q ''ENVIRONMENT'' \<and>
     (\<forall>project name. AccessSecretVersion p (secret_path project (name @ tag)) =
        AccessSecretVersion q (secret_path project (name @ tag)))"

text \<open>
  C34. Staging never touches production: on the cloud, a process whose environment is \<open>staging\<close> gets the
  same options whatever the secrets without the suffix \<open>_STAGING\<close> are and whatever its own variables
  say about Redis; the secrets of production and the local variables cannot influence it.
\<close>

theorem staging_isolated:
  assumes "OnGCE p" "Getenv p ''ENVIRONMENT'' = ''staging''" "same_secrets ''_STAGING'' p q"
  shows "redis_options p = redis_options q"
proof -
  have "readSecret p project (name @ ''_STAGING'') = readSecret q project (name @ ''_STAGING'')" for project name
    using assms(3) by (simp add: readSecret_def same_secrets_def)
  from this[of _ "''REDIS_ADDR''"] this[of _ "''REDIS_PASSWORD''"] show ?thesis
    using assms unfolding redis_options_def same_secrets_def
    by (simp add: Let_def cong: sum.case_cong option.case_cong)
qed

definition staging_platform :: "string \<Rightarrow> platform" where
  "staging_platform other =
     \<lparr>Getenv = (\<lambda>v. if v = ''ENVIRONMENT'' then ''staging'' else other), OnGCE = True, ProjectID = Inr ''life'',
      NewClient = None,
      AccessSecretVersion = (\<lambda>name. if suffix ''_STAGING/versions/latest'' name then Inr ''10.0.0.3:6379'' else Inr other)\<rparr>"

lemma secret_path_suffix: "suffix ''_STAGING/versions/latest'' (secret_path project (name @ ''_STAGING''))"
  by (auto simp: secret_path_def suffix_def)

theorem staging_isolated_witness:
  "redis_options (staging_platform ''one'') = redis_options (staging_platform ''two'')"
  by (rule staging_isolated) (use secret_path_suffix in \<open>simp_all add: staging_platform_def same_secrets_def\<close>)

text \<open>
  The process serves only with a database: it starts exactly when its options could be determined and
  the database at those options answers the ping, it then runs a fresh server over the contents of
  that very database, and otherwise it ends with an error; without the cloud the options are the two
  environment variables, with \<open>localhost:6379\<close> for an address that is not set.
\<close>

theorem starts_only_with_database:
  "(case start_main p Ping contents NumCPU n of
      Inl err \<Rightarrow> (\<exists>e. redis_options p = Inl e) \<or> (\<exists>opts e. redis_options p = Inr opts \<and> Ping opts = Some e)
    | Inr (s, addr) \<Rightarrow> \<exists>opts. redis_options p = Inr opts \<and> Ping opts = None \<and>
        s = start_server NumCPU (contents opts) n \<and> hd addr = CHR '':'' \<and> tl addr \<noteq> []) \<and>
   (OnGCE p \<or> redis_options p =
      Inr (if Getenv p ''REDIS_ADDR'' = [] then ''localhost:6379'' else Getenv p ''REDIS_ADDR'', Getenv p ''REDIS_PASSWORD''))"
proof (rule conjI)
  show "case start_main p Ping contents NumCPU n of
      Inl err \<Rightarrow> (\<exists>e. redis_options p = Inl e) \<or> (\<exists>opts e. redis_options p = Inr opts \<and> Ping opts = Some e)
    | Inr (s, addr) \<Rightarrow> \<exists>opts. redis_options p = Inr opts \<and> Ping opts = None \<and>
        s = start_server NumCPU (contents opts) n \<and> hd addr = CHR '':'' \<and> tl addr \<noteq> []"
  proof (cases "redis_options p")
    case (Inr opts)
    then show ?thesis by (cases "Ping opts") (simp_all add: start_main_def listen_addr_def)
  qed (simp add: start_main_def)
  show "OnGCE p \<or> redis_options p =
      Inr (if Getenv p ''REDIS_ADDR'' = [] then ''localhost:6379'' else Getenv p ''REDIS_ADDR'', Getenv p ''REDIS_PASSWORD'')"
    by (simp add: redis_options_def Let_def)
qed

end
