(* ===== verification/Programs.thy ===== *)
theory Programs
  imports Prelude
begin

text \<open>
  Programs of a goroutine as trees of atomic actions on a shared state, running them alone, and the
  contract under which an action may be taken while other goroutines run: the interface between
  the handlers of messages and the tick.
\<close>

text \<open>
  An action changes the state and continues with what it saw; \<open>Return\<close> is the value of the call.
\<close>

datatype ('s, 'a) prog =
    Return 'a
  | Act "'s \<Rightarrow> 's" "'s \<Rightarrow> ('s, 'a) prog"

primrec run :: "('s, 'a) prog \<Rightarrow> 's \<Rightarrow> 's \<times> 'a" where
  "run (Return a) = (\<lambda>s. (s, a))"
| "run (Act f k) = (\<lambda>s. run (k s) (f s))"

primrec andthen :: "('s, 'a) prog \<Rightarrow> ('a \<Rightarrow> ('s, 'b) prog) \<Rightarrow> ('s, 'b) prog" where
  "andthen (Return a) g = g a"
| "andthen (Act f k) g = Act f (\<lambda>s. andthen (k s) g)"

definition call :: "('s \<Rightarrow> 's \<times> 'a) \<Rightarrow> ('s, 'a) prog" where
  "call op = Act (\<lambda>s. fst (op s)) (\<lambda>s. Return (snd (op s)))"

primrec each :: "('x \<Rightarrow> ('s, unit) prog) \<Rightarrow> 'x list \<Rightarrow> ('s, unit) prog" where
  "each g [] = Return ()"
| "each g (x # xs) = andthen (g x) (\<lambda>_. each g xs)"

primrec accumulate :: "('x \<Rightarrow> 'h \<Rightarrow> ('s, 'h) prog) \<Rightarrow> 'x list \<Rightarrow> 'h \<Rightarrow> ('s, 'h) prog" where
  "accumulate g [] h = Return h"
| "accumulate g (x # xs) h = andthen (g x h) (accumulate g xs)"

primrec collect :: "('x \<Rightarrow> ('s, 'y) prog) \<Rightarrow> 'x list \<Rightarrow> ('s, 'y list) prog" where
  "collect g [] = Return []"
| "collect g (x # xs) = andthen (g x) (\<lambda>y. andthen (collect g xs) (\<lambda>ys. Return (y # ys)))"

lemma run_andthen [simp]: "run (andthen p g) s = (case run p s of (s', a) \<Rightarrow> run (g a) s')"
  by (induction p arbitrary: s) simp_all

lemma run_call [simp]: "run (call op) s = op s"
  by (simp add: call_def)

lemma run_each: "(\<And>x s. run (g x) s = (h x s, ())) \<Longrightarrow> run (each g xs) s = (fold h xs s, ())"
  by (induction xs arbitrary: s) simp_all

lemma run_collect: "(\<And>x. run (g x) s = (s, h x)) \<Longrightarrow> run (collect g xs) s = (s, map h xs)"
  by (induction xs) simp_all

text \<open>The contract: \<open>ok\<close> is what everybody keeps, \<open>later\<close> what may have happened meanwhile, \<open>does\<close> what an action may do.\<close>

locale interference =
  fixes ok :: "'s \<Rightarrow> bool" and later :: "'s \<Rightarrow> 's \<Rightarrow> bool" and does :: "'s \<Rightarrow> 's \<Rightarrow> bool"
  assumes later_refl: "later s s"
    and later_trans: "later s s' \<Longrightarrow> later s' s'' \<Longrightarrow> later s s''"
    and does_later: "does s s' \<Longrightarrow> later s s'"
begin

text \<open>A program is safe from a state on if whatever happens before each action, the action keeps the contract.\<close>

inductive safe :: "('a \<Rightarrow> 's \<Rightarrow> bool) \<Rightarrow> 's \<Rightarrow> ('s, 'a) prog \<Rightarrow> bool" for Q where
  return: "(\<And>s'. later s s' \<Longrightarrow> Q a s') \<Longrightarrow> safe Q s (Return a)"
| act: "(\<And>s'. later s s' \<Longrightarrow> ok s' \<Longrightarrow> ok (f s') \<and> does s' (f s') \<and> safe Q (f s') (k s')) \<Longrightarrow> safe Q s (Act f k)"

lemma safe_Act: "safe Q s (Act f k) \<Longrightarrow> ok s \<Longrightarrow> ok (f s) \<and> does s (f s) \<and> safe Q (f s) (k s)"
  by (erule safe.cases) (auto simp: later_refl)

lemma safe_later: "safe Q s p \<Longrightarrow> later s s' \<Longrightarrow> safe Q s' p"
  by (erule safe.cases) (auto intro!: safe.intros dest: later_trans)

lemma safe_andthen:
  assumes "safe Q s p" and "\<And>a s'. later s s' \<Longrightarrow> Q a s' \<Longrightarrow> safe R s' (g a)"
  shows "safe R s (andthen p g)"
  using assms
proof (induction rule: safe.induct)
  case (return s a)
  then show ?case using later_refl by simp
next
  case (act s f k)
  have "ok (f s') \<and> does s' (f s') \<and> safe R (f s') (andthen (k s') g)" if s': "later s s'" "ok s'" for s'
  proof -
    note IH = act.IH[OF s']
    have "later s (f s')" using IH s'(1) does_later later_trans by blast
    then have "safe R s'' (g a)" if "later (f s') s''" "Q a s''" for a s''
      using act.prems[of s'' a] that later_trans by blast
    then show ?thesis using IH by blast
  qed
  then show ?case by (simp add: safe.act)
qed

lemma safe_call:
  assumes "\<And>s'. later s s' \<Longrightarrow> ok s' \<Longrightarrow> ok (fst (op s')) \<and> does s' (fst (op s'))"
    and "\<And>s' s''. later s s' \<Longrightarrow> ok s' \<Longrightarrow> later (fst (op s')) s'' \<Longrightarrow> Q (snd (op s')) s''"
  shows "safe Q s (call op)"
  unfolding call_def using assms by (intro safe.act conjI safe.return) blast+

lemma safe_conseq:
  assumes "safe Q s p" "\<And>a s'. later s s' \<Longrightarrow> Q a s' \<Longrightarrow> R a s'"
  shows "safe R s p"
  using assms
proof (induction rule: safe.induct)
  case (act s f k)
  have "ok (f s') \<and> does s' (f s') \<and> safe R (f s') (k s')" if s': "later s s'" "ok s'" for s'
  proof -
    note IH = act.IH[OF s']
    have "later s (f s')" using IH s'(1) does_later later_trans by blast
    then show ?thesis using IH act.prems later_trans by blast
  qed
  then show ?case by (simp add: safe.act)
qed (simp add: safe.return)

text \<open>Facts that stay true, gathered over a list.\<close>

lemma safe_each:
  assumes "\<And>x s'. x \<in> set xs \<Longrightarrow> later s s' \<Longrightarrow> safe (\<lambda>_. P x) s' (g x)"
    and "\<And>x s s'. P x s \<Longrightarrow> later s s' \<Longrightarrow> P x s'"
  shows "safe (\<lambda>_ s'. \<forall>x\<in>set xs. P x s') s (each g xs)"
  using assms(1)
proof (induction xs arbitrary: s)
  case Nil
  then show ?case by (simp add: safe.return)
next
  case (Cons x xs)
  show ?case
    unfolding each.simps
  proof (rule safe_andthen)
    show "safe (\<lambda>_. P x) s (g x)" using Cons.prems later_refl by simp
    fix s'
    assume s': "later s s'" "P x s'"
    have "safe (\<lambda>_ s''. \<forall>x\<in>set xs. P x s'') s' (each g xs)"
      using Cons.prems s'(1) later_trans by (intro Cons.IH) auto
    then show "safe (\<lambda>_ s''. \<forall>y\<in>set (x # xs). P y s'') s' (each g xs)"
      by (rule safe_conseq) (use s'(2) assms(2) in auto)
  qed
qed

lemma safe_accumulate:
  assumes "\<And>x h s'. x \<in> set xs \<Longrightarrow> later s s' \<Longrightarrow> safe (\<lambda>h' s''. h' = F x h \<and> P x s'') s' (g x h)"
    and "\<And>x s s'. P x s \<Longrightarrow> later s s' \<Longrightarrow> P x s'"
  shows "safe (\<lambda>h' s'. h' = fold F xs h \<and> (\<forall>x\<in>set xs. P x s')) s (accumulate g xs h)"
  using assms(1)
proof (induction xs arbitrary: s h)
  case Nil
  then show ?case by (simp add: safe.return)
next
  case (Cons x xs)
  show ?case
    unfolding accumulate.simps
  proof (rule safe_andthen)
    show "safe (\<lambda>h' s'. h' = F x h \<and> P x s') s (g x h)" using Cons.prems later_refl by simp
    fix h' s'
    assume s': "later s s'" "h' = F x h \<and> P x s'"
    have "safe (\<lambda>h'' s''. h'' = fold F xs h' \<and> (\<forall>x\<in>set xs. P x s'')) s' (accumulate g xs h')"
      using Cons.prems s'(1) later_trans by (intro Cons.IH) auto
    then show "safe (\<lambda>h'' s''. h'' = fold F (x # xs) h \<and> (\<forall>x\<in>set (x # xs). P x s'')) s' (accumulate g xs h')"
      by (rule safe_conseq) (use s' assms(2) in auto)
  qed
qed

lemma safe_collect:
  assumes "\<And>x s'. x \<in> set xs \<Longrightarrow> later s s' \<Longrightarrow> safe (\<lambda>y _. P x y) s' (g x)"
  shows "safe (\<lambda>ys _. list_all2 P xs ys) s (collect g xs)"
  using assms
proof (induction xs arbitrary: s)
  case Nil
  then show ?case by (simp add: safe.return)
next
  case (Cons x xs)
  show ?case
    unfolding collect.simps
  proof (rule safe_andthen)
    show "safe (\<lambda>y _. P x y) s (g x)" using Cons.prems later_refl by simp
    fix y s'
    assume s': "later s s'" "P x y"
    have "safe (\<lambda>ys _. list_all2 P xs ys) s' (collect g xs)"
      using Cons.prems s'(1) later_trans by (intro Cons.IH) auto
    then show "safe (\<lambda>ys _. list_all2 P (x # xs) ys) s' (andthen (collect g xs) (\<lambda>ys. Return (y # ys)))"
      by (rule safe_andthen) (use s'(2) in \<open>auto intro: safe.return\<close>)
  qed
qed

end

end
