(* ===== verification/Handlers.thy ===== *)
theory Handlers
  imports System Programs
begin

text \<open>
  The handlers of \<^verbatim>\<open>gateway/router.go\<close> as programs: one action for each access to the registry, the
  subscriptions, the database or the connection, with the locks released in between. Run alone
  they are the handlers of theory \<^verbatim>\<open>Router\<close>; interleaved with others they keep the contract of theory
  \<^verbatim>\<open>Handler_Contract\<close>.
\<close>

section \<open>The programs\<close>

type_synonym ('r, 'n, 'a) handler = "(('r, 'n) server, 'a) prog"

definition read_state :: "(('r, 'n) server \<Rightarrow> 'a) \<Rightarrow> ('r, 'n, 'a) handler" where
  "read_state f = call (\<lambda>s. (s, f s))"

definition GetOrCreate_prog :: "('r, 'n) Env \<Rightarrow> ChunkID \<Rightarrow> ('r, 'n, handle) handler" where
  "GetOrCreate_prog env i =
     andthen (read_state (\<lambda>s. map_of (chunks (fst s)) i)) (\<lambda>found. case found of
       Some a \<Rightarrow> Return a
     | None \<Rightarrow>
         andthen (read_state (\<lambda>s. GetOrCreate_load (registry_config env) (snd s) i)) (\<lambda>c.
           call (\<lambda>s. case GetOrCreate_insert i c (fst s) of (a, r') \<Rightarrow> ((r', snd s), a))))"

definition PeekChunk_prog :: "('r, 'n) Env \<Rightarrow> ChunkID \<Rightarrow> ('r, 'n, u16 list) handler" where
  "PeekChunk_prog env i =
     andthen (read_state (\<lambda>s. map_of (chunks (fst s)) i)) (\<lambda>found. case found of
       Some a \<Rightarrow> read_state (\<lambda>s. Snapshot (chunk_at (fst s) a))
     | None \<Rightarrow> read_state (\<lambda>s. case LoadChunk (redisClient env) i (db (snd s)) of Inr (Some c) \<Rightarrow> Snapshot c | _ \<Rightarrow> []))"

definition spawnWorldCell_prog :: "('r, 'n) Env \<Rightarrow> i64 \<times> i64 \<Rightarrow> ('r, 'n, unit) handler" where
  "spawnWorldCell_prog env xy =
     (let (cx, lx) = worldToChunkLocal (fst xy);
          (cy, ly) = worldToChunkLocal (snd xy)
      in andthen (GetOrCreate_prog env (ChunkID cx cy)) (\<lambda>a. call (\<lambda>s. ((ProcessSpawn a lx ly (fst s), snd s), ()))))"

definition send_prog :: "('r, 'n) Env \<Rightarrow> client \<Rightarrow> OutgoingMessage \<Rightarrow> ('r, 'n, unit) handler" where
  "send_prog env cl msg = call (\<lambda>s. (send env cl msg s, ()))"

definition sendError_prog :: "('r, 'n) Env \<Rightarrow> client \<Rightarrow> string \<Rightarrow> string \<Rightarrow> ('r, 'n, unit) handler" where
  "sendError_prog env cl code message = call (\<lambda>s. (sendError env cl code message s, ()))"

definition on_db :: "('r \<Rightarrow> 'r \<times> 'a) \<Rightarrow> ('r, 'n, 'a) handler" where
  "on_db op = call (\<lambda>(r, w). case op (db w) of (d, x) \<Rightarrow> ((r, w\<lparr>db := d\<rparr>), x))"

definition parsePayload_prog ::
  "('r, 'n) Env \<Rightarrow> client \<Rightarrow> ('a \<Rightarrow> json \<Rightarrow> 'a option) \<Rightarrow> 'a \<Rightarrow> any \<Rightarrow> ('r, 'n, 'a option) handler" where
  "parsePayload_prog env cl decode zero payload =
     (case recode decode zero payload of
        None \<Rightarrow> andthen (sendError_prog env cl ''INVALID_PAYLOAD'' ''Malformed payload'') (\<lambda>_. Return None)
      | Some cmd \<Rightarrow> Return (Some cmd))"

definition checkRateLimit_prog :: "('r, 'n) Env \<Rightarrow> string \<Rightarrow> client \<Rightarrow> int \<Rightarrow> ('r, 'n, bool) handler" where
  "checkRateLimit_prog env playerID cl now =
     andthen (on_db (AllowMutation (redisClient env) playerID now)) (\<lambda>res. case res of
       Inl err \<Rightarrow> andthen (sendError_prog env cl ''INTERNAL_ERROR'' ''Rate limiter unavailable'') (\<lambda>_. Return False)
     | Inr allowed \<Rightarrow>
         if \<not> allowed then andthen (sendError_prog env cl ''RATE_LIMITED'' ''Slow down!'') (\<lambda>_. Return False)
         else Return True)"

fun chargeN_prog :: "('r, 'n) Env \<Rightarrow> string \<Rightarrow> client \<Rightarrow> (nat \<Rightarrow> int) \<Rightarrow> nat \<Rightarrow> ('r, 'n, bool) handler" where
  "chargeN_prog env playerID cl clock 0 = Return True"
| "chargeN_prog env playerID cl clock (Suc n) =
     andthen (checkRateLimit_prog env playerID cl (clock 0)) (\<lambda>allowed.
       if \<not> allowed then Return False else chargeN_prog env playerID cl (clock \<circ> Suc) n)"

definition Route_SPAWN_prog ::
  "('r, 'n) Env \<Rightarrow> string \<Rightarrow> any \<Rightarrow> client \<Rightarrow> (nat \<Rightarrow> int) \<Rightarrow> ('r, 'n, unit) handler" where
  "Route_SPAWN_prog env playerID payload cl clock =
     andthen (checkRateLimit_prog env playerID cl (clock 0)) (\<lambda>allowed.
       if \<not> allowed then Return ()
       else andthen (parsePayload_prog env cl decode_SpawnCommand (SpawnCommand 0 0) payload) (\<lambda>parsed. case parsed of
         None \<Rightarrow> Return ()
       | Some cmd \<Rightarrow>
           andthen (spawnWorldCell_prog env (spawnX cmd, spawnY cmd)) (\<lambda>_.
             send_prog env cl (OutgoingMessage ''SPAWN_ACK'' (OfSpawn cmd)))))"

definition Route_PLACE_SHAPE_prog ::
  "('r, 'n) Env \<Rightarrow> string \<Rightarrow> any \<Rightarrow> client \<Rightarrow> (nat \<Rightarrow> int) \<Rightarrow> ('r, 'n, unit) handler" where
  "Route_PLACE_SHAPE_prog env playerID payload cl clock =
     andthen (parsePayload_prog env cl decode_PlaceShapeCommand (PlaceShapeCommand 0 0 []) payload) (\<lambda>parsed. case parsed of
       None \<Rightarrow> Return ()
     | Some cmd \<Rightarrow>
         (case GetShape (shapeName cmd) of
            None \<Rightarrow> sendError_prog env cl ''UNKNOWN_SHAPE'' (''Unknown shape: '' @ shapeName cmd)
          | Some cells \<Rightarrow>
              andthen (chargeN_prog env playerID cl clock (length cells)) (\<lambda>charged.
                if \<not> charged then Return ()
                else andthen (each (\<lambda>c. spawnWorldCell_prog env (shapeX cmd + offX c, shapeY cmd + offY c)) cells) (\<lambda>_.
                  send_prog env cl (OutgoingMessage ''PLACE_SHAPE_ACK'' (OfPlaceShape cmd))))))"

definition Route_PLACE_CUSTOM_prog ::
  "('r, 'n) Env \<Rightarrow> string \<Rightarrow> any \<Rightarrow> client \<Rightarrow> (nat \<Rightarrow> int) \<Rightarrow> ('r, 'n, unit) handler" where
  "Route_PLACE_CUSTOM_prog env playerID payload cl clock =
     andthen (parsePayload_prog env cl decode_PlaceCustomCommand (PlaceCustomCommand 0 0 nil_slice) payload) (\<lambda>parsed. case parsed of
       None \<Rightarrow> Return ()
     | Some cmd \<Rightarrow>
         (case ValidateCustomCells (elements (customCells cmd)) of
            Inl code \<Rightarrow> sendError_prog env cl code (validation_message code)
          | Inr validCells \<Rightarrow>
              andthen (on_db (DrainN (redisClient env) playerID (clock 0) (int (tokens_wanted validCells)))) (\<lambda>res. case res of
                Inl err \<Rightarrow> sendError_prog env cl ''INTERNAL_ERROR'' ''Rate limiter unavailable''
              | Inr consumed \<Rightarrow>
                  if consumed = 0 \<and> 0 < tokens_wanted validCells
                  then sendError_prog env cl ''RATE_LIMITED'' busy_message
                  else andthen (each (\<lambda>c. spawnWorldCell_prog env (customX cmd + cellX c, customY cmd + cellY c)) validCells) (\<lambda>_.
                    send_prog env cl (OutgoingMessage ''PLACE_CUSTOM_ACK'' (OfPlaceCustom cmd))))))"

definition subscribe_ref_prog :: "('r, 'n) Env \<Rightarrow> client \<Rightarrow> ChunkRef \<Rightarrow> ('r, 'n, unit) handler" where
  "subscribe_ref_prog env cl ref =
     (let i = ChunkID (refX ref) (refY ref)
      in andthen (call (\<lambda>(r, w). ((r, w\<lparr>subs := Subscribe i cl (subs w)\<rparr>), ()))) (\<lambda>_.
           andthen (PeekChunk_prog env i) (\<lambda>cells.
             if length cells > 0
             then andthen (GetOrCreate_prog env i) (\<lambda>_.
               send_prog env cl (OutgoingMessage ''CHUNK_STATE'' (OfChunkState (ChunkStatePayload (refX ref) (refY ref) cells))))
             else Return ())))"

definition Route_SUBSCRIBE_prog :: "('r, 'n) Env \<Rightarrow> any \<Rightarrow> client \<Rightarrow> ('r, 'n, unit) handler" where
  "Route_SUBSCRIBE_prog env payload cl =
     andthen (parsePayload_prog env cl decode_SubscribeCommand (SubscribeCommand nil_slice) payload) (\<lambda>parsed. case parsed of
       None \<Rightarrow> Return ()
     | Some cmd \<Rightarrow> each (subscribe_ref_prog env cl) (elements (subChunks cmd)))"

definition Route_UNSUBSCRIBE_prog :: "('r, 'n) Env \<Rightarrow> any \<Rightarrow> client \<Rightarrow> ('r, 'n, unit) handler" where
  "Route_UNSUBSCRIBE_prog env payload cl =
     andthen (parsePayload_prog env cl decode_SubscribeCommand (SubscribeCommand nil_slice) payload) (\<lambda>parsed. case parsed of
       None \<Rightarrow> Return ()
     | Some cmd \<Rightarrow> each (\<lambda>ref. call (\<lambda>s. (unsubscribe_ref cl ref s, ()))) (elements (subChunks cmd)))"

definition Route_prog ::
  "('r, 'n) Env \<Rightarrow> string \<Rightarrow> IncomingMessage \<Rightarrow> client \<Rightarrow> (nat \<Rightarrow> int) \<Rightarrow> ('r, 'n, unit) handler" where
  "Route_prog env playerID msg cl clock =
     (if inType msg = ''SPAWN'' then Route_SPAWN_prog env playerID (inPayload msg) cl clock
      else if inType msg = ''PLACE_SHAPE'' then Route_PLACE_SHAPE_prog env playerID (inPayload msg) cl clock
      else if inType msg = ''PLACE_CUSTOM'' then Route_PLACE_CUSTOM_prog env playerID (inPayload msg) cl clock
      else if inType msg = ''SUBSCRIBE'' then Route_SUBSCRIBE_prog env (inPayload msg) cl
      else if inType msg = ''UNSUBSCRIBE'' then Route_UNSUBSCRIBE_prog env (inPayload msg) cl
      else if inType msg = ''PING'' then Return ()
      else sendError_prog env cl ''UNKNOWN_COMMAND'' (''Command type not supported: '' @ inType msg))"

definition handle_message_prog ::
  "('r, 'n) Env \<Rightarrow> string \<Rightarrow> client \<Rightarrow> string \<times> (nat \<Rightarrow> int) \<Rightarrow> ('r, 'n, unit) handler" where
  "handle_message_prog env playerID cl m =
     (case Option.bind (parse_json (fst m)) (decode_IncomingMessage (IncomingMessage [] ANil)) of
        None \<Rightarrow> sendError_prog env cl ''INVALID_FORMAT'' ''Message must be valid JSON''
      | Some msg \<Rightarrow> Route_prog env playerID msg cl (snd m))"

section \<open>Run alone\<close>

lemma run_atoms [simp]:
  "run (read_state f) s = (s, f s)"
  "run (send_prog env cl msg) s = (send env cl msg s, ())"
  "run (sendError_prog env cl code txt) s = (sendError env cl code txt s, ())"
  by (simp_all add: read_state_def send_prog_def sendError_prog_def)

lemma run_GetOrCreate:
  "run (GetOrCreate_prog env i) (r, w) =
     ((snd (GetOrCreate (registry_config env) w i r), w), fst (GetOrCreate (registry_config env) w i r))"
  by (simp add: GetOrCreate_prog_def GetOrCreate_def split: option.split prod.split)

lemma run_PeekChunk: "run (PeekChunk_prog env i) (r, w) = ((r, w), PeekChunk (registry_config env) w i r)"
  by (auto simp: PeekChunk_prog_def PeekChunk_def registry_config_def split: option.splits sum.splits)

lemma run_spawn: "run (spawnWorldCell_prog env xy) (r, w) = ((spawnWorldCell env w xy r, w), ())"
  by (simp add: spawnWorldCell_prog_def spawnWorldCell_def run_GetOrCreate Let_def split: prod.split)

lemma run_spawns: "run (each (\<lambda>c. spawnWorldCell_prog env (g c)) cs) (r, w) = ((fold (spawnWorldCell env w) (map g cs) r, w), ())"
  by (induction cs arbitrary: r) (simp_all add: run_spawn)

lemma run_parsePayload:
  "run (parsePayload_prog env cl decode zero payload) s = parsePayload env cl decode zero payload s"
  by (simp add: parsePayload_prog_def parsePayload_def split: option.split)

lemma run_checkRateLimit: "run (checkRateLimit_prog env p cl now) s = checkRateLimit env p cl now s"
  by (simp add: checkRateLimit_prog_def checkRateLimit_def on_db_def split: prod.split sum.split)

lemma run_chargeN: "run (chargeN_prog env p cl clock n) s = chargeN env p cl clock n s"
  by (induction n arbitrary: clock s) (simp_all add: run_checkRateLimit split: prod.split bool.split)

lemma run_subscribe_ref: "run (subscribe_ref_prog env cl ref) s = (subscribe_ref env cl ref s, ())"
  by (cases s) (simp add: subscribe_ref_prog_def subscribe_ref_def Let_def run_GetOrCreate run_PeekChunk)

text \<open>
  A handler that is not interrupted is the handler of the sequential model: run alone, the program of
  a message has the effect of handling the message in one step, on every branch.
\<close>

theorem handler_runs_alone: "run (handle_message_prog env p cl m) s = (handle_message env p cl m s, ())"
proof -
  have spawn: "run (Route_SPAWN_prog env p pl cl clock) s = (Route_SPAWN env p pl cl clock s, ())" for pl clock
    by (simp add: Route_SPAWN_prog_def Route_SPAWN_def run_checkRateLimit run_parsePayload run_spawn spawn_cells_def
        split: prod.split bool.split option.split)
  have shape: "run (Route_PLACE_SHAPE_prog env p pl cl clock) s = (Route_PLACE_SHAPE env p pl cl clock s, ())" for pl clock
    by (simp add: Route_PLACE_SHAPE_prog_def Route_PLACE_SHAPE_def run_parsePayload run_chargeN run_spawns spawn_cells_def
        split: prod.split bool.split option.split)
  have custom: "run (Route_PLACE_CUSTOM_prog env p pl cl clock) s = (Route_PLACE_CUSTOM env p pl cl clock s, ())" for pl clock
    by (simp add: Route_PLACE_CUSTOM_prog_def Route_PLACE_CUSTOM_def run_parsePayload run_spawns spawn_cells_def on_db_def
        split: prod.split sum.split option.split)
  have sub: "run (Route_SUBSCRIBE_prog env pl cl) s = (Route_SUBSCRIBE env pl cl s, ())"
    "run (Route_UNSUBSCRIBE_prog env pl cl) s = (Route_UNSUBSCRIBE env pl cl s, ())" for pl
    by (simp_all add: Route_SUBSCRIBE_prog_def Route_SUBSCRIBE_def Route_UNSUBSCRIBE_prog_def Route_UNSUBSCRIBE_def
        run_parsePayload run_each[OF run_subscribe_ref] run_each[of _ "unsubscribe_ref cl"] split: prod.split option.split)
  have "run (Route_prog env p msg cl clock) s = (Route env p msg cl clock s, ())" for msg clock
    by (simp add: Route_prog_def Route_def spawn shape custom sub)
  then show ?thesis by (simp add: handle_message_prog_def handle_message_def split: option.split)
qed

end
