(* ===== verification/Worker_Steps.thy ===== *)
theory Worker_Steps
  imports Tick
begin

text \<open>
  \<^verbatim>\<open>processJob\<close> as the worker executes it: one step for each access to the chunk, the callbacks and the
  registry, each atomic by its lock, with what the worker knows in between.
\<close>

section \<open>The steps of a job\<close>

datatype job_phase =
    Received
  | Computed
  | Snapped "u16 list"
  | Announced
  | Counted bool
  | Checked bool
  | Hibernating
  | Persisted
  | Finished

fun processJob_step ::
  "'w RegistryConfig \<Rightarrow> nat \<Rightarrow> tickJob \<Rightarrow> job_phase \<Rightarrow> Registry \<times> 'w \<Rightarrow> job_phase \<times> Registry \<times> 'w" where
  "processJob_step cfg k job Received (r, w) =
     (let a = state job;
          (nextRows, scratch') = TickBitset (ID (chunk_at r a)) (chunkRows job) (halos job) (workers r ! k);
          r1 = update_state a (chunk_update (SetRows nextRows)) r
      in (Computed, r1\<lparr>metrics := map_option TickDuration_Observe (metrics r1),
                       workers := (workers r1)[k := scratch']\<rparr>, w))"
| "processJob_step cfg k job Computed (r, w) = (Snapped (Snapshot (chunk_at r (state job))), r, w)"
| "processJob_step cfg k job (Snapped cells) (r, w) =
     (Announced, r, (case OnTick cfg of None \<Rightarrow> w | Some fn \<Rightarrow> fn (ID (chunk_at r (state job))) cells w))"
| "processJob_step cfg k job Announced (r, w) = (Counted (PopCount (chunk_at r (state job)) = 0), r, w)"
| "processJob_step cfg k job (Counted isEmpty) (r, w) =
     (let hasSubs = (case HasSubscribers cfg of None \<Rightarrow> False | Some fn \<Rightarrow> fn (ID (chunk_at r (state job))) w)
      in (Checked (isEmpty \<and> \<not> hasSubs), r, w))"
| "processJob_step cfg k job (Checked idle) (r, w) =
     (if idle then
        (let r1 = update_state (state job) (idleTicks_update (\<lambda>n. n + 1)) r
         in (if hibernationThreshold \<le>s idleTicks (heap r1 ! state job) then Hibernating else Finished, r1, w))
      else (Finished, update_state (state job) (idleTicks_update (\<lambda>_. 0)) r, w))"
| "processJob_step cfg k job Hibernating (r, w) =
     (Persisted, r, (case Persist cfg of None \<Rightarrow> w | Some fn \<Rightarrow> fst (fn (chunk_at r (state job)) w)))"
| "processJob_step cfg k job Persisted (r, w) = (Finished, evict (ID (chunk_at r (state job))) r, w)"
| "processJob_step cfg k job Finished (r, w) = (Finished, r, w)"

definition processJob_steps ::
  "'w RegistryConfig \<Rightarrow> nat \<Rightarrow> tickJob \<Rightarrow> nat \<Rightarrow> job_phase \<times> Registry \<times> 'w \<Rightarrow> job_phase \<times> Registry \<times> 'w" where
  "processJob_steps cfg k job n = (\<lambda>(ph, s). processJob_step cfg k job ph s) ^^ n"

lemma update_same_chunk:
  "ID (chunk (xs[a := chunk_update (SetRows rs) (xs ! a)] ! a)) = ID (chunk (xs ! a))"
  "chunk (xs[a := idleTicks_update f (xs ! a)] ! a) = chunk (xs ! a)"
  by (cases "a < length xs"; simp add: SetRows_def list_update_beyond)+

text \<open>
  Run without interruption the steps are \<open>processJob\<close>: after eight steps the job is finished, the
  registry and the world are those of the job run as a whole, and further steps change nothing.
\<close>

theorem job_steps_compose:
  "processJob_steps cfg k job (8 + n) (Received, s) = (Finished, runWorker_step cfg (k, job) s)"
proof -
  obtain r w where s: "s = (r, w)" by fastforce
  have eight: "processJob_steps cfg k job 8 (Received, s) = (Finished, runWorker_step cfg (k, job) s)"
    unfolding s
    by (simp add: processJob_steps_def eval_nat_numeral runWorker_step_def processJob_def Let_def hibernate_def
        update_state_def evict_def update_same_chunk split: prod.splits option.splits)
  have "processJob_steps cfg k job n (Finished, t) = (Finished, t)" for t
    by (induction n) (simp_all add: processJob_steps_def split: prod.split, metis processJob_step.simps(9) surj_pair)
  then show ?thesis
    using eight by (simp add: processJob_steps_def add.commute[of 8] funpow_add)
qed

section \<open>The registry without the idle counters\<close>

text \<open>
  Only the worker that runs a chunk's job touches its idle counter, and between reaching the threshold and
  the eviction the counter of an active chunk is a hundred. What everybody else relies on is the
  registry with the counters forgotten.
\<close>

definition calm :: "Registry \<Rightarrow> Registry" where
  "calm r = r\<lparr>heap := map (idleTicks_update (\<lambda>_. 0)) (heap r)\<rparr>"

definition reg_core :: "Registry \<Rightarrow> bool" where
  "reg_core r \<longleftrightarrow> reg_wf (calm r)"

definition idle_below :: "Registry \<Rightarrow> handle \<Rightarrow> bool" where
  "idle_below r a \<longleftrightarrow> 0 \<le> sint (idleTicks (heap r ! a)) \<and> sint (idleTicks (heap r ! a)) < 100"

lemma calm_simps [simp]:
  "chunks (calm r) = chunks r" "workers (calm r) = workers r" "metrics (calm r) = metrics r"
  "length (heap (calm r)) = length (heap r)"
  "a < length (heap r) \<Longrightarrow> chunk_at (calm r) a = chunk_at r a"
  by (simp_all add: calm_def)

lemma calm_update_chunk: "calm (update_state a (chunk_update f) r) = update_state a (chunk_update f) (calm r)"
  by (cases "a < length (heap r)"; cases "heap r ! a")
    (simp_all add: calm_def update_state_def map_update list_update_beyond)

lemma calm_update_idle: "calm (update_state a (idleTicks_update f) r) = calm r"
proof (cases "a < length (heap r)")
  case True
  then have "(heap r ! a)\<lparr>idleTicks := 0\<rparr> = map (idleTicks_update (\<lambda>_. 0)) (heap r) ! a" by simp
  then have "(map (idleTicks_update (\<lambda>_. 0)) (heap r))[a := (heap r ! a)\<lparr>idleTicks := 0\<rparr>] =
      map (idleTicks_update (\<lambda>_. 0)) (heap r)" by (metis list_update_id)
  with True show ?thesis by (cases "heap r ! a") (simp add: calm_def update_state_def map_update)
qed (simp add: update_state_def list_update_beyond)

lemma calm_other_fields:
  "calm (r\<lparr>metrics := m\<rparr>) = (calm r)\<lparr>metrics := m\<rparr>" "calm (r\<lparr>workers := ws\<rparr>) = (calm r)\<lparr>workers := ws\<rparr>"
  "calm (evict i r) = evict i (calm r)"
  by (simp_all add: calm_def evict_def)

lemma calm_insert:
  "GetOrCreate_insert i c (calm r) = (fst (GetOrCreate_insert i c r), calm (snd (GetOrCreate_insert i c r)))"
  by (simp add: GetOrCreate_insert_def calm_def Let_def split: option.split)

lemma reg_coreD:
  assumes "reg_core r"
  shows "(i, a) \<in> set (chunks r) \<Longrightarrow> a < length (heap r)" "(i, a) \<in> set (chunks r) \<Longrightarrow> ID (chunk_at r a) = i"
    "a < length (heap r) \<Longrightarrow> wf_rows (rows (chunk_at r a))" "(i, a) \<in> set (chunks r) \<Longrightarrow> wf_rows (rows (chunk_at r a))"
    "map_of (chunks r) i = Some a \<longleftrightarrow> (i, a) \<in> set (chunks r)" "sc \<in> set (workers r) \<Longrightarrow> sc = zero_scratch"
proof -
  have wf: "reg_wf (calm r)" using assms by (simp add: reg_core_def)
  show a: "(i, a) \<in> set (chunks r) \<Longrightarrow> a < length (heap r)" for i a using reg_wfD(3)[OF wf] by simp
  show "(i, a) \<in> set (chunks r) \<Longrightarrow> ID (chunk_at r a) = i" using reg_wfD(4)[OF wf, of i a] a by simp
  show w: "a < length (heap r) \<Longrightarrow> wf_rows (rows (chunk_at r a))" for a using reg_wfD(5)[OF wf, of a] by simp
  show "(i, a) \<in> set (chunks r) \<Longrightarrow> wf_rows (rows (chunk_at r a))" using a w by blast
  show "map_of (chunks r) i = Some a \<longleftrightarrow> (i, a) \<in> set (chunks r)" using map_of_chunks[OF wf] by simp
  show "sc \<in> set (workers r) \<Longrightarrow> sc = zero_scratch" using wf by (simp add: reg_wf_def)
qed

lemma board_calm: "reg_core r \<Longrightarrow> board (calm r) = board r"
  unfolding board_def by (intro SUP_cong) (auto dest: reg_coreD(1))

lemma reg_wf_core: "reg_wf r \<longleftrightarrow> reg_core r \<and> (\<forall>(i, a)\<in>set (chunks r). idle_below r a)"
proof
  assume wf: "reg_wf r"
  have "entry_ok (heap (calm r)) e" if "e \<in> set (chunks r)" for e
    using that wf by (cases e) (auto simp: reg_wf_def entry_ok_def calm_def)
  moreover have "\<forall>s\<in>set (heap (calm r)). wf_rows (rows (chunk s))" using wf by (auto simp: calm_def reg_wf_def)
  moreover have "gauge_ok (calm r) = gauge_ok r" by (simp add: gauge_ok_def split: option.split)
  ultimately show "reg_core r \<and> (\<forall>(i, a)\<in>set (chunks r). idle_below r a)"
    using wf unfolding reg_core_def by (auto simp: reg_wf_def entry_ok_def idle_below_def)
next
  assume core: "reg_core r \<and> (\<forall>(i, a)\<in>set (chunks r). idle_below r a)"
  then have wf: "reg_wf (calm r)" by (simp add: reg_core_def)
  have "gauge_ok (calm r) = gauge_ok r" by (simp add: gauge_ok_def split: option.split)
  moreover have "\<forall>e\<in>set (chunks r). entry_ok (heap r) e"
    using core reg_coreD(1,2) by (fastforce simp: entry_ok_def idle_below_def)
  moreover have "\<forall>s\<in>set (heap r). wf_rows (rows (chunk s))"
    using core reg_coreD(3) by (metis in_set_conv_nth)
  ultimately show "reg_wf r" using wf by (simp add: reg_wf_def)
qed

text \<open>What is known of a handle stays true: objects are never removed from the heap and keep their identity.\<close>

definition later :: "Registry \<Rightarrow> Registry \<Rightarrow> bool" where
  "later r r' \<longleftrightarrow> length (heap r) \<le> length (heap r') \<and> (\<forall>a<length (heap r). ID (chunk_at r' a) = ID (chunk_at r a))"

lemma later_refl [simp]: "later r r"
  by (simp add: later_def)

lemma later_trans: "later r r' \<Longrightarrow> later r' r'' \<Longrightarrow> later r r''"
  by (auto simp: later_def)

section \<open>What a step does\<close>

definition seen_empty :: "job_phase \<Rightarrow> bool" where
  "seen_empty ph \<longleftrightarrow> ph \<in> {Counted True, Checked True, Hibernating, Persisted}"

definition leaving :: "job_phase \<Rightarrow> bool" where
  "leaving ph \<longleftrightarrow> ph \<in> {Hibernating, Persisted}"

lemma phase_simps [simp]:
  "\<not> seen_empty Received" "\<not> seen_empty Computed" "\<not> seen_empty (Snapped cells)" "\<not> seen_empty Announced"
  "seen_empty (Counted b) = b" "seen_empty (Checked b) = b" "seen_empty Hibernating" "seen_empty Persisted" "\<not> seen_empty Finished"
  "\<not> leaving Received" "\<not> leaving Computed" "\<not> leaving (Snapped cells)" "\<not> leaving Announced"
  "\<not> leaving (Counted b)" "\<not> leaving (Checked b)" "leaving Hibernating" "leaving Persisted" "\<not> leaving Finished"
  by (auto simp: seen_empty_def leaving_def)

text \<open>The registry after a step, whatever the callbacks do.\<close>

fun step_registry :: "tickJob \<Rightarrow> ChunkID \<Rightarrow> job_phase \<Rightarrow> Registry \<Rightarrow> Registry" where
  "step_registry job i Received r = stored i job r"
| "step_registry job i (Checked idle) r = update_state (state job) (idleTicks_update (\<lambda>n. if idle then n + 1 else 0)) r"
| "step_registry job i Persisted r = evict i r"
| "step_registry job i ph r = r"

lemma step_is:
  assumes core: "reg_core r" and e: "(i, state job) \<in> set (chunks r)" and k: "k < length (workers r)"
    and res: "processJob_step cfg k job ph (r, w) = (ph', r', w')"
  shows "r' = step_registry job i ph r"
proof -
  note i = reg_coreD(2)[OF core e]
  have z: "workers r ! k = zero_scratch" using reg_coreD(6)[OF core] k by simp
  then have sc: "snd (TickBitset i rs hs (workers r ! k)) = workers r ! k" for rs hs
    by (simp add: TickBitset_scratch) (simp add: zero_scratch_def)
  then have "stored i job r = fst (snd (processJob_step cfg k job Received (r, w)))"
    by (simp add: i Let_def case_prod_unfold stored_def next_rows_def z[symmetric])
  then show ?thesis
    using res i by (cases ph) (auto simp: Let_def split: if_splits prod.splits)
qed

lemma stored_calm: "calm (stored i job r) = stored i job (calm r)"
  by (simp add: stored_def Let_def calm_other_fields calm_update_chunk)

lemma step_effect:
  assumes core: "reg_core r" and e: "(i, state job) \<in> set (chunks r)" and k: "k < length (workers r)"
    and res: "processJob_step cfg k job ph (r, w) = (ph', r', w')"
  shows "reg_core r'" "workers r' = workers r" "later r r'"
    "chunks r' = (if ph = Persisted then filter (\<lambda>e. fst e \<noteq> i) (chunks r) else chunks r)"
    "b \<noteq> state job \<Longrightarrow> heap r' ! b = heap r ! b"
    "board r' \<inter> area j = (if j \<noteq> i then board r \<inter> area j else
       case ph of Received \<Rightarrow> cells_of i (next_rows i job) | Persisted \<Rightarrow> {} | _ \<Rightarrow> board r \<inter> area j)"
proof -
  note r' = step_is[OF assms]
  let ?a = "state job" and ?c = "calm r"
  have wf: "reg_wf ?c" and ec: "(i, ?a) \<in> set (chunks ?c)" and a: "?a < length (heap r)"
    using core e reg_coreD(1)[OF core e] by (simp_all add: reg_core_def)
  then have ic: "i \<in> fst ` set (chunks ?c)" by force
  have "reg_core r' \<and> board (calm r') \<inter> area j = (if j \<noteq> i then board ?c \<inter> area j else
      case ph of Received \<Rightarrow> cells_of i (next_rows i job) | Persisted \<Rightarrow> {} | _ \<Rightarrow> board ?c \<inter> area j)"
    using stored_wf_board[OF wf ec] reg_wf_evict[OF wf ic] board_evict[OF wf ic] wf area_disjoint[of i j]
    by (cases ph) (auto simp: r' reg_core_def stored_calm calm_update_idle calm_other_fields)
  then have *: "reg_core r'" "board (calm r') \<inter> area j = (if j \<noteq> i then board ?c \<inter> area j else
      case ph of Received \<Rightarrow> cells_of i (next_rows i job) | Persisted \<Rightarrow> {} | _ \<Rightarrow> board ?c \<inter> area j)" by blast+
  then show "reg_core r'" "board r' \<inter> area j = (if j \<noteq> i then board r \<inter> area j else
      case ph of Received \<Rightarrow> cells_of i (next_rows i job) | Persisted \<Rightarrow> {} | _ \<Rightarrow> board r \<inter> area j)"
    by (simp_all only: board_calm[OF core] board_calm[OF *(1)])
  show "workers r' = workers r" "chunks r' = (if ph = Persisted then filter (\<lambda>e. fst e \<noteq> i) (chunks r) else chunks r)"
    by (cases ph; simp add: r' evict_def delete_filter)+
  show "later r r'" "b \<noteq> ?a \<Longrightarrow> heap r' ! b = heap r ! b"
    using a by (cases ph; simp add: r' later_def heap_stored heap_update_state)+
qed

lemma step_phase:
  assumes core: "reg_core r" and e: "(i, state job) \<in> set (chunks r)" and k: "k < length (workers r)"
    and res: "processJob_step cfg k job ph (r, w) = (ph', r', w')"
  shows "ph' \<noteq> Received" "seen_empty ph' \<Longrightarrow> seen_empty ph \<or> board r' \<inter> area i = {}"
    "ph' = Finished \<Longrightarrow> ph = Persisted \<or> ph = Finished \<or> (\<exists>b. ph = Checked b)"
    "\<not> leaving ph \<Longrightarrow> \<not> leaving ph' \<Longrightarrow> idle_below r (state job) \<Longrightarrow> idle_below r' (state job)"
proof -
  let ?a = "state job"
  have a: "?a < length (heap r)" by (rule reg_coreD(1)[OF core e])
  show "ph' \<noteq> Received" using res by (cases ph) (auto simp: Let_def split: if_splits prod.splits)
  have wf: "reg_wf (calm r)" and ec: "(i, ?a) \<in> set (chunks (calm r))" using core e by (simp_all add: reg_core_def)
  have b: "board r \<inter> area i = cells_of i (rows (chunk_at r ?a))"
    using board_area[OF wf ec] a by (simp add: board_calm[OF core])
  have "PopCount (chunk_at r ?a) = 0 \<Longrightarrow> board r \<inter> area i = {}"
    using PopCount_zero_iff[OF reg_coreD(4)[OF core e]] by (simp add: b cells_of_def zero_rows_iff wf_simps)
  then show "seen_empty ph' \<Longrightarrow> seen_empty ph \<or> board r' \<inter> area i = {}"
    using res by (cases ph) (auto simp: Let_def split: if_splits prod.splits)
  show "ph' = Finished \<Longrightarrow> ph = Persisted \<or> ph = Finished \<or> (\<exists>b. ph = Checked b)"
    using res by (cases ph) (auto simp: Let_def split: if_splits prod.splits)
  assume nl: "\<not> leaving ph" "\<not> leaving ph'" and idle: "idle_below r ?a"
  have inc: "sint (idleTicks (heap r ! ?a) + 1) = sint (idleTicks (heap r ! ?a)) + 1"
    using sint_small[of "idleTicks (heap r ! ?a)" 1] idle by (simp add: idle_below_def)
  have thr: "hibernationThreshold \<le>s n \<longleftrightarrow> 100 \<le> sint n" for n
    by (simp add: word_sle_eq hibernationThreshold_def)
  show "idle_below r' ?a"
    using nl idle res a inc step_is[OF core e k res]
    by (cases ph) (auto simp: Let_def idle_below_def heap_stored heap_update_state thr split: if_splits prod.splits)
qed

section \<open>What a handler does to the registry\<close>

text \<open>
  All that a handler ever does to the registry, one access at a time: it adds chunks and cells from
  \<open>U\<close>, and never removes or replaces a chunk, nor touches an idle counter.
\<close>

definition disturbs :: "board \<Rightarrow> Registry \<Rightarrow> Registry \<Rightarrow> bool" where
  "disturbs U r r' \<longleftrightarrow> later r r' \<and> workers r' = workers r \<and> set (chunks r) \<subseteq> set (chunks r') \<and>
     (\<forall>(i, a)\<in>set (chunks r'). (i, a) \<in> set (chunks r) \<or> length (heap r) \<le> a \<and> a < length (heap r') \<and> idle_below r' a) \<and>
     (\<forall>a<length (heap r). idleTicks (heap r' ! a) = idleTicks (heap r ! a)) \<and>
     board r \<subseteq> board r' \<and> board r' \<subseteq> board r \<union> U"

lemma disturbs_refl [simp]: "disturbs U r r"
  by (auto simp: disturbs_def)

lemma disturbs_later: "disturbs U r r' \<Longrightarrow> later r r'"
  by (simp add: disturbs_def)

lemma disturbs_trans:
  assumes "disturbs U r r'" "disturbs U r' r''"
  shows "disturbs U r r''"
proof -
  have later: "later r r''" using assms disturbs_later later_trans by blast
  have "(i, a) \<in> set (chunks r) \<or> length (heap r) \<le> a \<and> a < length (heap r'') \<and> idle_below r'' a"
    if a: "(i, a) \<in> set (chunks r'')" for i a
  proof (cases "(i, a) \<in> set (chunks r')")
    case True
    then show ?thesis using assms by (fastforce simp: disturbs_def later_def idle_below_def)
  next
    case False
    then show ?thesis using assms a by (fastforce simp: disturbs_def later_def)
  qed
  moreover have "idleTicks (heap r'' ! a) = idleTicks (heap r ! a)" if "a < length (heap r)" for a
    using assms that by (auto simp: disturbs_def later_def)
  moreover have "workers r'' = workers r" "set (chunks r) \<subseteq> set (chunks r'')" "board r \<subseteq> board r''" "board r'' \<subseteq> board r \<union> U"
    using assms by (auto simp: disturbs_def)
  ultimately show ?thesis unfolding disturbs_def using later by blast
qed

lemma disturbs_idle:
  assumes "disturbs U r r'" "(i, a) \<in> set (chunks r')" "\<And>i a. (i, a) \<in> set (chunks r) \<Longrightarrow> a < length (heap r) \<and> idle_below r a"
  shows "idle_below r' a"
  using assms by (fastforce simp: disturbs_def idle_below_def)

text \<open>Inserting a chunk is creating it with a storage that answers just this chunk.\<close>

definition stores_only :: "ChunkID \<Rightarrow> Chunk \<Rightarrow> unit RegistryConfig" where
  "stores_only i c = no_callbacks\<lparr>Load := Some (\<lambda>j w. Inr (if j = i then Some c else None))\<rparr>"

lemma insert_is_create: "GetOrCreate_insert i c r = GetOrCreate (stores_only i c) () i r"
  by (simp add: GetOrCreate_def GetOrCreate_insert_def GetOrCreate_load_def stores_only_def split: option.split)

lemma stores_only_load:
  "GetOrCreate_load (stores_only i c) w i = c"
  "ID c = i \<Longrightarrow> wf_rows (rows c) \<Longrightarrow> load_ok (stores_only i c) w"
  by (auto simp: GetOrCreate_load_def stores_only_def load_ok_def NewChunk_def)

lemma insert_effect:
  assumes core: "reg_core r" and c: "ID c = i" "wf_rows (rows c)" "cells_of i (rows c) \<subseteq> U"
    and res: "GetOrCreate_insert i c r = (a, r')"
  shows "reg_core r'" "disturbs U r r'" "(i, a) \<in> set (chunks r')"
proof -
  have wf: "reg_wf (calm r)" using core by (simp add: reg_core_def)
  have calm: "GetOrCreate (stores_only i c) () i (calm r) = (a, calm r')"
    using res by (simp add: calm_insert flip: insert_is_create)
  have new: "GetOrCreate (stores_only i c) () i r = (a, r')" using res by (simp add: insert_is_create)
  note load = stores_only_load(2)[OF c(1,2), of "()"]
  show core': "reg_core r'" using GetOrCreate_wf(1)[OF wf load, of i] by (simp add: calm reg_core_def)
  show "(i, a) \<in> set (chunks r')" using GetOrCreate_wf(2)[OF wf load, of i] by (simp add: calm)
  have "board r \<subseteq> board r' \<and> board r' \<subseteq> board r \<union> U"
    using board_GetOrCreate[OF wf load, of i] c(3)
    by (auto simp: calm stores_only_load board_calm[OF core] board_calm[OF core'] split: if_splits)
  moreover have "later r r' \<and> workers r' = workers r \<and> set (chunks r) \<subseteq> set (chunks r') \<and>
      (\<forall>a<length (heap r). idleTicks (heap r' ! a) = idleTicks (heap r ! a))"
    using GetOrCreate_frame(1)[of _ r "stores_only i c" "()" i] GetOrCreate_frame(2)[of r "stores_only i c" "()" i]
      GetOrCreate_frame(3)[of r "stores_only i c" "()" i] GetOrCreate_frame(5)[of "stores_only i c" "()" i r]
    by (simp add: new later_def)
  moreover have "(j, b) \<in> set (chunks r) \<or> length (heap r) \<le> b \<and> b < length (heap r') \<and> idle_below r' b" if "(j, b) \<in> set (chunks r')" for j b
    using that new by (cases "map_of (chunks r) i") (auto simp: GetOrCreate_existing GetOrCreate_new idle_below_def)
  ultimately show "disturbs U r r'" by (auto simp: disturbs_def)
qed

lemma spawn_effect:
  assumes core: "reg_core r" and a: "a < length (heap r)"
    and U: "unat x < 64 \<Longrightarrow> unat y < 64 \<Longrightarrow> gcell (ID (chunk_at r a)) (unat x, unat y) \<in> U"
  shows "reg_core (ProcessSpawn a x y r)" "disturbs U r (ProcessSpawn a x y r)"
proof -
  have wf: "reg_wf (calm r)" and a': "a < length (heap (calm r))" using core a by (simp_all add: reg_core_def)
  have calm: "calm (ProcessSpawn a x y r) = ProcessSpawn a x y (calm r)" by (simp add: ProcessSpawn_def calm_update_chunk)
  show core': "reg_core (ProcessSpawn a x y r)" using ProcessSpawn_wf[OF wf a'] by (simp add: reg_core_def calm)
  have "board r \<subseteq> board (ProcessSpawn a x y r) \<and> board (ProcessSpawn a x y r) \<subseteq> board r \<union> U"
  proof (cases "\<exists>i. (i, a) \<in> set (chunks r)")
    case True
    then obtain i where e: "(i, a) \<in> set (chunks (calm r))" by auto
    then have "ID (chunk_at r a) = i" using reg_coreD(2)[OF core] by simp
    with U have "board (ProcessSpawn a x y (calm r)) \<subseteq> board (calm r) \<union> U" "board (calm r) \<subseteq> board (ProcessSpawn a x y (calm r))"
      by (auto simp: board_ProcessSpawn[OF wf e])
    then show ?thesis by (simp add: board_calm[OF core] board_calm[OF core'] flip: calm)
  next
    case False
    then have "a \<notin> snd ` set (chunks r)" by auto
    then show ?thesis using board_update_inactive[OF _ a] by (simp add: ProcessSpawn_def)
  qed
  then show "disturbs U r (ProcessSpawn a x y r)"
    using a by (auto simp: disturbs_def later_def ProcessSpawn_def heap_update_state)
qed

text \<open>What was placed in a chunk that is active is on the board.\<close>

lemma spawned_cell:
  assumes core: "reg_core r" and e: "(i, a) \<in> set (chunks r)" and xy: "unat x < 64" "unat y < 64"
  shows "gcell i (unat x, unat y) \<in> board (ProcessSpawn a x y r)"
proof -
  have wf: "reg_wf (calm r)" and ec: "(i, a) \<in> set (chunks (calm r))" using core e by (simp_all add: reg_core_def)
  have "calm (ProcessSpawn a x y r) = ProcessSpawn a x y (calm r)" by (simp add: ProcessSpawn_def calm_update_chunk)
  with board_calm[OF spawn_effect(1)[OF core reg_coreD(1)[OF core e], where U = UNIV], of x y]
  have "board (ProcessSpawn a x y r) = board (ProcessSpawn a x y (calm r))" by simp
  then show ?thesis using board_ProcessSpawn[OF wf ec] xy by simp
qed

end
