(* ===== verification/Handler_Contract.thy ===== *)
theory Handler_Contract
  imports Handlers Worker_Steps
begin

text \<open>
  What a handler may do while other goroutines run, and what it may rely on: the interpretation of the interface
  \<open>interference\<close> for the programs of theory \<^verbatim>\<open>Handlers\<close>, and the proof that every program keeps it.
\<close>

section \<open>What everybody keeps\<close>

text \<open>\<open>U\<close> are the cells that may be in the database.\<close>

definition stored_within :: "'r redis \<Rightarrow> board \<Rightarrow> 'r \<Rightarrow> bool" where
  "stored_within c U d \<longleftrightarrow> redis_engine.holds c (\<lambda>i ch. ID ch = i \<and> cells_of i (rows ch) \<subseteq> U) d"

definition mid_ok :: "('r, 'n) Env \<Rightarrow> board \<Rightarrow> ('r, 'n) server \<Rightarrow> bool" where
  "mid_ok env U s \<longleftrightarrow> reg_core (fst s) \<and> env_ok env \<and> pubsub_wf (subs (snd s)) \<and>
     serving (redisClient env) (db (snd s)) \<and> stored_within (redisClient env) U (db (snd s))"

lemma stored_withinD:
  "stored_within c U d \<Longrightarrow> LoadChunk c i d = Inr (Some ch) \<Longrightarrow> ID ch = i \<and> cells_of i (rows ch) \<subseteq> U"
  by (simp add: stored_within_def redis_engine.holds_def)

lemma load_within:
  assumes "stored_within (redisClient env) U (db w)"
  shows "ID (GetOrCreate_load (registry_config env) w i) = i" "wf_rows (rows (GetOrCreate_load (registry_config env) w i))"
    "cells_of i (rows (GetOrCreate_load (registry_config env) w i)) \<subseteq> U"
  using stored_withinD[OF assms, of i]
  by (auto simp: GetOrCreate_load_config NewChunk_def cells_of_def wf_simps split: sum.splits option.splits dest: LoadChunk_wf)

lemma mid_ok_cong:
  assumes "fst s' = fst s" "subs (snd s') = subs (snd s)" "db (snd s') = db (snd s)"
  shows "mid_ok env U s' = mid_ok env U s"
  using assms by (simp add: mid_ok_def)

lemma insert_ok:
  assumes ok: "mid_ok env U s" and c: "ID c = i" "wf_rows (rows c)" "cells_of i (rows c) \<subseteq> U"
    and ins: "GetOrCreate_insert i c (fst s) = (a, r')"
  shows "mid_ok env U (r', snd s)" "disturbs U (fst s) r'" "(i, a) \<in> set (chunks r')"
  using insert_effect[OF _ c ins] ok by (simp_all add: mid_ok_def)

section \<open>The contract\<close>

text \<open>
  The handler of a client disturbs the registry as theory \<^verbatim>\<open>Worker_Steps\<close> says, and subscribes nobody but this client.
\<close>

definition subscribes :: "client \<Rightarrow> ('r, 'n) server \<Rightarrow> ('r, 'n) server \<Rightarrow> bool" where
  "subscribes me s s' \<longleftrightarrow> watching (subs (snd s')) \<subseteq> watching (subs (snd s)) \<union> UNIV \<times> {me}"

lemma subscribes_nobody [simp]: "subs (snd s') = subs (snd s) \<Longrightarrow> subscribes me s s'"
  by (simp add: subscribes_def)

text \<open>The cells that an acknowledgement says are placed.\<close>

definition acknowledged :: "OutgoingMessage \<Rightarrow> (i64 \<times> i64) list" where
  "acknowledged msg =
     (case outPayload msg of
        OfSpawn cmd \<Rightarrow> [(spawnX cmd, spawnY cmd)]
      | OfPlaceShape cmd \<Rightarrow>
          (case GetShape (shapeName cmd) of
             None \<Rightarrow> [] | Some cells \<Rightarrow> map (\<lambda>c. (shapeX cmd + offX c, shapeY cmd + offY c)) cells)
      | OfPlaceCustom cmd \<Rightarrow>
          (case ValidateCustomCells (elements (customCells cmd)) of
             Inl code \<Rightarrow> [] | Inr cells \<Rightarrow> map (\<lambda>c. (customX cmd + cellX c, customY cmd + cellY c)) cells)
      | OfChunkState cells \<Rightarrow> []
      | OfError err \<Rightarrow> [])"

text \<open>
  The contract has two forms. In general workers may run, and a handler can rely only on the objects it has a
  pointer to. As long as no worker runs, nothing but other handlers' actions happens meanwhile, and every
  acknowledgement that is written is true; then \<open>obs\<close> says which messages have been written to the network.
\<close>

definition records :: "('r, 'n) Env \<Rightarrow> ('n \<Rightarrow> OutgoingMessage set) \<Rightarrow> bool" where
  "records env sent \<longleftrightarrow> (\<forall>cl msg n. sent (fst (WriteJSON env cl msg n)) \<subseteq> insert msg (sent n))"

definition truthful :: "('n \<Rightarrow> OutgoingMessage set) \<Rightarrow> ('r, 'n) server \<Rightarrow> ('r, 'n) server \<Rightarrow> bool" where
  "truthful sent s s' \<longleftrightarrow>
     (\<forall>msg\<in>sent (net (snd s')) - sent (net (snd s)). world_cell ` set (acknowledged msg) \<subseteq> board (fst s'))"

definition kept :: "('r, 'n) Env \<Rightarrow> board \<Rightarrow> ('n \<Rightarrow> OutgoingMessage set) option \<Rightarrow> ('r, 'n) server \<Rightarrow> bool" where
  "kept env U obs s \<longleftrightarrow> mid_ok env U s \<and> (\<forall>sent. obs = Some sent \<longrightarrow> records env sent)"

definition meanwhile ::
  "board \<Rightarrow> ('n \<Rightarrow> OutgoingMessage set) option \<Rightarrow> ('r, 'n) server \<Rightarrow> ('r, 'n) server \<Rightarrow> bool" where
  "meanwhile U obs s s' \<longleftrightarrow> later (fst s) (fst s') \<and> (obs \<noteq> None \<longrightarrow> disturbs U (fst s) (fst s'))"

definition may_do ::
  "board \<Rightarrow> ('n \<Rightarrow> OutgoingMessage set) option \<Rightarrow> client \<Rightarrow> ('r, 'n) server \<Rightarrow> ('r, 'n) server \<Rightarrow> bool" where
  "may_do U obs me s s' \<longleftrightarrow>
     disturbs U (fst s) (fst s') \<and> subscribes me s s' \<and> (\<forall>sent. obs = Some sent \<longrightarrow> truthful sent s s')"

interpretation handlers: interference "kept env U obs" "meanwhile U obs" "may_do U obs me"
  for env :: "('r, 'n) Env" and U obs me
  by unfold_locales (auto simp: meanwhile_def may_do_def intro: later_trans disturbs_later disturbs_trans)

abbreviation safe ::
  "('r, 'n) Env \<Rightarrow> board \<Rightarrow> ('n \<Rightarrow> OutgoingMessage set) option \<Rightarrow> client \<Rightarrow> ('a \<Rightarrow> ('r, 'n) server \<Rightarrow> bool) \<Rightarrow>
   ('r, 'n) server \<Rightarrow> ('r, 'n, 'a) handler \<Rightarrow> bool" where
  "safe env U obs me \<equiv> handlers.safe env U obs me"

text \<open>An action that writes nothing has nothing to acknowledge.\<close>

lemma safe_silent:
  assumes "\<And>s'. meanwhile U obs s s' \<Longrightarrow> mid_ok env U s' \<Longrightarrow> mid_ok env U (fst (op s')) \<and> disturbs U (fst s') (fst (fst (op s'))) \<and>
      subscribes me s' (fst (op s')) \<and> net (snd (fst (op s'))) = net (snd s')"
    and "\<And>s' s''. meanwhile U obs s s' \<Longrightarrow> mid_ok env U s' \<Longrightarrow> meanwhile U obs (fst (op s')) s'' \<Longrightarrow> Q (snd (op s')) s''"
  shows "safe env U obs me Q s (call op)"
  using assms by (intro handlers.safe_call) (auto simp: kept_def may_do_def truthful_def)

lemma safe_read [intro]:
  assumes "\<And>s' s''. mid_ok env U s' \<Longrightarrow> meanwhile U obs s s' \<Longrightarrow> meanwhile U obs s' s'' \<Longrightarrow> Q (f s') s''"
  shows "safe env U obs me Q s (read_state f)"
  unfolding read_state_def using assms by (intro safe_silent) auto

lemma safe_true [intro]: "safe env U obs me (\<lambda>_ _. True) s (Return a)"
  by (rule handlers.safe.return) simp

lemma safe_then:
  "safe env U obs me (\<lambda>_ _. True) s p \<Longrightarrow> (\<And>a s'. safe env U obs me R s' (g a)) \<Longrightarrow> safe env U obs me R s (andthen p g)"
  by (erule handlers.safe_andthen)

section \<open>Writing to the client\<close>

text \<open>Cells are known to be on the board only as long as no worker runs.\<close>

definition known_placed :: "('n \<Rightarrow> OutgoingMessage set) option \<Rightarrow> (i64 \<times> i64) set \<Rightarrow> ('r, 'n) server \<Rightarrow> bool" where
  "known_placed obs cells s \<longleftrightarrow> (obs \<noteq> None \<longrightarrow> world_cell ` cells \<subseteq> board (fst s))"

lemma known_placed_meanwhile: "known_placed obs cells s \<Longrightarrow> meanwhile U obs s s' \<Longrightarrow> known_placed obs cells s'"
  unfolding known_placed_def meanwhile_def disturbs_def by blast

lemma known_placed_none [simp]: "known_placed obs {} s"
  by (simp add: known_placed_def)

lemma safe_send:
  assumes "known_placed obs (set (acknowledged msg)) s"
  shows "safe env U obs me (\<lambda>_ _. True) s (send_prog env cl msg)"
  unfolding send_prog_def
proof (rule handlers.safe_call)
  fix s'
  assume s': "meanwhile U obs s s'" "kept env U obs s'"
  let ?t = "send env cl msg s'"
  have same: "fst ?t = fst s'" "subs (snd ?t) = subs (snd s')" "db (snd ?t) = db (snd s')"
    by (simp_all add: send_def case_prod_unfold)
  have "truthful sent s' ?t" if obs: "obs = Some sent" for sent
  proof -
    have "sent (net (snd ?t)) \<subseteq> insert msg (sent (net (snd s')))"
      using s'(2) obs by (simp add: kept_def records_def send_def case_prod_unfold)
    then have "sent (net (snd ?t)) - sent (net (snd s')) \<subseteq> {msg}" by blast
    moreover have "world_cell ` set (acknowledged msg) \<subseteq> board (fst ?t)"
      using known_placed_meanwhile[OF assms s'(1)] by (simp add: known_placed_def obs same)
    ultimately show ?thesis unfolding truthful_def by blast
  qed
  then show "kept env U obs (fst (?t, ())) \<and> may_do U obs me s' (fst (?t, ()))"
    using s'(2) mid_ok_cong[OF same] by (simp add: kept_def may_do_def same)
qed simp

lemma safe_sendError [intro]: "safe env U obs me (\<lambda>_ _. True) s (sendError_prog env cl code txt)"
  using safe_send[of obs "OutgoingMessage ''ERROR'' (OfError (ErrorPayload code txt))" s]
  by (simp add: sendError_prog_def send_prog_def sendError_def acknowledged_def)

section \<open>The parts of the handlers\<close>

lemma safe_limiter:
  assumes "\<And>d. fst (op d) = serves env q d" "drains_ok q"
  shows "safe env U obs me (\<lambda>_ _. True) s (on_db op)"
  unfolding on_db_def
proof (rule safe_silent)
  fix s'
  assume ok: "mid_ok env U s'"
  then have laws: "redis_eval_laws (redisClient env)" "redis_frame_laws (redisClient env)"
    by (simp_all add: mid_ok_def env_ok_def redis_ok_def)
  have "stored_within (redisClient env) U (serves env q d) = stored_within (redisClient env) U d" for d
    using serve_same_chunks[OF laws, of d q] by (simp add: same_chunks_def stored_within_def redis_engine.holds_def)
  then show "mid_ok env U (fst (case s' of (r, w) \<Rightarrow> case op (db w) of (d, x) \<Rightarrow> ((r, w\<lparr>db := d\<rparr>), x))) \<and>
      disturbs U (fst s') (fst (fst (case s' of (r, w) \<Rightarrow> case op (db w) of (d, x) \<Rightarrow> ((r, w\<lparr>db := d\<rparr>), x)))) \<and>
      subscribes me s' (fst (case s' of (r, w) \<Rightarrow> case op (db w) of (d, x) \<Rightarrow> ((r, w\<lparr>db := d\<rparr>), x))) \<and>
      net (snd (fst (case s' of (r, w) \<Rightarrow> case op (db w) of (d, x) \<Rightarrow> ((r, w\<lparr>db := d\<rparr>), x)))) = net (snd s')"
    using ok serve_serving[OF _ assms(2)] by (auto simp: mid_ok_def case_prod_unfold assms(1))
qed simp

lemma safe_AllowMutation: "safe env U obs me (\<lambda>_ _. True) s (on_db (AllowMutation (redisClient env) p now))"
  by (rule safe_limiter[of _ _ "Mutate p now"]) (simp_all add: drains_ok_def split: prod.split sum.split)

lemma safe_DrainN: "safe env U obs me (\<lambda>_ _. True) s (on_db (DrainN (redisClient env) p now (int n)))"
  by (rule safe_limiter[of _ _ "Drain p now (int n)"]) (simp_all add: drains_ok_def)

text \<open>What is known of the chunk that \<open>GetOrCreate\<close> returned: that it is active, only as long as no worker runs.\<close>

definition holds_handle :: "('n \<Rightarrow> OutgoingMessage set) option \<Rightarrow> ChunkID \<Rightarrow> handle \<Rightarrow> ('r, 'n) server \<Rightarrow> bool" where
  "holds_handle obs i a s \<longleftrightarrow> a < length (heap (fst s)) \<and> ID (chunk_at (fst s) a) = i \<and>
     (obs \<noteq> None \<longrightarrow> (i, a) \<in> set (chunks (fst s)))"

lemma holds_handle_meanwhile: "holds_handle obs i a s \<Longrightarrow> meanwhile U obs s s' \<Longrightarrow> holds_handle obs i a s'"
  by (auto simp: holds_handle_def meanwhile_def later_def disturbs_def)

lemma entry_handle: "reg_core (fst s) \<Longrightarrow> (i, a) \<in> set (chunks (fst s)) \<Longrightarrow> holds_handle obs i a s"
  by (simp add: holds_handle_def reg_coreD(1,2))

lemma safe_GetOrCreate:
  fixes env :: "('r, 'n) Env"
  shows "safe env U obs me (holds_handle obs i) s (GetOrCreate_prog env i)"
  unfolding GetOrCreate_prog_def
proof (rule handlers.safe_andthen)
  show "safe env U obs me (\<lambda>found s'. \<forall>a. found = Some a \<longrightarrow> holds_handle obs i a s') s (read_state (\<lambda>s. map_of (chunks (fst s)) i))"
    by (rule safe_read) (auto simp: mid_ok_def reg_coreD(5) intro: holds_handle_meanwhile entry_handle)
next
  fix found and s1 :: "('r, 'n) server"
  assume found: "\<forall>a. found = Some a \<longrightarrow> holds_handle obs i a s1"
  let ?load = "read_state (\<lambda>s. GetOrCreate_load (registry_config env) (snd s) i)"
  let ?insert = "\<lambda>c s. case GetOrCreate_insert i c (fst s) of (a, r') \<Rightarrow> ((r', snd s), a)"
  have load: "safe env U obs me (\<lambda>c s'. ID c = i \<and> wf_rows (rows c) \<and> cells_of i (rows c) \<subseteq> U) s1 ?load"
    by (rule safe_read) (auto simp: mid_ok_def load_within)
  have insert: "safe env U obs me (holds_handle obs i) s2 (call (?insert c))"
    if c: "ID c = i \<and> wf_rows (rows c) \<and> cells_of i (rows c) \<subseteq> U" for c s2
  proof -
    have "mid_ok env U (fst (?insert c s')) \<and> disturbs U (fst s') (fst (fst (?insert c s'))) \<and> subscribes me s' (fst (?insert c s')) \<and>
        net (snd (fst (?insert c s'))) = net (snd s') \<and> holds_handle obs i (snd (?insert c s')) (fst (?insert c s'))" if "mid_ok env U s'" for s'
    proof -
      obtain a r' where ins: "GetOrCreate_insert i c (fst s') = (a, r')" by fastforce
      note eff = insert_ok[OF that _ _ _ ins] and c' = c
      then show ?thesis by (auto simp: ins mid_ok_def intro: entry_handle)
    qed
    then show ?thesis by (intro safe_silent) (auto intro: holds_handle_meanwhile)
  qed
  show "safe env U obs me (holds_handle obs i) s1 (case found of Some a \<Rightarrow> Return a | None \<Rightarrow> andthen ?load (\<lambda>c. call (?insert c)))"
    using found handlers.safe_andthen[OF load insert]
    by (auto split: option.split intro: handlers.safe.return holds_handle_meanwhile)
qed

lemma safe_spawn:
  assumes "world_cell xy \<in> U"
  shows "safe env U obs me (\<lambda>_. known_placed obs {xy}) s (spawnWorldCell_prog env xy)"
proof -
  obtain cx lx where x: "worldToChunkLocal (fst xy) = (cx, lx)" by fastforce
  obtain cy ly where y: "worldToChunkLocal (snd xy) = (cy, ly)" by fastforce
  let ?op = "\<lambda>a s. ((ProcessSpawn a lx ly (fst s), snd s), ())"
  have cell: "gcell (ChunkID cx cy) (unat lx, unat ly) = world_cell xy"
    using worldToChunkLocal_coord(3)[OF x] worldToChunkLocal_coord(3)[OF y] by (simp add: gcell_def world_cell_def)
  have "safe env U obs me (\<lambda>_. known_placed obs {xy}) s1 (call (?op a))"
    if h: "holds_handle obs (ChunkID cx cy) a s1" for a s1
  proof (rule safe_silent)
    fix s'
    assume s': "meanwhile U obs s1 s'" "mid_ok env U s'"
    note h' = holds_handle_meanwhile[OF h s'(1)]
    have core: "reg_core (fst s')" using s'(2) by (simp add: mid_ok_def)
    show "mid_ok env U (fst (?op a s')) \<and> disturbs U (fst s') (fst (fst (?op a s'))) \<and>
        subscribes me s' (fst (?op a s')) \<and> net (snd (fst (?op a s'))) = net (snd s')"
      using h' s'(2) spawn_effect[OF core, of a lx ly U] cell assms by (simp add: mid_ok_def holds_handle_def)
    have "known_placed obs {xy} (fst (?op a s'))"
      using h' spawned_cell[OF core] worldToChunkLocal_coord(2)[OF x] worldToChunkLocal_coord(2)[OF y]
      by (simp add: known_placed_def holds_handle_def flip: cell)
    then show "known_placed obs {xy} s''" if "meanwhile U obs (fst (?op a s')) s''" for s''
      using known_placed_meanwhile that by blast
  qed
  from handlers.safe_andthen[OF safe_GetOrCreate this] show ?thesis
    by (simp add: spawnWorldCell_prog_def x y)
qed

lemma safe_spawns:
  fixes env :: "('r, 'n) Env"
  assumes "world_cell ` set (map g cs) \<subseteq> U"
  shows "safe env U obs me (\<lambda>_. known_placed obs (set (map g cs))) s (each (\<lambda>c. spawnWorldCell_prog env (g c)) cs)"
proof (rule handlers.safe_conseq[OF handlers.safe_each])
  show "safe env U obs me (\<lambda>_. known_placed obs {g c}) s' (spawnWorldCell_prog env (g c))" if "c \<in> set cs" for c s'
    using assms that by (intro safe_spawn) auto
  show "known_placed obs {g c} s'" if "known_placed obs {g c} s1" "meanwhile U obs s1 s'" for c and s1 s' :: "('r, 'n) server"
    using known_placed_meanwhile that by blast
qed (auto simp: known_placed_def)

lemma safe_parsePayload: "safe env U obs me (\<lambda>x _. x = recode decode zero payload) s (parsePayload_prog env cl decode zero payload)"
  by (auto simp: parsePayload_prog_def split: option.split intro!: handlers.safe.return safe_then)

lemma safe_checkRateLimit: "safe env U obs me (\<lambda>_ _. True) s (checkRateLimit_prog env p cl now)"
  unfolding checkRateLimit_prog_def
  by (rule safe_then[OF safe_AllowMutation]) (auto split: sum.split intro!: safe_then)

lemma safe_chargeN: "safe env U obs me (\<lambda>_ _. True) s (chargeN_prog env p cl clock n)"
  by (induction n arbitrary: clock s) (auto intro!: safe_then safe_checkRateLimit)

lemma safe_PeekChunk: "safe env U obs me (\<lambda>_ _. True) s (PeekChunk_prog env i)"
  unfolding PeekChunk_prog_def by (rule safe_then) (auto split: option.split)

lemma safe_subs:
  assumes "\<And>ps. pubsub_wf ps \<Longrightarrow> pubsub_wf (f ps) \<and> watching (f ps) \<subseteq> watching ps \<union> UNIV \<times> {me}"
  shows "safe env U obs me (\<lambda>_ _. True) s (call (\<lambda>(r, w). ((r, w\<lparr>subs := f (subs w)\<rparr>), ())))"
proof (rule safe_silent)
  fix s'
  assume ok: "mid_ok env U s'"
  then have "pubsub_wf (subs (snd s'))" by (simp add: mid_ok_def)
  from assms[OF this] ok show "mid_ok env U (fst (case s' of (r, w) \<Rightarrow> ((r, w\<lparr>subs := f (subs w)\<rparr>), ()))) \<and>
      disturbs U (fst s') (fst (fst (case s' of (r, w) \<Rightarrow> ((r, w\<lparr>subs := f (subs w)\<rparr>), ())))) \<and>
      subscribes me s' (fst (case s' of (r, w) \<Rightarrow> ((r, w\<lparr>subs := f (subs w)\<rparr>), ()))) \<and>
      net (snd (fst (case s' of (r, w) \<Rightarrow> ((r, w\<lparr>subs := f (subs w)\<rparr>), ())))) = net (snd s')"
    by (cases s') (simp add: mid_ok_def subscribes_def)
qed simp

lemma safe_subscribe_ref: "safe env U obs cl (\<lambda>_ _. True) s (subscribe_ref_prog env cl ref)"
proof -
  have create: "safe env U obs cl (\<lambda>_ _. True) s (andthen (GetOrCreate_prog env i)
      (\<lambda>_. send_prog env cl (OutgoingMessage ty (OfChunkState chunk))))" for s i ty chunk
    by (rule handlers.safe_andthen[OF safe_GetOrCreate safe_send]) (simp add: acknowledged_def)
  have sub: "safe env U obs cl (\<lambda>_ _. True) s (call (\<lambda>(r, w). ((r, w\<lparr>subs := Subscribe i cl (subs w)\<rparr>), ())))" for s i
    by (rule safe_subs) (auto simp: wf_Subscribe pubsub.watchers_sub)
  show ?thesis
    unfolding subscribe_ref_prog_def Let_def
    by (intro safe_then[OF sub] safe_then[OF safe_PeekChunk]) (auto intro: create)
qed

lemma safe_unsubscribe_ref: "safe env U obs cl (\<lambda>_ _. True) s (call (\<lambda>s. (unsubscribe_ref cl ref s, ())))"
proof -
  have "safe env U obs cl (\<lambda>_ _. True) s (call (\<lambda>(r, w). ((r, w\<lparr>subs := Unsubscribe i cl (subs w)\<rparr>), ())))" for i
    by (rule safe_subs) (auto simp: pubsub.wf_keep pubsub.watchers_unsub)
  then show ?thesis by (simp add: unsubscribe_ref_def case_prod_unfold)
qed

section \<open>The handlers\<close>

lemma safe_Route:
  assumes "world_cell ` set (requested msg) \<subseteq> U"
  shows "safe env U obs cl (\<lambda>_ _. True) s (Route_prog env p msg cl clock)"
proof -
  have spawn: "safe env U obs cl (\<lambda>_ _. True) s (Route_SPAWN_prog env p (inPayload msg) cl clock)" if ty: "inType msg = ''SPAWN''"
  proof -
    have "safe env U obs cl (\<lambda>_ _. True) s' (andthen (spawnWorldCell_prog env (spawnX cmd, spawnY cmd))
        (\<lambda>_. send_prog env cl (OutgoingMessage ''SPAWN_ACK'' (OfSpawn cmd))))"
      if "recode decode_SpawnCommand (SpawnCommand 0 0) (inPayload msg) = Some cmd" for cmd s'
      using assms that ty by (intro handlers.safe_andthen[OF safe_spawn safe_send]) (simp_all add: requested_def acknowledged_def)
    then show ?thesis
      unfolding Route_SPAWN_prog_def
      by (intro safe_then[OF safe_checkRateLimit]) (auto split: option.split intro!: handlers.safe_andthen[OF safe_parsePayload])
  qed
  have placing: "safe env U obs cl (\<lambda>_ _. True) s' (andthen (each (\<lambda>c. spawnWorldCell_prog env (g c)) cs) (\<lambda>_. send_prog env cl ack))"
    if "requested msg = map g cs" "acknowledged ack = map g cs" for g :: "'x \<Rightarrow> i64 \<times> i64" and cs ack s'
    using assms by (intro handlers.safe_andthen[OF safe_spawns safe_send]) (simp_all add: that)
  have shape: "safe env U obs cl (\<lambda>_ _. True) s (Route_PLACE_SHAPE_prog env p (inPayload msg) cl clock)" if ty: "inType msg = ''PLACE_SHAPE''"
    unfolding Route_PLACE_SHAPE_prog_def
    by (rule handlers.safe_andthen[OF safe_parsePayload])
      (auto simp: requested_def acknowledged_def ty split: option.split intro!: safe_then[OF safe_chargeN] placing)
  have custom: "safe env U obs cl (\<lambda>_ _. True) s (Route_PLACE_CUSTOM_prog env p (inPayload msg) cl clock)" if ty: "inType msg = ''PLACE_CUSTOM''"
    unfolding Route_PLACE_CUSTOM_prog_def
    by (rule handlers.safe_andthen[OF safe_parsePayload])
      (auto simp: requested_def acknowledged_def ty split: option.split sum.split intro!: safe_then[OF safe_DrainN] placing)
  have subs: "safe env U obs cl (\<lambda>_ _. True) s (Route_SUBSCRIBE_prog env pl cl)" "safe env U obs cl (\<lambda>_ _. True) s (Route_UNSUBSCRIBE_prog env pl cl)" for pl
    unfolding Route_SUBSCRIBE_prog_def Route_UNSUBSCRIBE_prog_def
    by (rule handlers.safe_andthen[OF safe_parsePayload],
        auto split: option.split intro!: handlers.safe_each[where P = "\<lambda>_ _. True", simplified] safe_subscribe_ref safe_unsubscribe_ref)+
  show ?thesis using spawn shape custom subs by (auto simp: Route_prog_def)
qed

lemma safe_handle_message:
  "world_cell ` set (wire_cells (fst m)) \<subseteq> U \<Longrightarrow> safe env U obs cl (\<lambda>_ _. True) s (handle_message_prog env p cl m)"
  by (auto simp: handle_message_prog_def wire_cells_def split: option.splits intro: safe_Route)

text \<open>The cleanup of a connection.\<close>

lemma close_ok:
  assumes "mid_ok env U s"
  shows "mid_ok env U (close_connection cl s)" "fst (close_connection cl s) = fst s" "net (snd (close_connection cl s)) = net (snd s)"
    "watching (subs (snd (close_connection cl s))) = watching (subs (snd s)) - UNIV \<times> {cl}"
  using assms pubsub.wf_keep pubsub.watchers_drop[of "subs (snd s)" cl]
  by (auto simp: close_connection_def mid_ok_def split: prod.split)

end
