(* ===== verification/Jobs.thy ===== *)
theory Jobs
  imports Worker_Steps
begin

text \<open>
  What is known of the jobs of a running tick, whatever order their steps are taken in and whatever handlers
  do in between.
\<close>

section \<open>What is known of a job\<close>

text \<open>
  \<open>N\<close> is the generation the tick computes, \<open>U\<close> the cells that handlers may place meanwhile. What is known
  of a job: its chunk stays active until the end, before its rows are stored they are those of the
  generation, afterwards the chunk's part of the board is, up to cells of \<open>U\<close>.
\<close>

definition job_id :: "Registry \<Rightarrow> tickJob \<times> job_phase \<Rightarrow> ChunkID" where
  "job_id r x = ID (chunk_at r (state (fst x)))"

lemma job_id_pair [simp]: "job_id r (job, ph) = ID (chunk_at r (state job))"
  by (simp add: job_id_def)

definition settled :: "board \<Rightarrow> board \<Rightarrow> board \<Rightarrow> ChunkID \<Rightarrow> bool" where
  "settled U N B i \<longleftrightarrow> N \<inter> area i \<subseteq> B \<and> B \<inter> area i \<subseteq> N \<union> U"

definition job_known :: "board \<Rightarrow> board \<Rightarrow> Registry \<Rightarrow> tickJob \<times> job_phase \<Rightarrow> bool" where
  "job_known U N r x \<longleftrightarrow> state (fst x) < length (heap r) \<and>
     (snd x \<noteq> Finished \<longrightarrow> (job_id r x, state (fst x)) \<in> set (chunks r)) \<and>
     settled U N (if snd x = Received then cells_of (job_id r x) (next_rows (job_id r x) (fst x)) else board r) (job_id r x) \<and>
     (seen_empty (snd x) \<longrightarrow> N \<inter> area (job_id r x) = {})"

lemma job_known_pair:
  "job_known U N r (job, ph) \<longleftrightarrow> state job < length (heap r) \<and>
     (ph \<noteq> Finished \<longrightarrow> (ID (chunk_at r (state job)), state job) \<in> set (chunks r)) \<and>
     settled U N (if ph = Received then cells_of (ID (chunk_at r (state job))) (next_rows (ID (chunk_at r (state job))) job)
       else board r) (ID (chunk_at r (state job))) \<and>
     (seen_empty ph \<longrightarrow> N \<inter> area (ID (chunk_at r (state job))) = {})"
  unfolding job_known_def job_id_pair fst_conv snd_conv ..

definition jobs_known :: "board \<Rightarrow> board \<Rightarrow> Registry \<Rightarrow> (tickJob \<times> job_phase) multiset \<Rightarrow> bool" where
  "jobs_known U N r J \<longleftrightarrow> (\<forall>x\<in>#J. job_known U N r x) \<and>
     (\<forall>i. count (image_mset (job_id r) J) i \<le> 1) \<and>
     (\<forall>i. i \<notin># image_mset (job_id r) J \<longrightarrow> settled U N (board r) i) \<and>
     (\<forall>(i, a)\<in>set (chunks r). idle_below r a \<or> (\<exists>x\<in>#J. state (fst x) = a \<and> leaving (snd x)))"

lemma settled_trivial [simp]: "settled UNIV {} B i"
  by (simp add: settled_def)

lemma settled_cong: "B \<inter> area i = B' \<inter> area i \<Longrightarrow> settled U N B i = settled U N B' i"
  by (auto simp: settled_def)

lemma settled_grows: "settled U N B i \<Longrightarrow> B \<subseteq> B' \<Longrightarrow> B' \<subseteq> B \<union> U \<Longrightarrow> settled U N B' i"
  by (auto simp: settled_def)

lemma job_id_later: "state (fst x) < length (heap r) \<Longrightarrow> later r r' \<Longrightarrow> job_id r' x = job_id r x"
  by (simp add: later_def job_id_def)

lemma job_ids_later:
  assumes "jobs_known U N r J" "later r r'"
  shows "image_mset (job_id r') J = image_mset (job_id r) J"
  using assms job_id_later by (intro image_mset_cong) (auto simp: jobs_known_def job_known_def)

text \<open>A handler's action keeps what is known of the jobs.\<close>

lemma jobs_known_disturbed:
  assumes J: "jobs_known U N r J" and d: "disturbs U r r'" and core: "reg_core r"
  shows "jobs_known U N r' J"
proof -
  have later: "later r r'" and b: "board r \<subseteq> board r'" "board r' \<subseteq> board r \<union> U" and ch: "set (chunks r) \<subseteq> set (chunks r')"
    using d by (simp_all add: disturbs_def)
  note ids = job_ids_later[OF J later]
  have "job_known U N r' x" if "x \<in># J" for x
  proof -
    have x: "job_known U N r x" using J that by (simp add: jobs_known_def)
    then have a: "state (fst x) < length (heap r)" by (simp add: job_known_def)
    then show ?thesis
      using x later ch settled_grows[OF _ b] by (auto simp: job_known_def job_id_later[OF a later] later_def split: if_splits)
  qed
  moreover have "idle_below r' a \<or> (\<exists>x\<in>#J. state (fst x) = a \<and> leaving (snd x))" if a: "(i, a) \<in> set (chunks r')" for i a
  proof -
    have "(i, a) \<in> set (chunks r) \<Longrightarrow> idle_below r a \<Longrightarrow> idle_below r' a"
      using d reg_coreD(1)[OF core] by (auto simp: disturbs_def idle_below_def)
    moreover have "(i, a) \<in> set (chunks r) \<or> idle_below r' a" using d a by (auto simp: disturbs_def)
    ultimately show ?thesis using J by (auto simp: jobs_known_def)
  qed
  ultimately show ?thesis
    using J settled_grows[OF _ b] by (auto simp: jobs_known_def ids)
qed

section \<open>A worker's step\<close>

lemma own_job:
  assumes core: "reg_core r" and x: "job_known U N r (job, ph)" and k: "k < length (workers r)" and live: "ph \<noteq> Finished"
    and res: "processJob_step cfg k job ph (r, w) = (ph', r', w')"
  shows "job_known U N r' (job, ph')"
proof -
  define i where "i = ID (chunk_at r (state job))"
  have e: "(i, state job) \<in> set (chunks r)" using x live by (simp add: job_known_pair i_def)
  note eff = step_effect[OF core e k res] and phase = step_phase[OF core e k res]
  have before: "settled U N (if ph = Received then cells_of i (next_rows i job) else board r) i" "seen_empty ph \<longrightarrow> N \<inter> area i = {}"
    using x unfolding job_known_pair i_def by blast+
  have after: "settled U N (board r') i"
  proof (cases "ph = Received \<or> ph = Persisted")
    case True
    then consider "board r' \<inter> area i = cells_of i (next_rows i job)" "ph = Received" | "board r' \<inter> area i = {}" "ph = Persisted"
      using eff(6)[of i] by auto
    then show ?thesis using before by cases (simp_all add: settled_def, blast+)
  next
    case False
    then have "board r' \<inter> area i = board r \<inter> area i" using eff(6)[of i] by (cases ph) auto
    from settled_cong[OF this] show ?thesis using before(1) False by simp
  qed
  have "ID (chunk_at r' (state job)) = i" using eff(3) reg_coreD(1)[OF core e] by (simp add: later_def i_def)
  moreover have "ph' \<noteq> Finished \<Longrightarrow> ph \<noteq> Persisted" using res by auto
  ultimately show ?thesis
    using after before(2) phase(1,2) e eff(3,4) reg_coreD(1)[OF core e] by (auto simp: job_known_pair later_def settled_def)
qed

lemma other_job:
  assumes core: "reg_core r" and J: "jobs_known U N r (add_mset (job, ph) J)" and k: "k < length (workers r)" and live: "ph \<noteq> Finished"
    and res: "processJob_step cfg k job ph (r, w) = (ph', r', w')" and y: "y \<in># J"
  shows "job_known U N r' y" "job_id r' y = job_id r y" "job_id r y \<noteq> ID (chunk_at r (state job))" "state (fst y) \<noteq> state job"
proof -
  define i where "i = ID (chunk_at r (state job))"
  have e: "(i, state job) \<in> set (chunks r)" using J live by (simp add: jobs_known_def job_known_pair i_def)
  note eff = step_effect[OF core e k res]
  have known: "job_known U N r y" using J y by (simp add: jobs_known_def)
  then have a: "state (fst y) < length (heap r)" by (simp add: job_known_def)
  show id: "job_id r' y = job_id r y" by (rule job_id_later[OF a eff(3)])
  have "count (image_mset (job_id r) (add_mset (job, ph) J)) i \<le> 1" using J unfolding jobs_known_def by blast
  then have "count (image_mset (job_id r) J) i = 0" by (simp add: i_def)
  then have "i \<notin># image_mset (job_id r) J" by (simp only: not_in_iff)
  then show ne: "job_id r y \<noteq> ID (chunk_at r (state job))" using y by (simp add: i_def) (metis imageI)
  then show "state (fst y) \<noteq> state job" by (auto simp: job_id_def)
  have "board r' \<inter> area (job_id r y) = board r \<inter> area (job_id r y)" using eff(6) ne by (simp add: i_def)
  from settled_cong[OF this] show "job_known U N r' y"
    using known id ne eff(3,4) by (auto simp: job_known_def later_def i_def split: if_splits)
qed

lemma step_idle:
  assumes core: "reg_core r" and J: "jobs_known U N r (add_mset (job, ph) J)" and k: "k < length (workers r)" and live: "ph \<noteq> Finished"
    and res: "processJob_step cfg k job ph (r, w) = (ph', r', w')" and a: "(j, a) \<in> set (chunks r')"
  shows "idle_below r' a \<or> (\<exists>y\<in>#add_mset (job, ph') J. state (fst y) = a \<and> leaving (snd y))"
proof -
  define i where "i = ID (chunk_at r (state job))"
  have e: "(i, state job) \<in> set (chunks r)" using J live by (simp add: jobs_known_def job_known_pair i_def)
  note eff = step_effect[OF core e k res] and other = other_job(4)[OF core J k live res]
  have old: "(j, a) \<in> set (chunks r)" "ph = Persisted \<Longrightarrow> j \<noteq> i" using a eff(4) by (auto split: if_splits)
  have known: "idle_below r a \<or> (\<exists>y\<in>#add_mset (job, ph) J. state (fst y) = a \<and> leaving (snd y))"
    using J old(1) by (auto simp: jobs_known_def)
  show ?thesis
  proof (cases "a = state job")
    case True
    then have "j = i" using old(1) reg_coreD(2)[OF core] e by metis
    then have "ph \<noteq> Persisted" using old(2) by blast
    then show ?thesis using res step_phase(4)[OF core e k res] other True known by (cases ph) auto
  next
    case False
    then show ?thesis using known eff(5)[of a] by (auto simp: idle_below_def)
  qed
qed

lemma step_keeps_jobs:
  assumes core: "reg_core r" and J: "jobs_known U N r (add_mset (job, ph) J)" and k: "k < length (workers r)"
    and res: "processJob_step cfg k job ph (r, w) = (ph', r', w')"
  shows "jobs_known U N r' (add_mset (job, ph') J)"
proof (cases "ph = Finished")
  case True
  then show ?thesis using res J by simp
next
  case live: False
  define i where "i = ID (chunk_at r (state job))"
  have x: "job_known U N r (job, ph)" using J by (simp add: jobs_known_def)
  then have e: "(i, state job) \<in> set (chunks r)" using live by (simp add: job_known_pair i_def)
  note eff = step_effect[OF core e k res] and other = other_job[OF core J k live res]
  have "ID (chunk_at r' (state job)) = i" using eff(3) reg_coreD(1)[OF core e] by (simp add: later_def i_def)
  then have ids: "image_mset (job_id r') (add_mset (job, ph') J) = image_mset (job_id r) (add_mset (job, ph) J)"
    using other(2) by (simp add: i_def cong: image_mset_cong)
  have "settled U N (board r') j" if "j \<notin># image_mset (job_id r) (add_mset (job, ph) J)" for j
  proof -
    have "board r' \<inter> area j = board r \<inter> area j" using that eff(6)[of j] by (simp add: i_def)
    from settled_cong[OF this] show ?thesis using J that unfolding jobs_known_def by blast
  qed
  moreover have "\<forall>y\<in>#add_mset (job, ph') J. job_known U N r' y" using own_job[OF core x k live res] other(1) by simp
  moreover have "\<forall>(j, a)\<in>set (chunks r'). idle_below r' a \<or> (\<exists>y\<in>#add_mset (job, ph') J. state (fst y) = a \<and> leaving (snd y))"
    using step_idle[OF core J k live res] by blast
  ultimately show ?thesis using J unfolding jobs_known_def ids by blast
qed

section \<open>The end of a tick\<close>

lemma board_subsetI: "(\<And>i. B \<inter> area i \<subseteq> B') \<Longrightarrow> B \<subseteq> B'"
proof
  fix g
  assume sub: "\<And>i. B \<inter> area i \<subseteq> B'" and g: "g \<in> B"
  obtain i where "g \<in> area i" by (rule area_cover)
  then show "g \<in> B'" using sub[of i] g by blast
qed

lemma jobs_settled:
  assumes "jobs_known U N r J" "\<forall>x\<in>#J. snd x = Finished"
  shows "N \<subseteq> board r" "board r \<subseteq> N \<union> U" "\<forall>(i, a)\<in>set (chunks r). idle_below r a"
proof -
  have "settled U N (board r) i" for i
    using assms by (cases "i \<in># image_mset (job_id r) J") (auto simp: jobs_known_def job_known_def)
  then show "N \<subseteq> board r" "board r \<subseteq> N \<union> U" by (simp_all add: board_subsetI settled_def)
  show "\<forall>(i, a)\<in>set (chunks r). idle_below r a" using assms by (auto simp: jobs_known_def leaving_def)
qed

lemma disturbs_wf:
  assumes "reg_wf r" "reg_core r'" "disturbs U r r'"
  shows "reg_wf r'"
proof -
  have "idle_below r' a" if "(i, a) \<in> set (chunks r')" for i a
    using disturbs_idle[OF assms(3) that] assms(1) by (auto simp: reg_wf_core dest: reg_coreD(1))
  then show ?thesis using assms(2) by (auto simp: reg_wf_core)
qed

end
