(* ===== verification/Snapshot.thy ===== *)
theory Snapshot
  imports Jobs
begin

text \<open>
  What a tick computes from the rows it has read one chunk after the other, while handlers go on: the
  generation of a board, and for a chunk created meanwhile its own part of it.
\<close>

section \<open>What a snapshot computes\<close>

text \<open>A registry that holds just the rows that were read.\<close>

definition frozen :: "(ChunkID \<times> rows) list \<Rightarrow> Registry" where
  "frozen es = \<lparr>chunks = zip (map fst es) [0..<length es],
     heap = map (\<lambda>e. \<lparr>chunk = \<lparr>ID = fst e, rows = snd e\<rparr>, idleTicks = 0\<rparr>) es, metrics = None, workers = [zero_scratch]\<rparr>"

lemma frozen_facts:
  shows "TickAll_entries (frozen es) = es" "fst ` set (chunks (frozen es)) = fst ` set es"
    "board (frozen es) = (\<Union>e\<in>set es. cells_of (fst e) (snd e))"
    "distinct (map fst es) \<Longrightarrow> \<forall>e\<in>set es. wf_rows (snd e) \<Longrightarrow> reg_wf (frozen es)"
proof -
  have all: "(i, a) \<in> set (chunks (frozen es)) \<longleftrightarrow> a < length es \<and> i = fst (es ! a)" for i a
    by (auto simp: frozen_def in_set_zip intro!: exI[of _ a])
  show "TickAll_entries (frozen es) = es"
    by (rule nth_equalityI) (simp_all add: TickAll_entries_def frozen_def Rows_def)
  have "map fst (chunks (frozen es)) = map fst es" by (simp add: frozen_def)
  from arg_cong[OF this, of set] show "fst ` set (chunks (frozen es)) = fst ` set es" by simp
  show "board (frozen es) = (\<Union>e\<in>set es. cells_of (fst e) (snd e))"
  proof -
    have "chunk_at (frozen es) a = \<lparr>ID = fst (es ! a), rows = snd (es ! a)\<rparr>" if "a < length es" for a
      using that by (simp add: frozen_def)
    then have "(\<Union>(i, a)\<in>set (chunks (frozen es)). cells_of i (rows (chunk_at (frozen es) a))) =
        (\<Union>a<length es. cells_of (fst (es ! a)) (snd (es ! a)))" using all by force
    also have "\<dots> = (\<Union>e\<in>set es. cells_of (fst e) (snd e))" proof -
      have "(!) es ` {..<length es} = set es" using arg_cong[OF map_nth[of es], of set] by (simp add: atLeast_upt)
      from arg_cong[OF this, of "\<lambda>X. \<Union>e\<in>X. cells_of (fst e) (snd e)"] show ?thesis by simp
    qed
    finally show ?thesis by (simp add: board_def)
  qed
  assume d: "distinct (map fst es)" and w: "\<forall>e\<in>set es. wf_rows (snd e)"
  then show "reg_wf (frozen es)"
    using all unfolding reg_wf_def by (auto simp: frozen_def entry_ok_def gauge_ok_def)
qed

lemma frozen_rows:
  assumes "distinct (map fst es)" "\<forall>e\<in>set es. wf_rows (snd e)" "(i, rs) \<in> set es"
  shows "entry_rows (frozen es) i = rs" "board (frozen es) \<inter> area i = cells_of i rs"
proof -
  note wf = frozen_facts(4)[OF assms(1,2)]
  have "(i, rs) \<in> set (TickAll_entries (frozen es))" using assms(3) by (simp add: frozen_facts(1))
  then have "i \<in> fst ` set (chunks (frozen es))" "rs = entry_rows (frozen es) i" by (simp_all add: entries_iff[OF wf])
  then show "entry_rows (frozen es) i = rs" "board (frozen es) \<inter> area i = cells_of i rs"
    using entry_rows_board(2)[OF wf] by simp_all
qed

text \<open>
  A job computes the generation of the board that was read, with its own rows if the chunk was created
  after the others had been read: its own cells count, but its neighbours have not seen them.
\<close>

lemma snapshot_generation:
  assumes d: "distinct (map fst es)" "\<forall>e\<in>set es. wf_rows (snd e)" and rs: "wf_rows rs"
    and own: "\<forall>rs'. map_of es i = Some rs' \<longrightarrow> rs = rs'"
  shows "cells_of i (next_rows i \<lparr>state = a, chunkRows = rs, halos = halo_of (fold send_halo (sends es) []) i\<rparr>) =
    life_step (board (frozen es) \<union> cells_of i rs) \<inter> area i"
proof -
  note wf = frozen_facts(4)[OF d]
  have h: "fold send_halo (sends es) [] = scan_halos (frozen es)" by (simp add: scan_halos_def frozen_facts(1))
  have job: "cells_of i (next_rows i \<lparr>state = a, chunkRows = rs, halos = halo_of (scan_halos (frozen es)) i\<rparr>) =
      life_step (cells_of i rs \<union> halo_cells (halo_of (scan_halos (frozen es)) i)) \<inter> area i"
    by (simp add: next_rows_def cells_of_TickBitset rs scan_halos_valid(1)[OF wf])
  show ?thesis
  proof (cases "map_of es i")
    case (Some rs')
    then have "(i, rs) \<in> set es" using own by (auto dest: map_of_SomeD)
    note frozen_rows(2)[OF d this]
    then have "board (frozen es) \<union> cells_of i rs = board (frozen es)" and "cells_of i rs = board (frozen es) \<inter> area i" by blast+
    then show ?thesis using life_step_chunk[OF wf, of i rs] by (simp add: h job)
  next
    case None
    let ?es = "es @ [(i, rs)]"
    have new: "i \<notin> fst ` set es" using None by (simp add: map_of_eq_None_iff)
    have d': "distinct (map fst ?es)" "\<forall>e\<in>set ?es. wf_rows (snd e)" using d rs new by auto
    note wf' = frozen_facts(4)[OF d']
    have same: "entry_rows (frozen ?es) n = entry_rows (frozen es) n" if "n \<in> fst ` set es" for n
    proof -
      from that obtain t where "(n, t) \<in> set es" by force
      then show ?thesis using frozen_rows(1)[OF d, of n t] frozen_rows(1)[OF d', of n t] by simp
    qed
    have "i \<noteq> shift_id i d" if "d \<in> set neighbourOffsets" for d
      using that self_not_neighbour[of i] unfolding neighbours_def by (metis imageI)
    then have "(n, t) \<in> set (halo_of (scan_halos (frozen ?es)) i) \<longleftrightarrow> (n, t) \<in> set (halo_of (scan_halos (frozen es)) i)" for n t
      unfolding scan_halos_valid(2)[OF wf] scan_halos_valid(2)[OF wf'] frozen_facts(2) using same by (auto; metis fst_conv imageI)
    then have "set (halo_of (scan_halos (frozen ?es)) i) = set (halo_of (scan_halos (frozen es)) i)" by auto
    then have "halo_cells (halo_of (scan_halos (frozen ?es)) i) = halo_cells (halo_of (scan_halos (frozen es)) i)"
      by (simp add: halo_cells_def)
    moreover have "board (frozen ?es) \<inter> area i = cells_of i rs" by (rule frozen_rows(2)[OF d']) simp
    moreover have "board (frozen ?es) = board (frozen es) \<union> cells_of i rs" by (auto simp: frozen_facts(3))
    ultimately show ?thesis using life_step_chunk[OF wf', of i rs] by (simp add: h job)
  qed
qed

lemma snapshot_dark:
  assumes d: "distinct (map fst es)" "\<forall>e\<in>set es. wf_rows (snd e)"
    and out: "i \<notin> fst ` set es" "\<forall>m\<in>set (sends es). snd (snd m) \<noteq> i"
  shows "life_step (board (frozen es)) \<inter> area i = {}"
proof (rule unreached_chunk[OF frozen_facts(4)[OF d]])
  show "i \<notin> fst ` set (chunks (frozen es))" using out(1) by (simp add: frozen_facts(2))
  fix n d'
  assume n: "n \<in> fst ` set (chunks (frozen es))" "d' \<in> set neighbourOffsets" "hasCellsNearEdge (entry_rows (frozen es) n) (fst d') (snd d')"
  then have "(n, entry_rows (frozen es) n) \<in> set es"
    using entries_iff[OF frozen_facts(4)[OF d]] by (simp add: frozen_facts(1))
  then have "(n, entry_rows (frozen es) n, shift_id n d') \<in> set (sends es)" using n by (auto simp: set_sends)
  then show "shift_id n d' \<noteq> i" using out(2) by force
qed

section \<open>What a tick computes among handlers\<close>

text \<open>
  The board that is read has every cell of the board at the beginning of the tick, and of the cells placed since
  then those that came before their chunk was read. A chunk that is created after that takes part with the cells
  \<open>S\<close> it has when it is read, but its neighbours do not see them.
\<close>

definition generation_of :: "board \<Rightarrow> Registry \<Rightarrow> board \<Rightarrow> bool" where
  "generation_of U r N \<longleftrightarrow> (\<exists>B S. board r \<subseteq> B \<and> B \<subseteq> board r \<union> U \<and>
     (\<forall>i. S i \<subseteq> area i \<inter> U \<and> (i \<in> fst ` set (chunks r) \<longrightarrow> S i = {})) \<and>
     N = (\<Union>i. life_step (B \<union> S i) \<inter> area i))"

lemma generation_area: "(\<Union>i. life_step (B \<union> S i) \<inter> area i) \<inter> area j = life_step (B \<union> S j) \<inter> area j"
proof -
  have "i = j" if "g \<in> area i" "g \<in> area j" for g i
    using area_disjoint[of i j] that by blast
  then show ?thesis by blast
qed

definition entries_seen :: "board \<Rightarrow> Registry \<Rightarrow> (ChunkID \<times> rows) list \<Rightarrow> bool" where
  "entries_seen U r es \<longleftrightarrow> distinct (map fst es) \<and> (\<forall>e\<in>set es. wf_rows (snd e)) \<and> fst ` set (chunks r) \<subseteq> fst ` set es \<and>
     (\<forall>e\<in>set es. board r \<inter> area (fst e) \<subseteq> cells_of (fst e) (snd e) \<and> cells_of (fst e) (snd e) \<subseteq> board r \<union> U)"

definition job_read :: "board \<Rightarrow> (ChunkID \<times> rows) list \<Rightarrow> ChunkID \<times> handle \<Rightarrow> tickJob \<Rightarrow> bool" where
  "job_read U es e job \<longleftrightarrow> state job = snd e \<and> halos job = halo_of (fold send_halo (sends es) []) (fst e) \<and> wf_rows (chunkRows job) \<and>
     (case map_of es (fst e) of Some rs \<Rightarrow> chunkRows job = rs | None \<Rightarrow> cells_of (fst e) (chunkRows job) \<subseteq> U)"

lemma entries_seen_board:
  assumes "reg_wf r" "entries_seen U r es"
  shows "board r \<subseteq> board (frozen es)" "board (frozen es) \<subseteq> board r \<union> U"
proof -
  have "board r \<inter> area i \<subseteq> board (frozen es)" for i
  proof (cases "i \<in> fst ` set es")
    case True
    then show ?thesis using assms(2) by (force simp: entries_seen_def frozen_facts(3))
  next
    case False
    then have "i \<notin> fst ` set (chunks r)" using assms(2) by (auto simp: entries_seen_def)
    then show ?thesis using board_area_inactive[OF assms(1)] by simp
  qed
  then show "board r \<subseteq> board (frozen es)" by (rule board_subsetI)
  show "board (frozen es) \<subseteq> board r \<union> U" using assms(2) by (auto simp: entries_seen_def frozen_facts(3))
qed

lemma job_computes:
  assumes seen: "entries_seen U r es" and job: "job_read U es (i, a) job"
  shows "cells_of i (next_rows i job) = life_step (board (frozen es) \<union> (if i \<in> fst ` set es then {} else cells_of i (chunkRows job))) \<inter> area i"
proof -
  have d: "distinct (map fst es)" "\<forall>e\<in>set es. wf_rows (snd e)" using seen by (simp_all add: entries_seen_def)
  have j: "job = \<lparr>state = a, chunkRows = chunkRows job, halos = halo_of (fold send_halo (sends es) []) i\<rparr>" "wf_rows (chunkRows job)"
    using job by (simp_all add: job_read_def)
  have own: "\<forall>rs. map_of es i = Some rs \<longrightarrow> chunkRows job = rs" using job by (auto simp: job_read_def)
  note gen = snapshot_generation[OF d j(2) own, where a = a, folded j(1)]
  show ?thesis
  proof (cases "i \<in> fst ` set es")
    case True
    then obtain rs where rs: "map_of es i = Some rs" by (metis map_of_eq_None_iff not_None_eq)
    then have "cells_of i (chunkRows job) \<subseteq> board (frozen es)"
      using own rs map_of_SomeD[OF rs] by (force simp: frozen_facts(3))
    then show ?thesis using gen True by (simp add: Un_absorb2)
  next
    case False
    then show ?thesis using gen by simp
  qed
qed

text \<open>The cells of the chunks that were created after the snapshot, as their jobs have them.\<close>

lemma late_cells:
  assumes seen: "entries_seen U r es" and cs: "distinct (map fst cs)" and jobs: "list_all2 (job_read U es) cs jobs"
  shows "\<exists>S. (\<forall>i. S i \<subseteq> area i \<inter> U) \<and> (\<forall>i\<in>fst ` set (chunks r). S i = {}) \<and> (\<forall>i. i \<notin> fst ` set cs \<longrightarrow> S i = {}) \<and>
    (\<forall>i a job. ((i, a), job) \<in> set (zip cs jobs) \<longrightarrow> S i = (if i \<in> fst ` set es then {} else cells_of i (chunkRows job)))"
proof -
  let ?m = "map_of (zip (map fst cs) jobs)"
  define S where "S i = (if i \<in> fst ` set es then {} else case ?m i of None \<Rightarrow> {} | Some job \<Rightarrow> cells_of i (chunkRows job))" for i
  have len: "length cs = length jobs" by (rule list_all2_lengthD[OF jobs])
  have m: "?m i = Some job \<longleftrightarrow> (\<exists>a. ((i, a), job) \<in> set (zip cs jobs))" for i job
  proof -
    have "zip (map fst cs) jobs = map (\<lambda>(c, job). (fst c, job)) (zip cs jobs)" by (simp add: zip_map1)
    moreover have "distinct (map fst (zip (map fst cs) jobs))" using cs len by simp
    ultimately show ?thesis using map_of_eq_Some_iff[of "zip (map fst cs) jobs" i job] by force
  qed
  have "S i \<subseteq> area i \<inter> U" for i
  proof (cases "?m i")
    case (Some job)
    then obtain a where "((i, a), job) \<in> set (zip cs jobs)" using m by blast
    then have "job_read U es (i, a) job" using jobs by (auto simp: list_all2_iff)
    moreover have "i \<notin> fst ` set es \<Longrightarrow> map_of es i = None" by (simp add: map_of_eq_None_iff)
    ultimately show ?thesis using Some cells_of_area by (auto simp: S_def job_read_def)
  qed (simp add: S_def)
  moreover have "S i = {}" if "i \<in> fst ` set (chunks r)" for i using that seen unfolding S_def entries_seen_def by auto
  moreover have "S i = {}" if "i \<notin> fst ` set cs" for i
  proof -
    have "i \<notin> fst ` set (zip (map fst cs) jobs)" using that by (force dest: set_zip_leftD)
    then have "?m i = None" by (simp add: map_of_eq_None_iff)
    then show ?thesis by (simp add: S_def)
  qed
  moreover have "S i = (if i \<in> fst ` set es then {} else cells_of i (chunkRows job))" if "((i, a), job) \<in> set (zip cs jobs)" for i a job
    using that m[of i job] unfolding S_def by auto
  ultimately show ?thesis by blast
qed

lemma read_ids:
  assumes "list_all2 (job_read U es) cs jobs" "\<And>i a. (i, a) \<in> set cs \<Longrightarrow> ID (chunk_at r' a) = i"
  shows "image_mset (job_id r') (mset (map (\<lambda>job. (job, Received)) jobs)) = mset (map fst cs)"
proof -
  have "map (\<lambda>job. ID (chunk_at r' (state job))) jobs = map fst cs"
    using assms by (induction rule: list_all2_induct) (auto simp: job_read_def)
  then show ?thesis by (simp add: multiset.map_comp comp_def flip: mset_map)
qed

lemma jobs_from_snapshot:
  assumes r: "reg_wf r" and d: "disturbs U r r'" and seen: "entries_seen U r es"
    and cs: "distinct (map fst cs)" "set cs \<subseteq> set (chunks r')"
      "\<And>i a. (i, a) \<in> set cs \<Longrightarrow> a < length (heap r') \<and> ID (chunk_at r' a) = i"
    and cover: "fst ` set es \<subseteq> fst ` set cs" "\<forall>m\<in>set (sends es). snd (snd m) \<in> fst ` set cs"
    and jobs: "list_all2 (job_read U es) cs jobs"
  shows "\<exists>N. generation_of U r N \<and> jobs_known U N r' (mset (map (\<lambda>job. (job, Received)) jobs))"
proof -
  let ?B = "board (frozen es)" and ?J = "mset (map (\<lambda>job. (job, Received)) jobs)"
  obtain S where S: "\<forall>i. S i \<subseteq> area i \<inter> U" "\<forall>i\<in>fst ` set (chunks r). S i = {}" "\<forall>i. i \<notin> fst ` set cs \<longrightarrow> S i = {}"
    "\<forall>i a job. ((i, a), job) \<in> set (zip cs jobs) \<longrightarrow> S i = (if i \<in> fst ` set es then {} else cells_of i (chunkRows job))"
    using late_cells[OF seen cs(1) jobs] by blast
  define N where "N = (\<Union>i. life_step (?B \<union> S i) \<inter> area i)"
  have "generation_of U r N"
    unfolding generation_of_def N_def
    by (rule exI[of _ ?B], rule exI[of _ S]) (intro conjI allI impI; use entries_seen_board[OF r seen] S(1,2) in blast)
  moreover have ids: "image_mset (job_id r') ?J = mset (map fst cs)" using read_ids[OF jobs] cs(3) by blast
  have "job_known U N r' (job, Received)" if job: "job \<in> set jobs" for job
  proof -
    obtain c where c: "(c, job) \<in> set (zip cs jobs)" using job list_all2_lengthD[OF jobs] by (metis in_set_impl_in_set_zip2)
    then have "job_read U es c job" using jobs by (auto simp: list_all2_iff)
    then obtain i where i: "c = (i, state job)" "job_read U es (i, state job) job" by (cases c) (auto simp: job_read_def)
    then have "(i, state job) \<in> set cs" using c by (auto dest: set_zip_leftD)
    note a = cs(3)[OF this] and e = this
    have "N \<inter> area i = cells_of i (next_rows i job)"
      unfolding N_def generation_area job_computes[OF seen i(2)] using S(4) c i(1) by simp
    then show ?thesis using a e cs(2) by (auto simp: job_known_pair settled_def)
  qed
  moreover have "settled U N (board r') i" if i: "i \<notin># image_mset (job_id r') ?J" for i
  proof -
    have out: "i \<notin> fst ` set cs" using i unfolding ids by simp
    have "life_step ?B \<inter> area i = {}"
      using seen cover out by (intro snapshot_dark) (auto simp: entries_seen_def)
    then have "N \<inter> area i = {}" unfolding N_def generation_area using S(3) out by simp
    moreover have "i \<notin> fst ` set (chunks r)" using seen cover(1) out unfolding entries_seen_def by blast
    then have "board r \<inter> area i = {}" by (rule board_area_inactive[OF r])
    ultimately show ?thesis using d by (auto simp: settled_def disturbs_def)
  qed
  moreover have "idle_below r' a" if "(i, a) \<in> set (chunks r')" for i a
    using disturbs_idle[OF d that] r by (auto simp: reg_wf_core dest: reg_coreD(1))
  moreover have "count (image_mset (job_id r') ?J) i \<le> 1" for i unfolding ids using cs(1) by (simp add: distinct_count_atmost_1)
  ultimately show ?thesis unfolding jobs_known_def by auto
qed

end
