(* ===== verification/Tick_Program.thy ===== *)
theory Tick_Program
  imports Handler_Contract Snapshot
begin

text \<open>
  \<^verbatim>\<open>TickAll\<close> as the ticker's goroutine executes it until the jobs are built: it reads the chunks one by one, wakes
  neighbours one by one and reads the new ones again, while handlers go on. What it computes from is
  then not one state of the board, and the theorem of this theory says what it is.
\<close>

section \<open>The program\<close>

definition TickAll_entries_prog :: "('r, 'n, (ChunkID \<times> rows) list) handler" where
  "TickAll_entries_prog =
     andthen (read_state (\<lambda>s. chunks (fst s))) (collect (\<lambda>e. read_state (\<lambda>s. (fst e, Rows (chunk_at (fst s) (snd e))))))"

definition TickAll_offset_prog ::
  "('r, 'n) Env \<Rightarrow> ChunkID \<Rightarrow> rows \<Rightarrow> i64 \<times> i64 \<Rightarrow> (ChunkID \<times> (ChunkID \<times> rows) list) list \<Rightarrow>
   ('r, 'n, (ChunkID \<times> (ChunkID \<times> rows) list) list) handler" where
  "TickAll_offset_prog env i rs d h =
     (if \<not> hasCellsNearEdge rs (fst d) (snd d) then Return h
      else let nid = shift_id i d
           in andthen (GetOrCreate_prog env nid) (\<lambda>_. Return (AList.update nid (AList.update i rs (halo_of h nid)) h)))"

definition TickAll_entry_prog ::
  "('r, 'n) Env \<Rightarrow> ChunkID \<times> rows \<Rightarrow> (ChunkID \<times> (ChunkID \<times> rows) list) list \<Rightarrow>
   ('r, 'n, (ChunkID \<times> (ChunkID \<times> rows) list) list) handler" where
  "TickAll_entry_prog env e h =
     (case e of (i, rs) \<Rightarrow>
       if list_all (\<lambda>row. row = 0) rs then Return h
       else accumulate (TickAll_offset_prog env i rs) neighbourOffsets h)"

definition TickAll_job_prog ::
  "(ChunkID \<times> rows) list \<Rightarrow> (ChunkID \<times> (ChunkID \<times> rows) list) list \<Rightarrow> ChunkID \<times> handle \<Rightarrow> ('r, 'n, tickJob) handler" where
  "TickAll_job_prog rowsByID h e =
     (case map_of rowsByID (fst e) of
        Some rs \<Rightarrow> Return \<lparr>state = snd e, chunkRows = rs, halos = halo_of h (fst e)\<rparr>
      | None \<Rightarrow> read_state (\<lambda>s. \<lparr>state = snd e, chunkRows = Rows (chunk_at (fst s) (snd e)), halos = halo_of h (fst e)\<rparr>))"

definition TickAll_jobs_prog ::
  "(ChunkID \<times> rows) list \<Rightarrow> (ChunkID \<times> (ChunkID \<times> rows) list) list \<Rightarrow> ('r, 'n, tickJob list) handler" where
  "TickAll_jobs_prog rowsByID h =
     andthen (read_state (\<lambda>s. chunks (fst s))) (collect (TickAll_job_prog rowsByID h))"

definition TickAll_prog :: "('r, 'n) Env \<Rightarrow> ('r, 'n, tickJob list) handler" where
  "TickAll_prog env =
     andthen TickAll_entries_prog (\<lambda>entries.
       andthen (accumulate (TickAll_entry_prog env) entries []) (TickAll_jobs_prog entries))"

text \<open>Run alone it is the first half of \<open>TickAll\<close>.\<close>

lemma run_scan:
  "run (accumulate (TickAll_entry_prog env) es h) (r, w) =
     (case fold (TickAll_entry (registry_config env) w) es (r, h) of (r', h') \<Rightarrow> ((r', w), h'))"
proof (induction es arbitrary: r h)
  case (Cons e es)
  obtain i rs where e: "e = (i, rs)" by fastforce
  have "run (accumulate (TickAll_offset_prog env i rs) ds h) (r, w) =
      (case fold (TickAll_offset (registry_config env) w i rs) ds (r, h) of (r', h') \<Rightarrow> ((r', w), h'))" for ds r h
    by (induction ds arbitrary: r h) (simp_all add: TickAll_offset_prog_def TickAll_offset_def run_GetOrCreate Let_def)
  then have "run (TickAll_entry_prog env e h) (r, w) =
      (case TickAll_entry (registry_config env) w e (r, h) of (r', h') \<Rightarrow> ((r', w), h'))"
    by (simp add: e TickAll_entry_prog_def TickAll_entry_def)
  then show ?case by (simp add: Cons.IH case_prod_unfold)
qed simp

lemma run_TickAll:
  "run (TickAll_prog env) (r, w) =
     (case TickAll_prepare (registry_config env) (\<lambda>_. False) (r, w) of (jobs, r') \<Rightarrow> ((r', w), jobs))"
proof -
  have entries: "run TickAll_entries_prog (r, w) = ((r, w), TickAll_entries r)"
    using run_collect[of "\<lambda>e. read_state (\<lambda>s. (fst e, Rows (chunk_at (fst s) (snd e))))" "(r, w)" "\<lambda>e. (fst e, Rows (chunk_at r (snd e)))" "chunks r"]
    by (simp add: TickAll_entries_prog_def TickAll_entries_def case_prod_unfold)
  have jobs: "run (TickAll_jobs_prog es h) (r, w) = ((r, w), map snd (filter (\<lambda>(i, _). \<not> False) (TickAll_jobs es (r, h))))" for es h r
  proof -
    have "run (TickAll_job_prog es h e) (r, w) = ((r, w), \<lparr>state = snd e,
        chunkRows = (case map_of es (fst e) of Some rs \<Rightarrow> rs | None \<Rightarrow> Rows (chunk_at r (snd e))), halos = halo_of h (fst e)\<rparr>)" for e
      by (simp add: TickAll_job_prog_def split: option.split)
    from run_collect[of "TickAll_job_prog es h" "(r, w)", OF this] show ?thesis
      by (simp add: TickAll_jobs_prog_def TickAll_jobs_def case_prod_unfold comp_def cong: option.case_cong)
  qed
  show ?thesis
    by (simp add: TickAll_prog_def entries run_scan jobs TickAll_prepare_def Let_def case_prod_unfold)
qed

section \<open>The program keeps the contract\<close>

text \<open>
  While a tick is being prepared no job runs, so that nothing but the actions of handlers happens in between. The
  preparation itself changes nothing but the registry.
\<close>

interpretation preparing: interference "mid_ok env U" "\<lambda>s s'. disturbs U (fst s) (fst s')"
  "\<lambda>s s'. disturbs U (fst s) (fst s') \<and> snd s' = snd s"
  for env :: "('r, 'n) Env" and U
  by unfold_locales (auto intro: disturbs_trans)

lemma prep_read:
  assumes "\<And>s' s''. mid_ok env U s' \<Longrightarrow> disturbs U (fst s) (fst s') \<Longrightarrow> disturbs U (fst s') (fst s'') \<Longrightarrow> Q (f s') s''"
  shows "preparing.safe env U Q s (read_state f)"
  unfolding read_state_def using assms by (intro preparing.safe_call) auto

lemma disturbs_active: "disturbs U r r' \<Longrightarrow> i \<in> fst ` set (chunks r) \<Longrightarrow> i \<in> fst ` set (chunks r')"
  by (auto simp: disturbs_def)

lemma prep_GetOrCreate:
  fixes env :: "('r, 'n) Env"
  shows "preparing.safe env U (\<lambda>_ s'. i \<in> fst ` set (chunks (fst s'))) s (GetOrCreate_prog env i)"
  unfolding GetOrCreate_prog_def
proof (rule preparing.safe_andthen)
  let ?Q = "\<lambda>_ s'. i \<in> fst ` set (chunks (fst s'))"
  show "preparing.safe env U (\<lambda>found s'. found \<noteq> None \<longrightarrow> ?Q found s') s (read_state (\<lambda>s. map_of (chunks (fst s)) i))"
    by (rule prep_read) (auto simp: map_of_eq_None_iff intro: disturbs_active)
  fix found :: "handle option" and s1 :: "('r, 'n) server"
  assume found: "found \<noteq> None \<longrightarrow> ?Q found s1"
  let ?load = "read_state (\<lambda>s. GetOrCreate_load (registry_config env) (snd s) i)"
  let ?insert = "\<lambda>c s. case GetOrCreate_insert i c (fst s) of (a, r') \<Rightarrow> ((r', snd s), a)"
  have load: "preparing.safe env U (\<lambda>c s'. ID c = i \<and> wf_rows (rows c) \<and> cells_of i (rows c) \<subseteq> U) s1 ?load"
    by (rule prep_read) (auto simp: mid_ok_def load_within)
  have insert: "preparing.safe env U ?Q s2 (call (?insert c))"
    if c: "ID c = i \<and> wf_rows (rows c) \<and> cells_of i (rows c) \<subseteq> U" for c s2
  proof (rule preparing.safe_call)
    fix s'
    assume s': "mid_ok env U s'"
    obtain a r' where ins: "GetOrCreate_insert i c (fst s') = (a, r')" by fastforce
    note eff = insert_ok[OF s' _ _ _ ins] and c' = c
    then show "mid_ok env U (fst (?insert c s')) \<and> disturbs U (fst s') (fst (fst (?insert c s'))) \<and> snd (fst (?insert c s')) = snd s'"
      by (simp add: ins)
    have "i \<in> fst ` set (chunks r')" using eff(3) c' by force
    then show "?Q (snd (?insert c s')) s''" if "disturbs U (fst (fst (?insert c s'))) (fst s'')" for s''
      using disturbs_active[of U r' "fst s''"] that by (simp add: ins)
  qed
  show "preparing.safe env U ?Q s1 (case found of Some a \<Rightarrow> Return a | None \<Rightarrow> andthen ?load (\<lambda>c. call (?insert c)))"
  proof (cases found)
    case None
    then show ?thesis using preparing.safe_andthen[OF load insert] by simp
  next
    case (Some a)
    then show ?thesis using found by (auto intro!: preparing.safe.return dest: disturbs_active)
  qed
qed

text \<open>The snapshot.\<close>

lemma chunk_rows:
  assumes "mid_ok env U s" "(i, a) \<in> set (chunks (fst s))"
  shows "a < length (heap (fst s))" "ID (chunk_at (fst s) a) = i" "wf_rows (Rows (chunk_at (fst s) a))"
    "board (fst s) \<inter> area i = cells_of i (Rows (chunk_at (fst s) a))"
proof -
  have core: "reg_core (fst s)" using assms(1) by (simp add: mid_ok_def)
  show a: "a < length (heap (fst s))" by (rule reg_coreD(1)[OF core assms(2)])
  show "ID (chunk_at (fst s) a) = i" "wf_rows (Rows (chunk_at (fst s) a))"
    using reg_coreD(2,4)[OF core assms(2)] by (simp_all add: Rows_def)
  have "reg_wf (calm (fst s))" "(i, a) \<in> set (chunks (calm (fst s)))" using core assms(2) by (simp_all add: reg_core_def)
  from board_area[OF this] show "board (fst s) \<inter> area i = cells_of i (Rows (chunk_at (fst s) a))"
    using a by (simp add: board_calm[OF core] Rows_def)
qed

lemma chunk_keys: "mid_ok env U s \<Longrightarrow> distinct (map fst (chunks (fst s)))"
  by (simp add: mid_ok_def reg_core_def reg_wf_def)

lemma prep_entries:
  fixes env :: "('r, 'n) Env"
  assumes s0: "disturbs U r (fst s)"
  shows "preparing.safe env U (\<lambda>es s'. entries_seen U r es \<and> fst ` set es \<subseteq> fst ` set (chunks (fst s'))) s TickAll_entries_prog"
  unfolding TickAll_entries_prog_def
proof (rule preparing.safe_andthen)
  show "preparing.safe env U (\<lambda>cs s'. distinct (map fst cs) \<and> set cs \<subseteq> set (chunks (fst s')) \<and> set (chunks r) \<subseteq> set cs) s
      (read_state (\<lambda>s. chunks (fst s)))"
    by (rule prep_read) (use s0 chunk_keys in \<open>auto simp: disturbs_def\<close>)
  fix cs and s1 :: "('r, 'n) server"
  assume s1: "disturbs U (fst s) (fst s1)" "distinct (map fst cs) \<and> set cs \<subseteq> set (chunks (fst s1)) \<and> set (chunks r) \<subseteq> set cs"
  let ?P = "\<lambda>e y. fst y = fst e \<and> wf_rows (snd y) \<and> board r \<inter> area (fst e) \<subseteq> cells_of (fst e) (snd y) \<and>
    cells_of (fst e) (snd y) \<subseteq> board r \<union> U"
  have "preparing.safe env U (\<lambda>y _. ?P e y) s2 (read_state (\<lambda>s. (fst e, Rows (chunk_at (fst s) (snd e)))))"
    if e: "e \<in> set cs" and s2: "disturbs U (fst s1) (fst s2)" for e s2
  proof (rule prep_read)
    fix s'
    assume s': "mid_ok env U s'" "disturbs U (fst s2) (fst s')"
    have d: "disturbs U r (fst s')" using s0 s1(1) s2 s'(2) disturbs_trans by blast
    have "disturbs U (fst s1) (fst s')" using s2 s'(2) disturbs_trans by blast
    then have "(fst e, snd e) \<in> set (chunks (fst s'))" using e s1(2) by (auto simp: disturbs_def)
    from chunk_rows[OF s'(1) this] show "?P e (fst e, Rows (chunk_at (fst s') (snd e)))"
      using d by (auto simp: disturbs_def)
  qed
  then have "preparing.safe env U (\<lambda>es _. list_all2 ?P cs es) s1 (collect (\<lambda>e. read_state (\<lambda>s. (fst e, Rows (chunk_at (fst s) (snd e))))) cs)"
    by (rule preparing.safe_collect)
  then show "preparing.safe env U (\<lambda>es s'. entries_seen U r es \<and> fst ` set es \<subseteq> fst ` set (chunks (fst s'))) s1
      (collect (\<lambda>e. read_state (\<lambda>s. (fst e, Rows (chunk_at (fst s) (snd e))))) cs)"
  proof (rule preparing.safe_conseq)
    fix es s2
    assume s2: "disturbs U (fst s1) (fst s2)" and es: "list_all2 ?P cs es"
    have keys: "map fst es = map fst cs" and each: "\<forall>y\<in>set es. ?P y y"
      using es by (induction rule: list_all2_induct) simp_all
    have "fst ` set es = fst ` set cs" using arg_cong[OF keys, of set] by simp
    moreover have "set cs \<subseteq> set (chunks (fst s2))" using s1(2) s2 by (auto simp: disturbs_def)
    ultimately show "entries_seen U r es \<and> fst ` set es \<subseteq> fst ` set (chunks (fst s2))"
      using s1(2) keys each by (auto simp: entries_seen_def)
  qed
qed

text \<open>The scan sends every halo and wakes every chunk it sends one to.\<close>

lemma prep_offset:
  "preparing.safe env U (\<lambda>h' s'. h' = (if hasCellsNearEdge rs (fst d) (snd d) then send_halo (i, rs, shift_id i d) h else h) \<and>
     (hasCellsNearEdge rs (fst d) (snd d) \<longrightarrow> shift_id i d \<in> fst ` set (chunks (fst s')))) s (TickAll_offset_prog env i rs d h)"
  unfolding TickAll_offset_prog_def Let_def
  by (auto simp: send_halo_def intro!: preparing.safe.return preparing.safe_andthen[OF prep_GetOrCreate] intro: disturbs_active)

lemma prep_scan:
  fixes env :: "('r, 'n) Env"
  assumes "\<forall>e\<in>set es. wf_rows (snd e)"
  shows "preparing.safe env U (\<lambda>h' s'. h' = fold send_halo (sends es) h \<and> (\<forall>m\<in>set (sends es). snd (snd m) \<in> fst ` set (chunks (fst s')))) s
    (accumulate (TickAll_entry_prog env) es h)"
proof -
  let ?woken = "\<lambda>e s'. \<forall>m\<in>set (sends [e]). snd (snd m) \<in> fst ` set (chunks (fst s'))"
  have entry: "preparing.safe env U (\<lambda>h' s'. h' = fold send_halo (sends [e]) h \<and> ?woken e s') s (TickAll_entry_prog env e h)"
    if e: "e \<in> set es" for e h s
  proof -
    obtain i rs where e': "e = (i, rs)" by fastforce
    let ?near = "\<lambda>d. hasCellsNearEdge rs (fst d) (snd d)"
    have fold: "fold (\<lambda>d h. if ?near d then send_halo (i, rs, shift_id i d) h else h) ds h =
        fold send_halo (map (\<lambda>d. (i, rs, shift_id i d)) (filter ?near ds)) h" for ds
      by (induction ds arbitrary: h) simp_all
    show ?thesis
    proof (cases "list_all (\<lambda>row. row = 0) rs")
      case True
      then have "sends [e] = []" using no_edge_zero[of rs] assms e by (auto simp: sends_def e')
      then show ?thesis using True by (auto simp: TickAll_entry_prog_def e' intro: preparing.safe.return)
    next
      case False
      have "preparing.safe env U (\<lambda>h' s'. h' = fold (\<lambda>d h. if ?near d then send_halo (i, rs, shift_id i d) h else h) neighbourOffsets h \<and>
          (\<forall>d\<in>set neighbourOffsets. ?near d \<longrightarrow> shift_id i d \<in> fst ` set (chunks (fst s')))) s
          (accumulate (TickAll_offset_prog env i rs) neighbourOffsets h)"
        by (rule preparing.safe_accumulate[OF prep_offset]) (auto intro: disturbs_active)
      then show ?thesis
        unfolding TickAll_entry_prog_def fold by (simp add: e' False) (erule preparing.safe_conseq; auto simp: sends_def)
    qed
  qed
  have "fold (\<lambda>e. fold send_halo (sends [e])) es h = fold send_halo (sends es) h"
    by (induction es arbitrary: h) (simp_all add: sends_def)
  moreover have "set (sends es) = (\<Union>e\<in>set es. set (sends [e]))" by (auto simp: sends_def)
  moreover have "preparing.safe env U (\<lambda>h' s'. h' = fold (\<lambda>e. fold send_halo (sends [e])) es h \<and> (\<forall>e\<in>set es. ?woken e s')) s
      (accumulate (TickAll_entry_prog env) es h)"
  proof (rule preparing.safe_accumulate[OF entry])
    fix e and s s' :: "('r, 'n) server"
    assume "?woken e s" "disturbs U (fst s) (fst s')"
    then show "?woken e s'" using disturbs_active[of U "fst s" "fst s'"] by blast
  qed
  ultimately show ?thesis by simp
qed


text \<open>The jobs.\<close>

lemma read_job:
  assumes r: "reg_wf r" and seen: "entries_seen U r es" and ok: "mid_ok env U s" and d: "disturbs U r (fst s)"
    and e: "(i, a) \<in> set (chunks (fst s))" and new: "map_of es i = None"
  shows "job_read U es (i, a) \<lparr>state = a, chunkRows = Rows (chunk_at (fst s) a), halos = halo_of (fold send_halo (sends es) []) i\<rparr>"
proof -
  have "i \<notin> fst ` set es" using new by (simp add: map_of_eq_None_iff)
  then have "i \<notin> fst ` set (chunks r)" using seen unfolding entries_seen_def by blast
  from board_area_inactive[OF r this] have "board (fst s) \<inter> area i \<subseteq> U" using d by (auto simp: disturbs_def)
  then show ?thesis using chunk_rows[OF ok e] new by (simp add: job_read_def)
qed

lemma prep_job:
  fixes env :: "('r, 'n) Env"
  assumes r: "reg_wf r" and seen: "entries_seen U r es" and d: "disturbs U r (fst s)" and e: "(i, a) \<in> set (chunks (fst s))"
  shows "preparing.safe env U (\<lambda>job _. job_read U es (i, a) job) s (TickAll_job_prog es (fold send_halo (sends es) []) (i, a))"
proof (cases "map_of es i")
  case (Some rs)
  then have "wf_rows rs" using seen map_of_SomeD by (fastforce simp: entries_seen_def)
  then show ?thesis by (auto simp: TickAll_job_prog_def Some job_read_def intro: preparing.safe.return)
next
  case None
  have "job_read U es (i, a) \<lparr>state = a, chunkRows = Rows (chunk_at (fst s') a), halos = halo_of (fold send_halo (sends es) []) i\<rparr>"
    if s': "mid_ok env U s'" "disturbs U (fst s) (fst s')" for s'
    using read_job[OF r seen s'(1) disturbs_trans[OF d s'(2)] _ None] e s'(2) by (auto simp: disturbs_def)
  then show ?thesis using None by (auto simp: TickAll_job_prog_def intro: prep_read)
qed

lemma prep_jobs:
  fixes env :: "('r, 'n) Env"
  assumes r: "reg_wf r" and d0: "disturbs U r (fst s)" and seen: "entries_seen U r es"
    and here: "fst ` set es \<subseteq> fst ` set (chunks (fst s))" "\<forall>m\<in>set (sends es). snd (snd m) \<in> fst ` set (chunks (fst s))"
  shows "preparing.safe env U (\<lambda>jobs s'. \<exists>N. generation_of U r N \<and> jobs_known U N (fst s') (mset (map (\<lambda>job. (job, Received)) jobs))) s
    (TickAll_jobs_prog es (fold send_halo (sends es) []))"
  unfolding TickAll_jobs_prog_def
proof (rule preparing.safe_andthen)
  let ?cs = "\<lambda>cs s. distinct (map fst cs) \<and> set cs \<subseteq> set (chunks (fst s)) \<and>
    (\<forall>(i, a)\<in>set cs. a < length (heap (fst s)) \<and> ID (chunk_at (fst s) a) = i)"
  have stays: "?cs cs s''" if "?cs cs s'" "disturbs U (fst s') (fst s'')" for cs and s' s'' :: "('r, 'n) server"
    using that by (fastforce simp: disturbs_def later_def)
  show "preparing.safe env U (\<lambda>cs s'. ?cs cs s' \<and> set (chunks (fst s)) \<subseteq> set cs) s (read_state (\<lambda>s. chunks (fst s)))"
  proof (rule prep_read)
    fix s' s'' :: "('r, 'n) server"
    assume s': "mid_ok env U s'" "disturbs U (fst s) (fst s')" "disturbs U (fst s') (fst s'')"
    have "?cs (chunks (fst s')) s'" using chunk_keys[OF s'(1)] chunk_rows(1,2)[OF s'(1)] by auto
    from stays[OF this s'(3)] show "?cs (chunks (fst s')) s'' \<and> set (chunks (fst s)) \<subseteq> set (chunks (fst s'))"
      using s'(2) unfolding disturbs_def by blast
  qed
  fix cs and s1 :: "('r, 'n) server"
  assume s1: "disturbs U (fst s) (fst s1)" "?cs cs s1 \<and> set (chunks (fst s)) \<subseteq> set cs"
  have job: "preparing.safe env U (\<lambda>job _. job_read U es e job) s2 (TickAll_job_prog es (fold send_halo (sends es) []) e)"
    if "e \<in> set cs" and s2: "disturbs U (fst s1) (fst s2)" for e s2
    using prep_job[OF r seen disturbs_trans[OF d0 disturbs_trans[OF s1(1) s2]], of "fst e" "snd e"] that s1(2) by (auto simp: disturbs_def)
  show "preparing.safe env U (\<lambda>jobs s'. \<exists>N. generation_of U r N \<and> jobs_known U N (fst s') (mset (map (\<lambda>job. (job, Received)) jobs))) s1
      (collect (TickAll_job_prog es (fold send_halo (sends es) [])) cs)"
  proof (rule preparing.safe_conseq[OF preparing.safe_collect[OF job]])
    fix jobs and s2 :: "('r, 'n) server"
    assume s2: "disturbs U (fst s1) (fst s2)" and jobs: "list_all2 (job_read U es) cs jobs"
    have "?cs cs s2" using stays s1(2) s2 by blast
    moreover have "disturbs U r (fst s2)" using disturbs_trans[OF d0 disturbs_trans[OF s1(1) s2]] .
    moreover have "fst ` set (chunks (fst s)) \<subseteq> fst ` set cs" using s1(2) by blast
    ultimately show "\<exists>N. generation_of U r N \<and> jobs_known U N (fst s2) (mset (map (\<lambda>job. (job, Received)) jobs))"
      using here by (intro jobs_from_snapshot[OF r _ seen _ _ _ _ _ jobs]) (auto 0 3 dest: subsetD)
  qed
qed

text \<open>
  A tick prepared among handlers ends with jobs for a generation of the board it began with and the cells placed meanwhile.
\<close>

theorem TickAll_safe:
  fixes env :: "('r, 'n) Env"
  assumes r: "reg_wf (fst s)"
  shows "preparing.safe env U
    (\<lambda>jobs s'. \<exists>N. generation_of U (fst s) N \<and> jobs_known U N (fst s') (mset (map (\<lambda>job. (job, Received)) jobs))) s (TickAll_prog env)"
  unfolding TickAll_prog_def
proof (rule preparing.safe_andthen[OF prep_entries[OF disturbs_refl]])
  fix es and s1 :: "('r, 'n) server"
  assume s1: "disturbs U (fst s) (fst s1)" "entries_seen U (fst s) es \<and> fst ` set es \<subseteq> fst ` set (chunks (fst s1))"
  then have "\<forall>e\<in>set es. wf_rows (snd e)" by (simp add: entries_seen_def)
  note scan = prep_scan[OF this]
  show "preparing.safe env U (\<lambda>jobs s'. \<exists>N. generation_of U (fst s) N \<and> jobs_known U N (fst s') (mset (map (\<lambda>job. (job, Received)) jobs))) s1
      (andthen (accumulate (TickAll_entry_prog env) es []) (TickAll_jobs_prog es))"
  proof (rule preparing.safe_andthen[OF scan])
    fix h and s2 :: "('r, 'n) server"
    assume s2: "disturbs U (fst s1) (fst s2)"
      "h = fold send_halo (sends es) [] \<and> (\<forall>m\<in>set (sends es). snd (snd m) \<in> fst ` set (chunks (fst s2)))"
    have "fst ` set es \<subseteq> fst ` set (chunks (fst s2))" using s1(2) disturbs_active[OF s2(1)] by blast
    then show "preparing.safe env U (\<lambda>jobs s'. \<exists>N. generation_of U (fst s) N \<and> jobs_known U N (fst s') (mset (map (\<lambda>job. (job, Received)) jobs)))
        s2 (TickAll_jobs_prog es h)"
      using prep_jobs[OF r disturbs_trans[OF s1(1) s2(1)]] s1(2) s2(2) by simp
  qed
qed

end
