(* ===== verification/Concurrent.thy ===== *)
theory Concurrent
  imports Tick_Program
begin

text \<open>
  The server with all its goroutines: the shared state, how far the ticker's goroutine and the workers have come with
  the tick, and the connections with what is left of the message they are handling. A step is one action of one of them.
\<close>

section \<open>The machine\<close>

text \<open>The ticker waits for its next signal, prepares the jobs of a tick, or waits for the workers.\<close>

datatype ('r, 'n) ticking =
    Resting
  | Preparing "(('r, 'n) server, tickJob list) prog"
  | Running "(tickJob \<times> job_phase) multiset"

abbreviation queued :: "tickJob list \<Rightarrow> (tickJob \<times> job_phase) multiset" where
  "queued jobs \<equiv> mset (map (\<lambda>job. (job, Received)) jobs)"

text \<open>
  A connection handles one message after the other, and when reading fails it cleans up. Between two messages
  what is left to do is \<open>Return ()\<close>.
\<close>

datatype ('r, 'n) reading =
    Handling "(('r, 'n) server, unit) prog"
  | Closing

type_synonym ('r, 'n) conc = "('r, 'n) server \<times> ('r, 'n) ticking \<times> (client \<times> ('r, 'n) reading) multiset"

datatype 'n event =
    Work nat
  | Handle
  | Connect client
  | Arrive string client "string \<times> (nat \<Rightarrow> int)"
  | Disconnect client
  | Cleanup client
  | Prepare
  | TickBegins
  | TickEnds
  | Reboot nat 'n

inductive conc_step :: "('r, 'n) Env \<Rightarrow> 'n event \<Rightarrow> ('r, 'n) conc \<Rightarrow> ('r, 'n) conc \<Rightarrow> bool" for env where
  tick_begins: "conc_step env TickBegins (s, Resting, T) (s, Preparing (TickAll_prog env), T)"
| prepare: "conc_step env Prepare (s, Preparing (Act f g), T) (f s, Preparing (g s), T)"
| prepared: "conc_step env Prepare (s, Preparing (Return jobs), T) (s, Running (queued jobs), T)"
| work: "k < length (workers (fst s)) \<Longrightarrow> processJob_step (registry_config env) k job ph s = (ph', s') \<Longrightarrow>
    conc_step env (Work k) (s, Running (add_mset (job, ph) J), T) (s', Running (add_mset (job, ph') J), T)"
| tick_ends: "\<forall>x\<in>#J. snd x = Finished \<Longrightarrow> conc_step env TickEnds (s, Running J, T) (s, Resting, T)"
| connect: "cl \<notin> fst ` set_mset T \<Longrightarrow> conc_step env (Connect cl) (s, t, T) (s, t, add_mset (cl, Handling (Return ())) T)"
| arrive: "conc_step env (Arrive p cl m) (s, t, add_mset (cl, Handling (Return ())) T)
    (s, t, add_mset (cl, Handling (handle_message_prog env p cl m)) T)"
| handle: "conc_step env Handle (s, t, add_mset (cl, Handling (Act f g)) T) (f s, t, add_mset (cl, Handling (g s)) T)"
| disconnect: "conc_step env (Disconnect cl) (s, t, add_mset (cl, Handling (Return ())) T) (s, t, add_mset (cl, Closing) T)"
| cleanup: "conc_step env (Cleanup cl) (s, t, add_mset (cl, Closing) T) (close_connection cl s, t, T)"
| reboot: "conc_step env (Reboot NumCPU n) (s, t, T) (start_server NumCPU (db (snd s)) n, Resting, {#})"

text \<open>No message is being handled.\<close>

definition waiting :: "(client \<times> ('r, 'n) reading) multiset \<Rightarrow> bool" where
  "waiting T \<longleftrightarrow> (\<forall>x\<in>#T. snd x = Handling (Return ()))"

lemma waiting_simps [simp]: "waiting {#}" "waiting (add_mset x T) \<longleftrightarrow> snd x = Handling (Return ()) \<and> waiting T"
  by (simp_all add: waiting_def)

inductive_cases conc_stepE: "conc_step env e c c'"

inductive conc_reachable :: "('r, 'n) Env \<Rightarrow> ('r, 'n) conc \<Rightarrow> bool" for env where
  start: "env_ok env \<Longrightarrow> serving (redisClient env) d \<Longrightarrow> chunks_ok (redisClient env) d \<Longrightarrow>
    conc_reachable env (start_server NumCPU d n, Resting, {#})"
| step: "conc_reachable env c \<Longrightarrow> conc_step env e c c' \<Longrightarrow> conc_reachable env c'"

section \<open>The invariant\<close>

text \<open>
  \<open>U\<close> are the cells that may be placed and \<open>G\<close> says what is known of the generation of the tick. Until the jobs
  are known the idle counters are in order, afterwards they are but for chunks about to be removed.
\<close>

primrec ticking_inv :: "('r, 'n) Env \<Rightarrow> board \<Rightarrow> (board \<Rightarrow> bool) \<Rightarrow> ('r, 'n) server \<Rightarrow> ('r, 'n) ticking \<Rightarrow> bool" where
  "ticking_inv env U G s Resting = reg_wf (fst s)"
| "ticking_inv env U G s (Preparing p) =
     (reg_wf (fst s) \<and> preparing.safe env U (\<lambda>jobs s'. \<exists>N. G N \<and> jobs_known U N (fst s') (queued jobs)) s p)"
| "ticking_inv env U G s (Running J) = (\<exists>N. G N \<and> jobs_known U N (fst s) J)"

primrec reading_inv ::
  "('r, 'n) Env \<Rightarrow> board \<Rightarrow> ('n \<Rightarrow> OutgoingMessage set) option \<Rightarrow> ('r, 'n) server \<Rightarrow> client \<Rightarrow> ('r, 'n) reading \<Rightarrow> bool" where
  "reading_inv env U obs s cl (Handling h) = safe env U obs cl (\<lambda>_ _. True) s h"
| "reading_inv env U obs s cl Closing = True"

text \<open>Only clients whose connection is open watch anything.\<close>

definition conc_inv :: "('r, 'n) Env \<Rightarrow> board \<Rightarrow> (board \<Rightarrow> bool) \<Rightarrow> ('r, 'n) conc \<Rightarrow> bool" where
  "conc_inv env U G c \<longleftrightarrow> (case c of (s, t, T) \<Rightarrow>
     mid_ok env U s \<and> ticking_inv env U G s t \<and> (\<forall>(cl, c)\<in>#T. reading_inv env U None s cl c) \<and>
     watching (subs (snd s)) \<subseteq> UNIV \<times> fst ` set_mset T)"

lemma conc_inv_simp:
  "conc_inv env U G (s, t, T) \<longleftrightarrow> mid_ok env U s \<and> ticking_inv env U G s t \<and> (\<forall>(cl, c)\<in>#T. reading_inv env U None s cl c) \<and>
     watching (subs (snd s)) \<subseteq> UNIV \<times> fst ` set_mset T"
  by (simp add: conc_inv_def)

lemma reading_meanwhile: "reading_inv env U obs s cl c \<Longrightarrow> meanwhile U obs s s' \<Longrightarrow> reading_inv env U obs s' cl c"
  using handlers.safe_later[of env U obs cl _ s _ s'] by (cases c) auto

lemma reading_all_later:
  "\<forall>(cl, c)\<in>#T. reading_inv env U None s cl c \<Longrightarrow> later (fst s) (fst s') \<Longrightarrow> \<forall>(cl, c)\<in>#T. reading_inv env U None s' cl c"
  using reading_meanwhile[of env U None s _ _ s'] by (fastforce simp: meanwhile_def)

text \<open>A handler's action keeps it wherever the tick is.\<close>

lemma ticking_disturbed:
  assumes "ticking_inv env U G s t" "mid_ok env U s" "mid_ok env U s'" "disturbs U (fst s) (fst s')"
  shows "ticking_inv env U G s' t"
  using assms disturbs_wf[of "fst s" "fst s'" U] jobs_known_disturbed[OF _ assms(4)] preparing.safe_later[of env U _ s _ s']
  by (cases t) (auto simp: mid_ok_def)

lemma conc_inv_handle:
  assumes "conc_inv env U G (s, t, add_mset (cl, Handling (Act f g)) T)"
  shows "conc_inv env U G (f s, t, add_mset (cl, Handling (g s)) T)"
proof -
  have inv: "mid_ok env U s" "ticking_inv env U G s t" "safe env U None cl (\<lambda>_ _. True) s (Act f g)"
    "\<forall>(cl, c)\<in>#T. reading_inv env U None s cl c" "watching (subs (snd s)) \<subseteq> UNIV \<times> insert cl (fst ` set_mset T)"
    using assms by (simp_all add: conc_inv_simp)
  have a: "mid_ok env U (f s)" "disturbs U (fst s) (fst (f s))" "subscribes cl s (f s)" "safe env U None cl (\<lambda>_ _. True) (f s) (g s)"
    using handlers.safe_Act[OF inv(3)] inv(1) by (auto simp: kept_def may_do_def)
  have "watching (subs (snd (f s))) \<subseteq> UNIV \<times> insert cl (fst ` set_mset T)" using a(3) inv(5) unfolding subscribes_def by blast
  then show ?thesis
    using a ticking_disturbed[OF inv(2,1) a(1,2)] reading_all_later[OF inv(4) disturbs_later[OF a(2)]] by (simp add: conc_inv_simp)
qed

lemma conc_inv_cleanup:
  assumes "conc_inv env U G (s, t, add_mset (cl, Closing) T)"
  shows "conc_inv env U G (close_connection cl s, t, T)"
proof -
  have inv: "mid_ok env U s" "ticking_inv env U G s t" "\<forall>(cl, c)\<in>#T. reading_inv env U None s cl c"
    "watching (subs (snd s)) \<subseteq> UNIV \<times> insert cl (fst ` set_mset T)" using assms by (simp_all add: conc_inv_simp)
  note c = close_ok[OF inv(1), of cl]
  have same: "disturbs U (fst s) (fst (close_connection cl s))" by (simp add: c(2))
  have "watching (subs (snd (close_connection cl s))) \<subseteq> UNIV \<times> fst ` set_mset T" using inv(4) unfolding c(4) by blast
  then show ?thesis
    using c(1) ticking_disturbed[OF inv(2,1) c(1) same] reading_all_later[OF inv(3) disturbs_later[OF same]] by (simp add: conc_inv_simp)
qed

text \<open>So does an action of the ticker.\<close>

lemma conc_inv_prepare:
  assumes "conc_inv env U G (s, Preparing (Act f g), T)"
  shows "conc_inv env U G (f s, Preparing (g s), T)"
proof -
  have inv: "mid_ok env U s" "reg_wf (fst s)"
    "preparing.safe env U (\<lambda>jobs s'. \<exists>N. G N \<and> jobs_known U N (fst s') (queued jobs)) s (Act f g)"
    "\<forall>(cl, c)\<in>#T. reading_inv env U None s cl c" "watching (subs (snd s)) \<subseteq> UNIV \<times> fst ` set_mset T"
    using assms by (simp_all add: conc_inv_simp)
  note a = preparing.safe_Act[OF inv(3,1)]
  then have "reg_wf (fst (f s))" using disturbs_wf[OF inv(2)] by (auto simp: mid_ok_def)
  moreover have "\<forall>(cl, c)\<in>#T. reading_inv env U None (f s) cl c" using reading_all_later[OF inv(4)] a disturbs_later by blast
  ultimately show ?thesis using a inv(5) by (simp add: conc_inv_simp)
qed

lemma conc_inv_prepared: "conc_inv env U G (s, Preparing (Return jobs), T) \<Longrightarrow> conc_inv env U G (s, Running (queued jobs), T)"
  by (auto simp: conc_inv_simp elim: preparing.safe.cases)

text \<open>And a worker's.\<close>

lemma step_world:
  assumes ok: "mid_ok env U (r, w)" and e: "(i, state job) \<in> set (chunks r)" and k: "k < length (workers r)"
    and res: "processJob_step (registry_config env) k job ph (r, w) = (ph', r', w')"
    and gone: "seen_empty ph \<Longrightarrow> board r \<inter> area i \<subseteq> U"
  shows "mid_ok env U (r', w')"
proof -
  have core: "reg_core r" and env: "env_ok env" and db: "serving (redisClient env) (db w)" "stored_within (redisClient env) U (db w)"
    using ok by (simp_all add: mid_ok_def)
  note i = reg_coreD(2)[OF core e] and wf = reg_coreD(4)[OF core e]
  have wfc: "reg_wf (calm r)" and ec: "(i, state job) \<in> set (chunks (calm r))" using core e by (simp_all add: reg_core_def)
  have cells: "board r \<inter> area i = cells_of i (rows (chunk_at r (state job)))"
    using board_area[OF wfc ec] reg_coreD(1)[OF core e] by (simp add: board_calm[OF core])
  have laws: "redis_kv_laws (redisClient env)" "redis_frame_laws (redisClient env)" using env by (simp_all add: env_ok_def)
  have save: "mid_ok env U (r, w\<lparr>db := fst (SaveChunk (redisClient env) (chunk_at r (state job)) (db w)), save_metrics := m\<rparr>)"
    if "seen_empty ph" for m
    using ok SaveChunk_serving[OF laws(2) db(1)] gone[OF that] i
      redis_engine.holds_save[OF laws(1) wf db(2)[unfolded stored_within_def]] by (simp add: mid_ok_def stored_within_def cells)
  have "mid_ok env U (r, w')"
    using res ok save
    by (cases ph) (auto simp: Let_def registry_config_def mid_ok_def same_subscribers(1)[OF Broadcast_subscribers] case_prod_unfold split: if_splits prod.splits)
  then show ?thesis using step_effect(1)[OF core e k res] by (simp add: mid_ok_def)
qed

lemma step_watching:
  assumes "processJob_step (registry_config env) k job ph (r, w) = (ph', r', w')"
  shows "watching (subs w') = watching (subs w)"
  using assms by (cases ph)
    (auto simp: Let_def registry_config_def same_subscribers(2)[OF Broadcast_subscribers] case_prod_unfold split: if_splits prod.splits)

lemma conc_inv_work:
  assumes inv: "conc_inv env U G (s, Running (add_mset (job, ph) J), T)" and k: "k < length (workers (fst s))"
    and res: "processJob_step (registry_config env) k job ph s = (ph', s')"
  shows "conc_inv env U G (s', Running (add_mset (job, ph') J), T)"
proof (cases "ph = Finished")
  case True
  then show ?thesis using res inv by (cases s) simp
next
  case False
  obtain r w r' w' where s: "s = (r, w)" "s' = (r', w')" by (metis surj_pair)
  note res' = res[unfolded s]
  obtain N where N: "G N" and J: "jobs_known U N r (add_mset (job, ph) J)" and ok: "mid_ok env U (r, w)"
    and T: "\<forall>(cl, c)\<in>#T. reading_inv env U None s cl c" "watching (subs w) \<subseteq> UNIV \<times> fst ` set_mset T" and core: "reg_core r"
    using inv by (auto simp: conc_inv_simp mid_ok_def s)
  have x: "job_known U N r (job, ph)" using J by (simp add: jobs_known_def)
  let ?i = "ID (chunk_at r (state job))"
  have e: "(?i, state job) \<in> set (chunks r)" using x False by (simp add: job_known_pair)
  have "seen_empty ph \<Longrightarrow> board r \<inter> area ?i \<subseteq> U" using x by (auto simp: job_known_pair settled_def split: if_splits)
  note mid = step_world[OF ok e _ res' this] and later = step_effect(3)[OF core e _ res']
  have "\<forall>(cl, c)\<in>#T. reading_inv env U None (r', w') cl c" using reading_all_later[OF T(1)] later k by (simp add: s)
  then show ?thesis
    using mid later k step_keeps_jobs[OF core J _ res'] N T(2) by (auto simp: conc_inv_simp s step_watching[OF res'])
qed

text \<open>A tick begins with nothing known but where it begins, and leaves the generation it computed.\<close>

lemma conc_inv_begins:
  assumes "conc_inv env U G (s, Resting, T)"
  shows "conc_inv env U (generation_of U (fst s)) (s, Preparing (TickAll_prog env), T)"
  using assms TickAll_safe[of s env U] by (simp add: conc_inv_simp)

lemma conc_inv_ends:
  assumes "conc_inv env U G (s, Running J, T)" "\<forall>x\<in>#J. snd x = Finished"
  shows "conc_inv env U G' (s, Resting, T)" "\<exists>N. G N \<and> N \<subseteq> board (fst s) \<and> board (fst s) \<subseteq> N \<union> U"
proof -
  obtain N where N: "G N" "jobs_known U N (fst s) J" "mid_ok env U s" using assms(1) by (auto simp: conc_inv_simp)
  note e = jobs_settled[OF N(2) assms(2)]
  show "\<exists>N. G N \<and> N \<subseteq> board (fst s) \<and> board (fst s) \<subseteq> N \<union> U" using N(1) e(1,2) by blast
  have "reg_wf (fst s)" using e(3) N(3) by (simp add: reg_wf_core mid_ok_def)
  then show "conc_inv env U G' (s, Resting, T)" using assms(1) by (simp add: conc_inv_simp)
qed

lemma conc_inv_weaken:
  assumes "conc_inv env U G c" "\<And>N. G N \<Longrightarrow> G' N"
  shows "conc_inv env U G' c"
proof -
  obtain s t T where c: "c = (s, t, T)" by (cases c)
  show ?thesis
    using assms by (cases t) (auto simp: c conc_inv_simp intro: preparing.safe_conseq)
qed

text \<open>
  Every step between the beginning and the end of a tick keeps the invariant, with the cells that arriving
  messages ask for in \<open>U\<close>.
\<close>

primrec asks :: "'n event \<Rightarrow> board" where
  "asks (Work k) = {}"
| "asks Handle = {}"
| "asks (Arrive p cl m) = world_cell ` set (wire_cells (fst m))"
| "asks (Connect cl) = {}"
| "asks (Disconnect cl) = {}"
| "asks (Cleanup cl) = {}"
| "asks Prepare = {}"
| "asks TickBegins = {}"
| "asks TickEnds = {}"
| "asks (Reboot NumCPU n) = {}"

primrec during_tick :: "'n event \<Rightarrow> bool" where
  "during_tick (Work k) = True"
| "during_tick Handle = True"
| "during_tick (Arrive p cl m) = True"
| "during_tick (Connect cl) = True"
| "during_tick (Disconnect cl) = True"
| "during_tick (Cleanup cl) = True"
| "during_tick Prepare = True"
| "during_tick TickBegins = False"
| "during_tick TickEnds = False"
| "during_tick (Reboot NumCPU n) = False"

lemma conc_inv_during:
  assumes "conc_step env e c c'" "during_tick e" "asks e \<subseteq> U" "conc_inv env U G c"
  shows "conc_inv env U G c'"
  using assms
proof (cases rule: conc_step.cases)
  case (prepare s f g T)
  then show ?thesis using assms(4) conc_inv_prepare by blast
next
  case (prepared s jobs T)
  then show ?thesis using assms(4) conc_inv_prepared by blast
next
  case (work k s job ph ph' s' J T)
  then show ?thesis using assms(4) conc_inv_work by blast
next
  case (connect cl T s t)
  then show ?thesis using assms(4) by (auto simp: conc_inv_simp)
next
  case (arrive p cl m s t T)
  then show ?thesis using assms(3,4) by (simp add: conc_inv_simp safe_handle_message)
next
  case (handle s t cl f g T)
  then show ?thesis using assms(4) conc_inv_handle by blast
next
  case (disconnect cl s t T)
  then show ?thesis using assms(4) by (simp add: conc_inv_simp)
next
  case (cleanup cl s t T)
  then show ?thesis using assms(4) conc_inv_cleanup by blast
qed simp_all

lemma stored_within_UNIV: "chunks_ok c d \<longleftrightarrow> stored_within c UNIV d"
  by (auto simp: chunks_ok_def stored_within_def redis_engine.holds_def)

abbreviation inv_always :: "('r, 'n) Env \<Rightarrow> ('r, 'n) conc \<Rightarrow> bool" where
  "inv_always env \<equiv> conc_inv env UNIV (\<lambda>_. True)"

lemma conc_inv_start:
  "env_ok env \<Longrightarrow> serving (redisClient env) d \<Longrightarrow> chunks_ok (redisClient env) d \<Longrightarrow>
   inv_always env (start_server NumCPU d n, Resting, {#})"
  using reg_wf_start[of NumCPU] reg_wf_core
  by (auto simp: conc_inv_simp start_server_def mid_ok_def stored_within_UNIV)

lemma conc_inv_step:
  assumes "conc_step env e c c'" "inv_always env c"
  shows "inv_always env c'"
proof (cases "during_tick e")
  case True
  then show ?thesis using conc_inv_during[OF assms(1)] assms(2) by simp
next
  case False
  show ?thesis
    using assms(1)
  proof (cases rule: conc_step.cases)
    case (tick_begins s T)
    from conc_inv_weaken[OF conc_inv_begins[OF assms(2)[unfolded tick_begins(2)]]] show ?thesis unfolding tick_begins(3) by simp
  next
    case (tick_ends J s T)
    from conc_inv_ends(1)[OF assms(2)[unfolded tick_ends(2)] tick_ends(4)] show ?thesis unfolding tick_ends(3) .
  next
    case (reboot NumCPU n s t T)
    then have "mid_ok env UNIV s" using assms(2) by (simp add: conc_inv_simp)
    then show ?thesis
      unfolding reboot(3) by (intro conc_inv_start) (simp_all add: mid_ok_def stored_within_UNIV)
  qed (use False in simp_all)
qed

lemma conc_reachable_inv: "conc_reachable env c \<Longrightarrow> inv_always env c"
  by (induction rule: conc_reachable.induct) (auto simp: conc_inv_start intro: conc_inv_step)

text \<open>A run of steps of some kind, with the cells that the messages arriving in it ask for.\<close>

inductive steps :: "('n event \<Rightarrow> bool) \<Rightarrow> ('r, 'n) Env \<Rightarrow> board \<Rightarrow> ('r, 'n) conc \<Rightarrow> ('r, 'n) conc \<Rightarrow> bool" for P env where
  none: "steps P env {} c c"
| more: "steps P env A c c' \<Longrightarrow> conc_step env e c' c'' \<Longrightarrow> P e \<Longrightarrow> steps P env (A \<union> asks e) c c''"

lemma steps_reachable: "steps P env A c c' \<Longrightarrow> conc_reachable env c \<Longrightarrow> conc_reachable env c'"
  by (induction rule: steps.induct) (auto intro: conc_reachable.step)

lemma steps_trans: "steps P env B c' d \<Longrightarrow> steps P env A c c' \<Longrightarrow> steps P env (A \<union> B) c d"
proof (induction rule: steps.induct)
  case (more B c' d e d')
  then show ?case using steps.more[of P env "A \<union> B" c d e d'] by (simp add: Un_assoc)
qed simp

lemma steps_one: "conc_step env e c c' \<Longrightarrow> P e \<Longrightarrow> steps P env (asks e) c c'"
  using steps.more[OF steps.none] by fastforce

lemma handler_steps:
  "P Handle \<Longrightarrow> steps P env {} (s, t, add_mset (cl, Handling p) T) (fst (run p s), t, add_mset (cl, Handling (Return ())) T)"
proof (induction p arbitrary: s rule: prog.induct)
  case (Return a)
  then show ?case by (simp add: steps.none)
next
  case (Act f g)
  have "steps P env {} (s, t, add_mset (cl, Handling (Act f g)) T) (f s, t, add_mset (cl, Handling (g s)) T)"
    using steps_one[where P = P, OF conc_step.handle Act.prems] by simp
  from steps_trans[OF Act.IH[OF rangeI Act.prems] this] show ?case by simp
qed

text \<open>The steps between the beginning and the end of a tick.\<close>

abbreviation during :: "('r, 'n) Env \<Rightarrow> board \<Rightarrow> ('r, 'n) conc \<Rightarrow> ('r, 'n) conc \<Rightarrow> bool" where
  "during \<equiv> steps during_tick"

lemma during_inv: "during env A c c' \<Longrightarrow> A \<subseteq> U \<Longrightarrow> conc_inv env U G c \<Longrightarrow> conc_inv env U G c'"
  by (induction rule: steps.induct) (auto intro: conc_inv_during)

lemmas run_handler = handler_steps[where P = during_tick, simplified]

end
