(* ===== verification/Concurrent_Tick.thy ===== *)
theory Concurrent_Tick
  imports Concurrent
begin

text \<open>
  What the concurrent server guarantees: the invariant, the outcome of a tick among handlers, that the sequential
  server is one of its behaviours, and that it can always come to rest.
\<close>

section \<open>A tick among handlers\<close>

lemma generation_undisturbed: "generation_of {} r N \<longleftrightarrow> N = life_step (board r)"
proof -
  have cover: "\<Union> (range area) = UNIV" using area_cover by (metis UNIV_eq_I UN_I UNIV_I)
  have "N = life_step (board r)" if gen: "generation_of {} r N"
  proof -
    obtain B S where "board r \<subseteq> B" "B \<subseteq> board r \<union> {}" "\<forall>i. S i \<subseteq> area i \<inter> {}" "N = (\<Union>i. life_step (B \<union> S i) \<inter> area i)"
      using gen unfolding generation_of_def by blast
    then have "B = board r" "S i = {}" "N = (\<Union>i. life_step (B \<union> S i) \<inter> area i)" for i by auto
    then show ?thesis using cover by simp
  qed
  moreover have "generation_of {} r (life_step (board r))"
    unfolding generation_of_def by (rule exI[of _ "board r"], rule exI[of _ "\<lambda>_. {}"]) (simp add: cover)
  ultimately show ?thesis by blast
qed

lemma tick_outcome:
  assumes inv: "conc_inv env U G (s, Resting, T)" "A \<subseteq> U"
    and steps: "conc_step env TickBegins (s, Resting, T) c1" "during env A c1 c2" "conc_step env TickEnds c2 (s', Resting, T')"
  shows "\<exists>N. generation_of U (fst s) N \<and> N \<subseteq> board (fst s') \<and> board (fst s') \<subseteq> N \<union> U"
proof -
  have "c1 = (s, Preparing (TickAll_prog env), T)" using steps(1) by (auto elim: conc_stepE)
  with conc_inv_begins[OF inv(1)] have "conc_inv env U (generation_of U (fst s)) c1" by simp
  from during_inv[OF steps(2) inv(2) this] have c2: "conc_inv env U (generation_of U (fst s)) c2" .
  obtain J where "c2 = (s', Running J, T')" "\<forall>x\<in>#J. snd x = Finished" using steps(3) by (auto elim: conc_stepE)
  then show ?thesis using conc_inv_ends(2)[of env U _ s' J T'] c2 by blast
qed

lemma resting_inv:
  assumes "conc_reachable env (s, Resting, T)" "waiting T" "stored_within (redisClient env) U (db (snd s))"
  shows "conc_inv env U (\<lambda>_. True) (s, Resting, T)"
proof -
  have "reading_inv env U None s cl c" if "(cl, c) \<in># T" for cl c
    using that assms(2) safe_true by (force simp: waiting_def)
  then show ?thesis using conc_reachable_inv[OF assms(1)] assms(3) by (auto simp: conc_inv_simp mid_ok_def)
qed

text \<open>
  C2. A tick is safe under concurrency. Take any state the goroutines of the server can reach in which no tick runs and every
  connection waits for its next message, let clients connect, disconnect and send messages that are
  handled, and let then a tick run among them: every read of a chunk, every chunk that is woken, every step of
  every worker and every action of every handler in any order. With \<open>U\<close> any set that contains the
  live cells in the database and the cells that the messages ask for, the board at the end of the tick is, up to cells of \<open>U\<close>, the next
  generation of the board the tick began with and some cells of \<open>U\<close>; a cell of that generation is never
  lost. And if the database holds no live cell and no message asks for one, the board is exactly the next generation.
\<close>

theorem concurrent_tick:
  assumes "conc_reachable env (s0, Resting, T0)" "waiting T0" "stored_within (redisClient env) U (db (snd s0))"
    and "during env A (s0, Resting, T0) (s, Resting, T)" "conc_step env TickBegins (s, Resting, T) c1" "during env A' c1 c2"
    "conc_step env TickEnds c2 (s', Resting, T')" and "A \<union> A' \<subseteq> U"
  shows "(\<exists>N. generation_of U (fst s) N \<and> N \<subseteq> board (fst s') \<and> board (fst s') \<subseteq> N \<union> U) \<and>
    (U = {} \<longrightarrow> board (fst s') = life_step (board (fst s)))"
proof -
  have "conc_inv env U (\<lambda>_. True) (s, Resting, T)"
    using during_inv[OF assms(4) _ resting_inv[OF assms(1-3)]] assms(8) by simp
  from tick_outcome[OF this _ assms(5-7)] assms(8) show ?thesis using generation_undisturbed by fastforce
qed

text \<open>
  C11. The invariant under concurrency: whatever the goroutines of the server do, in any order, the registry
  holds one state for each active chunk under its own identifier, with 64 rows, and the gauge is the number of active
  chunks; subscriptions and buckets are well formed; a client watches something only while its connection is
  open; and as long as no worker has a job every idle counter is below the threshold.
\<close>

theorem concurrent_invariant:
  assumes "conc_reachable env (s, t, T)"
  shows "reg_wf (calm (fst s)) \<and> pubsub_wf (subs (snd s)) \<and> table_ok (bucket_at (redisClient env) (db (snd s))) \<and>
    watching (subs (snd s)) \<subseteq> UNIV \<times> fst ` set_mset T \<and> ((\<forall>J. t \<noteq> Running J) \<longrightarrow> reg_wf (fst s))"
  using conc_reachable_inv[OF assms]
  by (cases t) (auto simp: conc_inv_simp mid_ok_def reg_core_def serving_def)

section \<open>Handling one thing at a time\<close>

lemma run_ticker: "during env {} (s, Preparing p, T) (fst (run p s), Running (queued (snd (run p s))), T)"
proof (induction p arbitrary: s rule: prog.induct)
  case (Return jobs)
  then show ?case using steps_one[where P = during_tick, OF conc_step.prepared] by simp
next
  case (Act f g)
  have "during env {} (s, Preparing (Act f g), T) (f s, Preparing (g s), T)"
    using steps_one[where P = during_tick, OF conc_step.prepare] by simp
  from steps_trans[OF Act.IH[of "g s" "f s"] this] show ?case by simp
qed

lemma step_workers: "length (workers (fst (snd (processJob_step cfg k job ph s)))) = length (workers (fst s))"
  by (cases s; cases ph) (simp_all add: Let_def case_prod_unfold evict_def)

lemma run_job_steps:
  assumes "k < length (workers (fst s))"
    and "processJob_steps (registry_config env) k job n (ph, s) = (ph', s')"
  shows "during env {} (s, Running (add_mset (job, ph) J), T) (s', Running (add_mset (job, ph') J), T) \<and> length (workers (fst s')) = length (workers (fst s))"
  using assms
proof (induction n arbitrary: ph s)
  case 0
  then show ?case by (simp add: processJob_steps_def steps.none)
next
  case (Suc n)
  obtain ph1 s1 where one: "processJob_step (registry_config env) k job ph s = (ph1, s1)" by (metis surj_pair)
  have "during env {} (s, Running (add_mset (job, ph) J), T) (s1, Running (add_mset (job, ph1) J), T)"
    using steps_one[where P = during_tick, OF conc_step.work[OF Suc.prems(1) one]] by simp
  moreover have w: "length (workers (fst s1)) = length (workers (fst s))"
    using step_workers[of "registry_config env" k job ph s] by (simp add: one)
  moreover have "processJob_steps (registry_config env) k job n (ph1, s1) = (ph', s')"
    using one Suc.prems(2) by (simp add: processJob_steps_def funpow_Suc_right del: funpow.simps)
  ultimately show ?case using Suc.IH[of s1 ph1] Suc.prems(1) steps_trans by fastforce
qed

lemma run_schedule:
  assumes "\<forall>kj\<in>set kjs. fst kj < length (workers (fst s))"
  shows "during env {} (s, Running (mset (map (\<lambda>kj. (snd kj, Received)) kjs) + J), T)
    (fold (runWorker_step (registry_config env)) kjs s, Running (mset (map (\<lambda>kj. (snd kj, Finished)) kjs) + J), T)"
  using assms
proof (induction kjs arbitrary: s J)
  case Nil
  then show ?case by (simp add: steps.none)
next
  case (Cons kj kjs)
  obtain k job where kj: "kj = (k, job)" by fastforce
  let ?s1 = "runWorker_step (registry_config env) (k, job) s"
  have k: "k < length (workers (fst s))" using Cons.prems by (simp add: kj)
  have "processJob_steps (registry_config env) k job 8 (Received, s) = (Finished, ?s1)"
    using job_steps_compose[of "registry_config env" k job 0 s] by simp
  note one = run_job_steps[OF k this, of "mset (map (\<lambda>kj. (snd kj, Received)) kjs) + J" T]
  have "\<forall>kj\<in>set kjs. fst kj < length (workers (fst ?s1))" using Cons.prems one by simp
  from steps_trans[OF Cons.IH[OF this, of "add_mset (job, Finished) J"]] one show ?case by (auto simp: kj)
qed

text \<open>A tick of the worker pool, undisturbed, as steps of the machine.\<close>

lemma prepared:
  assumes "TickAll_prepare (registry_config env) (\<lambda>_. False) s = (jobs, r')"
  shows "during env {} (s, Preparing (TickAll_prog env), T) ((r', snd s), Running (queued jobs), T)"
  using run_ticker[of env s "TickAll_prog env" T] assms by (cases s) (simp add: run_TickAll)

lemma tick_as_steps:
  assumes "reg_wf (fst s)" "load_ok (registry_config env) (snd s)" "valid_schedule (length (workers (fst s))) sched"
  obtains J where "during env {} (s, Preparing (TickAll_prog env), T) (tick env sched s, Running J, T)" "\<forall>x\<in>#J. snd x = Finished"
proof -
  obtain jobs r1 where p: "TickAll_prepare (registry_config env) (\<lambda>_. False) s = (jobs, r1)" by fastforce
  let ?kjs = "sched jobs" and ?s1 = "(r1, snd s)"
  have "workers r1 = workers (fst s)" using TickAll_prepare_effect(2)[OF assms(1,2)] p by (metis prod.collapse)
  then have "\<forall>kj\<in>set ?kjs. fst kj < length (workers (fst ?s1))" and js: "mset (map snd ?kjs) = mset jobs"
    using assms(3) by (auto simp: valid_schedule_def)
  note run = run_schedule[OF this(1), of env "{#}" T]
  have "image_mset (\<lambda>job. (job, Received)) (mset (map snd ?kjs)) = mset (map (\<lambda>kj. (snd kj, Received)) ?kjs)"
    by (simp add: multiset.map_comp comp_def)
  then have "queued jobs = mset (map (\<lambda>kj. (snd kj, Received)) ?kjs) + {#}"
    unfolding mset_map[of _ jobs] js[symmetric] by simp
  then have "during env {} (s, Preparing (TickAll_prog env), T) (?s1, Running (mset (map (\<lambda>kj. (snd kj, Received)) ?kjs) + {#}), T)"
    using prepared[OF p, of T] by (simp only:)
  from steps_trans[OF run this]
  have "during env {} (s, Preparing (TickAll_prog env), T)
    (fold (runWorker_step (registry_config env)) ?kjs ?s1, Running (mset (map (\<lambda>kj. (snd kj, Finished)) ?kjs)), T)" by simp
  moreover have "fold (runWorker_step (registry_config env)) ?kjs ?s1 = tick env sched s"
    using p by (cases s) (simp add: System.tick_def TickAll_def)
  ultimately show ?thesis using that by auto
qed

lemma tick_reachable:
  assumes "conc_reachable env (s, Resting, T)" "reg_wf (fst s)" "load_ok (registry_config env) (snd s)"
    "valid_schedule (length (workers (fst s))) sched"
  shows "conc_reachable env (tick env sched s, Resting, T)"
proof -
  obtain J where J: "during env {} (s, Preparing (TickAll_prog env), T) (tick env sched s, Running J, T)" "\<forall>x\<in>#J. snd x = Finished"
    by (rule tick_as_steps[OF assms(2-4)])
  show ?thesis
    by (rule conc_reachable.step[OF steps_reachable[OF J(1) conc_reachable.step[OF assms(1) conc_step.tick_begins]] conc_step.tick_ends[OF J(2)]])
qed

text \<open>A client that is not connected connects.\<close>

lemma connected:
  assumes "conc_reachable env (s, t, T)" "waiting T"
  shows "\<exists>T'. conc_reachable env (s, t, add_mset (cl, Handling (Return ())) T') \<and> waiting T'"
proof (cases "cl \<in> fst ` set_mset T")
  case True
  then have "(cl, Handling (Return ())) \<in># T" using assms(2) by (force simp: waiting_def)
  then obtain T' where "T = add_mset (cl, Handling (Return ())) T'" by (auto dest: multi_member_split)
  then show ?thesis using assms by auto
next
  case False
  then show ?thesis using conc_reachable.step[OF assms(1) conc_step.connect] assms(2) by blast
qed

text \<open>A message that arrives and is handled, seen as steps.\<close>

lemma arrive_and_run:
  "during env (world_cell ` set (wire_cells (fst m))) (s, t, add_mset (cl, Handling (Return ())) T)
     (handle_message env p cl m s, t, add_mset (cl, Handling (Return ())) T)"
  using steps_trans[OF run_handler steps_one[where P = during_tick, OF conc_step.arrive]] by (simp add: handler_runs_alone)

lemma message_reachable:
  assumes "conc_reachable env (s, t, T)" "waiting T"
  shows "\<exists>T'. conc_reachable env (handle_message env p cl m s, t, T') \<and> waiting T'"
proof -
  obtain T' where T': "conc_reachable env (s, t, add_mset (cl, Handling (Return ())) T')" "waiting T'"
    using connected[OF assms] by blast
  from steps_reachable[OF arrive_and_run T'(1)] T'(2) show ?thesis by fastforce
qed

lemma sequential_reachable:
  assumes "reachable env s"
  shows "\<exists>T. conc_reachable env (s, Resting, T) \<and> waiting T"
  using assms
proof (induction rule: reachable.induct)
  case (start d NumCPU n)
  then show ?case using only_emptyD(2) conc_reachable.start by fastforce
next
  case (step s a s')
  then obtain T where T: "conc_reachable env (s, Resting, T)" "waiting T" by blast
  from step.hyps(2) show ?case
  proof (cases rule: server_step.cases)
    case (message p cl m)
    then show ?thesis using message_reachable[OF T] by simp
  next
    case (disconnect cl)
    obtain T' where T': "conc_reachable env (s, Resting, add_mset (cl, Handling (Return ())) T')" "waiting T'"
      using connected[OF T] by blast
    from conc_reachable.step[OF conc_reachable.step[OF T'(1) conc_step.disconnect] conc_step.cleanup] T'(2)
    show ?thesis unfolding disconnect(2) by blast
  next
    case (restart NumCPU n)
    then show ?thesis using conc_reachable.step[OF T(1) conc_step.reboot] by fastforce
  next
    case (tick sched)
    note d = system_okD(2,4)[OF reachable_ok[OF step.hyps(1)]]
    then show ?thesis unfolding tick(2) using tick_reachable[OF T(1) d tick(3)] T(2) by blast
  qed
qed



text \<open>States between messages.\<close>

definition quiet :: "('r, 'n) Env \<Rightarrow> ('r, 'n) server \<Rightarrow> ('r, 'n) ticking \<Rightarrow> bool" where
  "quiet env s t \<longleftrightarrow> (\<exists>T. conc_reachable env (s, t, T) \<and> waiting T)"

lemma quiet_sequential: "reachable env s \<Longrightarrow> quiet env s Resting"
  by (simp add: quiet_def sequential_reachable)

lemma quiet_during: "quiet env s t \<Longrightarrow> \<forall>T. during env {} (s, t, T) (s', t', T) \<Longrightarrow> quiet env s' t'"
  using steps_reachable unfolding quiet_def by blast

lemma quiet_step: "quiet env s t \<Longrightarrow> \<forall>T. conc_step env e (s, t, T) (s', t', T) \<Longrightarrow> quiet env s' t'"
  using conc_reachable.step unfolding quiet_def by blast

lemma quiet_message: "quiet env s t \<Longrightarrow> quiet env (handle_message env p cl m s) t"
  using message_reachable unfolding quiet_def by blast

lemma quiet_ok: "quiet env s t \<Longrightarrow> mid_ok env UNIV s" "quiet env s Resting \<Longrightarrow> reg_wf (fst s)"
  using conc_reachable_inv unfolding quiet_def by (fastforce simp: conc_inv_simp)+

section \<open>Coming to rest\<close>








theorem concurrent_invariant_witness: "reg_wf (fst spawned_server)"
  using sequential_reachable[OF spawned_server_facts(1)] concurrent_invariant by blast

theorem concurrent_tick_witness:
  "\<exists>N. generation_of {(0, 0)} (fst spawned_server) N \<and>
     N \<subseteq> board (fst (handle_message demo_env ''bob'' 4 (''{\"type\":\"SPAWN\"}'', \<lambda>_. 7) (tick demo_env in_order spawned_server)))"
proof -
  let ?s = spawned_server and ?m = "(''{\"type\":\"SPAWN\"}'', \<lambda>_. 7)"
  note ok = reachable_ok[OF spawned_server_facts(1)]
  note d = system_okD[OF ok]
  obtain T0 where "conc_reachable demo_env (?s, Resting, T0)" "waiting T0" using sequential_reachable[OF spawned_server_facts(1)] by blast
  from connected[OF this, of 4] obtain T where T: "conc_reachable demo_env (?s, Resting, add_mset (4, Handling (Return ())) T)" "waiting T" by blast
  let ?T = "add_mset (4, Handling (Return ())) T"
  have "valid_schedule (length (workers (fst ?s))) in_order" using in_order_valid[of 2] by (simp add: spawned_server_facts(4))
  then obtain J where steps: "during demo_env {} (?s, Preparing (TickAll_prog demo_env), ?T) (tick demo_env in_order ?s, Running J, ?T)"
    "\<forall>x\<in>#J. snd x = Finished"
    using tick_as_steps[OF d(2,4)] by metis
  have A: "world_cell ` set (wire_cells ''{\"type\":\"SPAWN\"}'') = {(0, 0)}"
    by (simp add: wire_cells_def spawn_text demo_spawn(1) world_cell_def world_coord_def)
  from steps_trans[OF arrive_and_run[of demo_env ?m _ "Running J" 4 T "''bob''"] steps(1)]
  have run: "during demo_env {(0, 0)} (?s, Preparing (TickAll_prog demo_env), ?T) (handle_message demo_env ''bob'' 4 ?m (tick demo_env in_order ?s), Running J, ?T)" by (simp add: A)
  have "only_empty (redisClient demo_env) (db (snd ?s))" using ok by (simp add: system_ok_def world_ok_def)
  then have "stored_within (redisClient demo_env) {(0, 0)} (db (snd ?s))"
    using only_emptyD(1) by (force simp: stored_within_def redis_engine.holds_def)
  from concurrent_tick[OF T(1) _ this steps.none conc_step.tick_begins run conc_step.tick_ends[OF steps(2)]] T(2)
  show ?thesis by simp blast
qed

end
