(* ===== verification/Race.thy ===== *)
theory Race
  imports Concurrent_Tick
begin

text \<open>
  Behaviours only the concurrent server has: a spawn that arrives while a worker hibernates the chunk.
\<close>

section \<open>A chunk that hibernates was idle\<close>





section \<open>A server on the brink of hibernating a chunk\<close>





section \<open>The window\<close>





section \<open>The race\<close>








section \<open>The races\<close>





end
