(* ===== verification/Acknowledged.thy ===== *)
theory Acknowledged
  imports Concurrent_Tick
begin

text \<open>
  What an acknowledgement is worth: as long as no worker acts, what the server told a client it placed is on the board,
  however the handlers, the preparation of a tick and the connections interleave.
\<close>

section \<open>Runs without workers\<close>

primrec no_work :: "'n event \<Rightarrow> bool" where
  "no_work (Work k) = False"
| "no_work Handle = True"
| "no_work (Arrive p cl m) = True"
| "no_work (Connect cl) = True"
| "no_work (Disconnect cl) = True"
| "no_work (Cleanup cl) = True"
| "no_work Prepare = True"
| "no_work TickBegins = True"
| "no_work TickEnds = True"
| "no_work (Reboot NumCPU n) = False"

text \<open>What has happened since: nothing was removed, and every acknowledgement written is true.\<close>

definition honest :: "('n \<Rightarrow> OutgoingMessage set) \<Rightarrow> ('r, 'n) server \<Rightarrow> ('r, 'n) server \<Rightarrow> bool" where
  "honest sent s s' \<longleftrightarrow> disturbs UNIV (fst s) (fst s') \<and> truthful sent s s'"

lemma honest_silent: "disturbs UNIV (fst s) (fst s') \<Longrightarrow> net (snd s') = net (snd s) \<Longrightarrow> honest sent s s'"
  by (simp add: honest_def truthful_def)

lemma honest_trans:
  assumes "honest sent s s'" "honest sent s' s''"
  shows "honest sent s s''"
proof -
  have "board (fst s') \<subseteq> board (fst s'')" using assms(2) by (simp add: honest_def disturbs_def)
  then have "truthful sent s s''" using assms unfolding honest_def truthful_def by blast
  then show ?thesis using assms disturbs_trans[of UNIV "fst s" "fst s'" "fst s''"] by (simp add: honest_def)
qed

lemma honest_meanwhile: "honest sent s s' \<Longrightarrow> meanwhile UNIV (Some sent) s s'"
  by (auto simp: honest_def meanwhile_def dest: disturbs_later)

text \<open>Every connection may go on as long as it is honest.\<close>

definition readings_safe ::
  "('r, 'n) Env \<Rightarrow> ('n \<Rightarrow> OutgoingMessage set) \<Rightarrow> ('r, 'n) server \<Rightarrow> (client \<times> ('r, 'n) reading) multiset \<Rightarrow> bool" where
  "readings_safe env sent s T \<longleftrightarrow> (\<forall>(cl, c)\<in>#T. reading_inv env UNIV (Some sent) s cl c)"

lemma readings_safe_simps [simp]:
  "readings_safe env sent s {#}"
  "readings_safe env sent s (add_mset (cl, c) T) \<longleftrightarrow> reading_inv env UNIV (Some sent) s cl c \<and> readings_safe env sent s T"
  by (simp_all add: readings_safe_def)

lemma readings_honest: "readings_safe env sent s T \<Longrightarrow> honest sent s s' \<Longrightarrow> readings_safe env sent s' T"
  unfolding readings_safe_def using reading_meanwhile[OF _ honest_meanwhile] by blast

lemma honest_step:
  assumes reach: "conc_reachable env (s, t, T)" and rec: "records env sent" and T: "readings_safe env sent s T"
    and step: "conc_step env e (s, t, T) (s', t', T')" "no_work e"
  shows "honest sent s s' \<and> readings_safe env sent s' T'"
proof -
  have inv: "mid_ok env UNIV s" "ticking_inv env UNIV (\<lambda>_. True) s t" using conc_reachable_inv[OF reach] by (simp_all add: conc_inv_simp)
  have same: "honest sent s s" by (simp add: honest_silent)
  show ?thesis
    using step(1)
  proof (cases rule: conc_step.cases)
    case (prepare f g)
    then have "\<exists>Q. preparing.safe env UNIV Q s (Act f g)" using inv(2) by auto
    then have "disturbs UNIV (fst s) (fst (f s)) \<and> snd (f s) = snd s" using preparing.safe_Act[OF _ inv(1)] by blast
    then show ?thesis using readings_honest[OF T honest_silent] by (simp add: prepare honest_silent)
  next
    case (handle cl f g K)
    then have "safe env UNIV (Some sent) cl (\<lambda>_ _. True) s (Act f g)" and K: "readings_safe env sent s K" using T by simp_all
    from handlers.safe_Act[OF this(1)] rec inv(1) have "honest sent s (f s)" "safe env UNIV (Some sent) cl (\<lambda>_ _. True) (f s) (g s)"
      by (auto simp: kept_def may_do_def honest_def)
    then show ?thesis using readings_honest[OF K] by (simp add: handle)
  next
    case (cleanup cl)
    then have "honest sent s (close_connection cl s)" using close_ok[OF inv(1), of cl] by (simp add: honest_silent)
    then show ?thesis using T readings_honest by (simp add: cleanup)
  qed (use same T step(2) in \<open>auto simp: safe_handle_message\<close>)
qed

lemma honest_steps:
  assumes "steps no_work env A (s, t, T) (s', t', T')" "conc_reachable env (s, t, T)" "records env sent" "readings_safe env sent s T"
  shows "honest sent s s' \<and> readings_safe env sent s' T'"
  using assms
proof (induction A "(s, t, T)" "(s', t', T')" arbitrary: s' t' T' rule: steps.induct)
  case none
  then show ?case by (simp add: honest_silent)
next
  case (more A c1 e)
  obtain s1 t1 T1 where c1: "c1 = (s1, t1, T1)" by (cases c1)
  have "honest sent s s1 \<and> readings_safe env sent s1 T1" using more c1 by blast
  moreover have "conc_reachable env (s1, t1, T1)" using steps_reachable more.hyps(1) more.prems(1) c1 by blast
  ultimately show ?case using honest_step[of env s1 t1 T1 sent e s' t' T'] honest_trans more c1 by blast
qed

text \<open>
  C10. Acknowledgements are true. Take any state the goroutines of the server can reach in which every connection waits for its next message, and
  let messages arrive and be handled, clients connect and disconnect and ticks be prepared in any order, but no worker act: then every
  \<open>SPAWN_ACK\<close>, \<open>PLACE_SHAPE_ACK\<close> and \<open>PLACE_CUSTOM_ACK\<close> that was written to a connection tells of
  cells that are on the board, all of them and at the coordinates the command named, and no cell that was on the board is gone.
  \<open>sent\<close> is any way to read off the network which messages were written.
\<close>

theorem acknowledged_cells_are_placed:
  assumes "conc_reachable env (s, t, T)" "waiting T" and "records env sent" and "steps no_work env A (s, t, T) (s', t', T')"
  shows "(\<forall>msg\<in>sent (net (snd s')) - sent (net (snd s)). world_cell ` set (acknowledged msg) \<subseteq> board (fst s')) \<and>
    board (fst s) \<subseteq> board (fst s')"
proof -
  have "readings_safe env sent s T" using assms(2) safe_true by (fastforce simp: readings_safe_def waiting_def)
  from honest_steps[OF assms(4,1,3) this] show ?thesis by (simp add: honest_def truthful_def disturbs_def)
qed

text \<open>A spawn that is handled while a tick is prepared.\<close>

lemma spawned_log: "OutgoingMessage ''SPAWN_ACK'' (OfSpawn (SpawnCommand 0 0)) \<in> snd ` set (net (snd spawned_server))"
proof -
  obtain s1 where c: "checkRateLimit demo_env ''bob'' 4 7 demo_server = (s1, True)"
    using demo_spawn(2) by (auto simp: granted_def) (metis prod.collapse)
  have "WriteJSON demo_env = log_writer" by (simp add: demo_env_def)
  then have "(4, OutgoingMessage ''SPAWN_ACK'' (OfSpawn (SpawnCommand 0 0))) \<in> set (net (snd spawned_server))"
    by (simp add: spawned_server_def handle_message_def spawn_text Route_def Route_SPAWN_def c spawn_parsed send_def log_writer_def
        split: prod.split)
  then show ?thesis by (rule image_eqI[rotated]) simp
qed

lemma log_records: "records demo_env (\<lambda>n. snd ` set n)"
  by (auto simp: records_def demo_env_def log_writer_def)

lemma spawn_while_preparing:
  "steps no_work demo_env {(0, 0)} (demo_server, Resting, {#})
     (spawned_server, Preparing (TickAll_prog demo_env), {#(4, Handling (Return ()))#})"
proof -
  let ?m = "(''{\"type\":\"SPAWN\"}'', \<lambda>_. 7)" and ?p = "Preparing (TickAll_prog demo_env)" and ?idle = "(4, Handling (Return ()))"
  have connect: "steps no_work demo_env {} (demo_server, Resting, {#}) (demo_server, Resting, {#?idle#})"
    using steps_one[where P = no_work, OF conc_step.connect[of 4 "{#}"]] by simp
  have begin': "steps no_work demo_env {} (demo_server, Resting, {#?idle#}) (demo_server, ?p, {#?idle#})"
    using steps_one[where P = no_work, OF conc_step.tick_begins] by simp
  have arrive: "steps no_work demo_env {(0, 0)} (demo_server, ?p, {#?idle#})
      (demo_server, ?p, {#(4, Handling (handle_message_prog demo_env ''bob'' 4 ?m))#})"
    using steps_one[where P = no_work, OF conc_step.arrive[of demo_env "''bob''" 4 ?m]]
    by (simp add: wire_cells_def spawn_text demo_spawn(1) world_cell_def world_coord_def)
  have handle: "steps no_work demo_env {} (demo_server, ?p, {#(4, Handling (handle_message_prog demo_env ''bob'' 4 ?m))#})
      (spawned_server, ?p, {#?idle#})"
    using handler_steps[of no_work demo_env demo_server ?p 4 "handle_message_prog demo_env ''bob'' 4 ?m" "{#}"]
    by (simp add: handler_runs_alone spawned_server_def)
  from steps_trans[OF handle steps_trans[OF arrive steps_trans[OF begin' connect]]] show ?thesis by simp
qed

lemma demo_starts: "conc_reachable demo_env (demo_server, Resting, {#})"
  unfolding demo_server_def using empty_memory_ok by (intro conc_reachable.start) simp_all

theorem acknowledged_cells_are_placed_witness: "(0, 0) \<in> board (fst spawned_server)"
proof -
  have "OutgoingMessage ''SPAWN_ACK'' (OfSpawn (SpawnCommand 0 0)) \<in> snd ` set (net (snd spawned_server)) - snd ` set (net (snd demo_server))"
    using spawned_log by (simp add: demo_server_def start_server_def)
  moreover note acknowledged_cells_are_placed[OF demo_starts waiting_simps(1) log_records spawn_while_preparing, THEN conjunct1]
  ultimately have "world_cell ` set (acknowledged (OutgoingMessage ''SPAWN_ACK'' (OfSpawn (SpawnCommand 0 0)))) \<subseteq> board (fst spawned_server)"
    by (rule bspec[rotated])
  then show ?thesis by (simp add: acknowledged_def world_cell_def world_coord_def)
qed

end
