(* ===== verification/Viewport.thy ===== *)
theory Viewport
  imports Models Storage Life
begin

text \<open>
  What the browser does with what the server sends: \<^verbatim>\<open>viewport/app.js\<close>, the part that keeps the cells on
  display in step with the board. Messages travel as the JSON text of \<^verbatim>\<open>OutgoingMessage\<close>. The colours of cells, the
  display and the pointer are left out. The numbers of JavaScript are integers here, which is what they are up to
  \<open>2 ^ 53\<close>.
\<close>

section \<open>Messages as text\<close>

definition SpawnCommand_json :: "SpawnCommand \<Rightarrow> json" where
  "SpawnCommand_json cmd = JObj [(''x'', json_int (sint (spawnX cmd))), (''y'', json_int (sint (spawnY cmd)))]"

definition PlaceShapeCommand_json :: "PlaceShapeCommand \<Rightarrow> json" where
  "PlaceShapeCommand_json cmd =
     JObj [(''x'', json_int (sint (shapeX cmd))), (''y'', json_int (sint (shapeY cmd))), (''shape'', JStr (shapeName cmd))]"

definition CellOffset_json :: "CellOffset \<Rightarrow> json" where
  "CellOffset_json c = JObj [(''x'', json_int (sint (cellX c))), (''y'', json_int (sint (cellY c)))]"

text \<open>A piece without cells is refused, so that an empty slice is never sent.\<close>

definition PlaceCustomCommand_json :: "PlaceCustomCommand \<Rightarrow> json" where
  "PlaceCustomCommand_json cmd =
     JObj [(''x'', json_int (sint (customX cmd))), (''y'', json_int (sint (customY cmd))),
           (''cells'', JArr (map CellOffset_json (elements (customCells cmd))))]"

definition ChunkStatePayload_json :: "ChunkStatePayload \<Rightarrow> json" where
  "ChunkStatePayload_json p =
     JObj [(''x'', json_int (sint (stateX p))), (''y'', json_int (sint (stateY p))),
           (''cells'', JArr (map (\<lambda>off. json_int (uint off)) (stateCells p)))]"

definition ErrorPayload_json :: "ErrorPayload \<Rightarrow> json" where
  "ErrorPayload_json e = JObj [(''code'', JStr (errCode e)), (''message'', JStr (errMessage e))]"

primrec Payload_json :: "Payload \<Rightarrow> json" where
  "Payload_json (OfSpawn cmd) = SpawnCommand_json cmd"
| "Payload_json (OfPlaceShape cmd) = PlaceShapeCommand_json cmd"
| "Payload_json (OfPlaceCustom cmd) = PlaceCustomCommand_json cmd"
| "Payload_json (OfChunkState p) = ChunkStatePayload_json p"
| "Payload_json (OfError e) = ErrorPayload_json e"

definition OutgoingMessage_json :: "OutgoingMessage \<Rightarrow> json" where
  "OutgoingMessage_json msg = JObj [(''type'', JStr (outType msg)), (''payload'', Payload_json (outPayload msg))]"

definition message_text :: "OutgoingMessage \<Rightarrow> string" where
  "message_text msg = print_json (OutgoingMessage_json msg)"

section \<open>The client\<close>

type_synonym cell = "int \<times> int"

text \<open>The keys of \<^verbatim>\<open>localCells\<close> in the order of the map, and the cells each command that was sent has put there.\<close>

record viewport =
  localCells :: "cell list"
  pendingCommands :: "cell list list"

definition map_set :: "'a \<Rightarrow> 'a list \<Rightarrow> 'a list" where
  "map_set k ks = (if k \<in> set ks then ks else ks @ [k])"

definition js_rem :: "int \<Rightarrow> int \<Rightarrow> int" where
  "js_rem a b = (if a < 0 then - (- a mod b) else a mod b)"

definition reconcileChunk :: "int \<Rightarrow> int \<Rightarrow> int list \<Rightarrow> cell list \<Rightarrow> cell list" where
  "reconcileChunk x y cells shown =
     (let baseX = x * 64; baseY = y * 64; maxX = baseX + 64; maxY = baseY + 64;
          rest = filter (\<lambda>(wx, wy). \<not> (wx \<ge> baseX \<and> wx < maxX \<and> wy \<ge> baseY \<and> wy < maxY)) shown
      in fold (\<lambda>offset. map_set (baseX + js_rem offset 64, baseY + offset div 64)) cells rest)"

text \<open>Access to a parsed value; of two members with one name the later one wins.\<close>

fun js_get :: "json \<Rightarrow> string \<Rightarrow> json option" where
  "js_get (JObj kvs) k = map_of (rev kvs) k"
| "js_get _ k = None"

definition int_literal :: "string \<Rightarrow> int option" where
  "int_literal s =
     (let (neg, ds) = (if take 1 s = ''-'' then (True, drop 1 s) else (False, s))
      in if ds \<noteq> [] \<and> list_all is_digit ds then Some (if neg then - digits_value ds else digits_value ds) else None)"

fun js_int :: "json \<Rightarrow> int option" where
  "js_int (JNum s) = int_literal s"
| "js_int _ = None"

fun js_ints :: "json \<Rightarrow> int list option" where
  "js_ints (JArr js) = those (map js_int js)"
| "js_ints JNull = Some []"
| "js_ints _ = None"

definition chunk_payload :: "json \<Rightarrow> (int \<times> int \<times> int list) option" where
  "chunk_payload p =
     (case (Option.bind (js_get p ''x'') js_int, Option.bind (js_get p ''y'') js_int, Option.bind (js_get p ''cells'') js_ints) of
        (Some x, Some y, Some cells) \<Rightarrow> Some (x, y, cells)
      | _ \<Rightarrow> None)"

text \<open>
  The handler of the socket. Text that is not JSON throws before anything has changed; payloads of
  other forms are never sent.
\<close>

definition onmessage :: "string \<Rightarrow> viewport \<Rightarrow> viewport" where
  "onmessage text v =
     (case parse_json text of
        None \<Rightarrow> v
      | Some msg \<Rightarrow>
          (case js_get msg ''type'' of
             Some (JStr t) \<Rightarrow>
               if t = ''CHUNK_STATE'' then
                 (case Option.bind (js_get msg ''payload'') chunk_payload of
                    Some (x, y, cells) \<Rightarrow> v\<lparr>localCells := reconcileChunk x y cells (localCells v)\<rparr>
                  | None \<Rightarrow> v)
               else if t \<in> {''SPAWN_ACK'', ''PLACE_SHAPE_ACK'', ''PLACE_CUSTOM_ACK''} then
                 v\<lparr>pendingCommands := tl (pendingCommands v)\<rparr>
               else if t = ''ERROR'' then
                 (case pendingCommands v of
                    [] \<Rightarrow> v
                  | keys # rest \<Rightarrow> v\<lparr>pendingCommands := rest, localCells := filter (\<lambda>c. c \<notin> set keys) (localCells v)\<rparr>)
               else v
           | _ \<Rightarrow> v))"





section \<open>Reading a message\<close>

lemma int_literal_dec: "int_literal (dec_int i) = Some i"
proof (cases "i < 0")
  case True
  then show ?thesis using dec_nat_digits[of "nat (- i)"] by (simp add: dec_int_def int_literal_def digits_value_dec)
next
  case False
  obtain c r where c: "dec_nat (nat i) = c # r" "is_digit c"
    using dec_nat_digits[of "nat i"] by (cases "dec_nat (nat i)") auto
  then have "take 1 (dec_nat (nat i)) \<noteq> ''-''" by (auto simp: is_digit_def)
  with False show ?thesis using dec_nat_digits[of "nat i"] by (simp add: dec_int_def int_literal_def digits_value_dec)
qed

lemma js_int_dec [simp]: "js_int (json_int i) = Some i"
  by (simp add: json_int_def int_literal_dec)

lemma js_ints_dec: "js_ints (JArr (map (\<lambda>off. json_int (uint off)) cs)) = Some (map uint cs)"
  by (induction cs) simp_all

lemma state_parsed:
  "parse_json (message_text (OutgoingMessage ''CHUNK_STATE'' (OfChunkState p))) =
     Some (OutgoingMessage_json (OutgoingMessage ''CHUNK_STATE'' (OfChunkState p)))"
  unfolding message_text_def
  by (rule parse_print_json)
    (auto simp: OutgoingMessage_json_def ChunkStatePayload_json_def json_int_def number_literal_dec plain_char_def maxNestingDepth_def)

lemma onmessage_state:
  "onmessage (message_text (OutgoingMessage ''CHUNK_STATE'' (OfChunkState p))) v =
     v\<lparr>localCells := reconcileChunk (sint (stateX p)) (sint (stateY p)) (map uint (stateCells p)) (localCells v)\<rparr>"
  by (simp add: onmessage_def state_parsed OutgoingMessage_json_def ChunkStatePayload_json_def chunk_payload_def js_ints_dec
      del: js_ints.simps)

section \<open>The cells on display\<close>

text \<open>The place of a cell of the display on the board.\<close>

definition world :: "cell \<Rightarrow> coord \<times> coord" where
  "world c = (word_of_int (fst c), word_of_int (snd c))"

definition local_cell :: "ChunkID \<Rightarrow> nat \<times> nat \<Rightarrow> cell" where
  "local_cell i p = (sint (idX i) * 64 + int (fst p), sint (idY i) * 64 + int (snd p))"

lemma gcoord_sint: "gcoord c l = word_of_int (sint c * 64 + l)"
proof -
  have "uint c mod 2 ^ 64 = sint c mod 2 ^ 64" by (simp add: uint_sint take_bit_eq_mod)
  then have "(2 ^ 64 :: int) dvd uint c - sint c" by (simp add: mod_eq_dvd_iff)
  then obtain k where "uint c - sint c = 2 ^ 64 * k" by (rule dvdE)
  then have "(uint c * 64 + l) - (sint c * 64 + l) = 2 ^ 70 * k" by simp
  then show ?thesis unfolding gcoord_def coord_of_int_eq by simp
qed

lemma world_local_cell: "world (local_cell i p) = gcell i p"
  by (simp add: world_def local_cell_def gcell_def gcoord_sint)

text \<open>The display is right about a chunk.\<close>

definition right_about :: "cell list \<Rightarrow> board \<Rightarrow> ChunkID \<Rightarrow> bool" where
  "right_about cs B i \<longleftrightarrow> (\<forall>x<64. \<forall>y<64. local_cell i (x, y) \<in> set cs \<longleftrightarrow> gcell i (x, y) \<in> B)"

text \<open>The state of a chunk on a board, as it is sent.\<close>

definition chunk_offsets :: "ChunkID \<Rightarrow> board \<Rightarrow> u16 list" where
  "chunk_offsets i B = map of_nat (filter (\<lambda>n. gcell i (n mod 64, n div 64) \<in> B) [0..<4096])"

definition state_message :: "ChunkID \<Rightarrow> board \<Rightarrow> OutgoingMessage" where
  "state_message i B = OutgoingMessage ''CHUNK_STATE'' (OfChunkState (ChunkStatePayload (idX i) (idY i) (chunk_offsets i B)))"

lemma chunk_offsets_rows:
  assumes "wf_rows rs" "cells_of i rs = B \<inter> area i"
  shows "RowsToOffsets rs = chunk_offsets i B"
proof -
  have "alive rs (n mod 64) (n div 64) \<longleftrightarrow> gcell i (n mod 64, n div 64) \<in> B" if n: "n < 4096" for n
  proof -
    have xy: "n mod 64 < 64" "n div 64 < 64" using n by simp_all
    then have "gcell i (n mod 64, n div 64) \<in> area i" by (simp add: area_def)
    then show ?thesis using gcell_in_cells_of[OF assms(1) xy, of i] by (simp add: assms(2))
  qed
  then show ?thesis
    unfolding RowsToOffsets_filter[OF assms(1)] chunk_offsets_def by (intro arg_cong[where f = "map of_nat"] filter_cong) simp_all
qed

lemma set_map_set: "set (fold (\<lambda>k. map_set (f k)) ks cs) = set cs \<union> f ` set ks"
  by (induction ks arbitrary: cs) (auto simp: map_set_def)

definition in_chunk :: "ChunkID \<Rightarrow> cell \<Rightarrow> bool" where
  "in_chunk i c \<longleftrightarrow> fst c div 64 = sint (idX i) \<and> snd c div 64 = sint (idY i)"

lemma in_chunk_local: "x < 64 \<Longrightarrow> y < 64 \<Longrightarrow> in_chunk i (local_cell j (x, y)) \<longleftrightarrow> i = j"
proof -
  have "sint a = sint b \<longleftrightarrow> a = b" for a b :: i64 using signed_word_eqI by blast
  moreover assume "x < 64" "y < 64"
  ultimately show ?thesis by (cases i; cases j) (auto simp: in_chunk_def local_cell_def)
qed

lemma set_reconcile:
  "set (reconcileChunk (sint (idX i)) (sint (idY i)) (map uint (chunk_offsets i B)) cs) =
     {c \<in> set cs. \<not> in_chunk i c} \<union> {local_cell i (x, y) | x y. x < 64 \<and> y < 64 \<and> gcell i (x, y) \<in> B}"
proof -
  have chunk: "(wx \<ge> X * 64 \<and> wx < X * 64 + 64) \<longleftrightarrow> wx div 64 = X" for wx X :: int by auto
  let ?g = "\<lambda>off. (sint (idX i) * 64 + js_rem off 64, sint (idY i) * 64 + off div 64)"
  let ?ns = "filter (\<lambda>n. gcell i (n mod 64, n div 64) \<in> B) [0..<4096]"
  have off: "uint (of_nat n :: u16) = int n" if "n < 4096" for n
    using that by (simp add: uint_nat unat_of_nat_u16)
  have "?g (uint (of_nat n :: u16)) = local_cell i (n mod 64, n div 64)" if "n < 4096" for n
    by (simp add: off[OF that] js_rem_def local_cell_def zmod_int zdiv_int)
  then have "?g ` set (map uint (chunk_offsets i B)) = (\<lambda>n. local_cell i (n mod 64, n div 64)) ` set ?ns"
    unfolding chunk_offsets_def set_map image_image by (intro image_cong) simp_all
  also have "\<dots> = {local_cell i (x, y) | x y. x < 64 \<and> y < 64 \<and> gcell i (x, y) \<in> B}" (is "?L = ?R")
  proof
    show "?L \<subseteq> ?R" by fastforce
    show "?R \<subseteq> ?L"
    proof
      fix c assume "c \<in> ?R"
      then obtain x y where "c = local_cell i (x, y)" "x < 64" "y < 64" "gcell i (x, y) \<in> B" by blast
      then show "c \<in> ?L" by (intro image_eqI[of _ _ "y * 64 + x"]) simp_all
    qed
  qed
  finally show ?thesis
    unfolding reconcileChunk_def Let_def set_map_set by (auto simp: in_chunk_def chunk)
qed

lemma reconcile_right:
  "right_about (reconcileChunk (sint (idX i)) (sint (idY i)) (map uint (chunk_offsets i B)) cs) B' j \<longleftrightarrow>
     (if j = i then (\<forall>x<64. \<forall>y<64. gcell i (x, y) \<in> B \<longleftrightarrow> gcell i (x, y) \<in> B') else right_about cs B' j)"
proof -
  have inj: "local_cell j (x, y) = local_cell i (x', y') \<longleftrightarrow> j = i \<and> x = x' \<and> y = y'"
    if "x < 64" "y < 64" "x' < 64" "y' < 64" for x y x' y'
    using that in_chunk_local[of x y i j] in_chunk_local[of x' y' i i] by (auto simp: local_cell_def)
  have "local_cell j (x, y) \<in> set (reconcileChunk (sint (idX i)) (sint (idY i)) (map uint (chunk_offsets i B)) cs) \<longleftrightarrow>
      (if j = i then gcell i (x, y) \<in> B else local_cell j (x, y) \<in> set cs)" if "x < 64" "y < 64" for x y
    unfolding set_reconcile using that inj by (auto simp: in_chunk_local)
  then show ?thesis by (simp add: right_about_def)
qed

text \<open>A client that receives the states of some chunks is right about these, and as right as before about the others.\<close>

lemma states_right:
  "right_about (localCells (fold onmessage (map (\<lambda>i. message_text (state_message i B)) ks) v)) B i \<longleftrightarrow>
     i \<in> set ks \<or> right_about (localCells v) B i"
  by (induction ks arbitrary: v) (auto simp: state_message_def onmessage_state reconcile_right)

section \<open>The prediction\<close>










end
