(* ===== verification/Viewer.thy ===== *)
theory Viewer
  imports System Viewport
begin

text \<open>
  The whole way from the board of the server to the cells a client has on display: the tick, the broadcast of the
  chunks, the JSON text, and the client that takes it.
\<close>

section \<open>What a tick writes to a client\<close>















end
