(* ===== verification/Placing.thy ===== *)
theory Placing
  imports Viewport Router_Inv
begin

text \<open>
  Placing cells from the browser, \<^verbatim>\<open>placeAt\<close> of \<^verbatim>\<open>viewport/app.js\<close>: the client shows the cells at once and sends a
  command; the theorem says that the server reads from its text exactly these cells.
\<close>

section \<open>The client\<close>






section \<open>What the server reads\<close>



lemma printable_int [simp]: "printable (json_int i)" "fits n (json_int i)"
  by (simp_all add: json_int_def number_literal_dec)





section \<open>Placing\<close>














end
